(* ===== verification/Prelude.thy ===== *)
theory Prelude
  imports Complex_Main "HOL-Library.Multiset" "HOL-Library.AList"
begin

text \<open>
  Shared vocabulary of the development: the Python exceptions the modelled code
  raises, results that may be such an exception, Python's slicing and indexing,
  the integer helpers of \<^verbatim>\<open>vllm/utils/math_utils.py\<close>, and the list and result
  lemmas the component theories use.
\<close>

section \<open>Errors and results\<close>

text \<open>\<open>Diverge\<close> is the outcome of a loop of the code that does not end.\<close>

datatype py_error =
    ValueError | RuntimeError | AssertionError | IndexError | KeyError
  | NotImplementedError | OverflowError | TypeError | AttributeError | ZeroDivisionError
  | StopIteration | Diverge

type_synonym 'a res = "py_error + 'a"

text \<open>Sequencing: the first exception aborts the rest, as an uncaught raise does.\<close>

definition rbind :: "'a res \<Rightarrow> ('a \<Rightarrow> 'b res) \<Rightarrow> 'b res" where
  "rbind m f = (case m of Inl e \<Rightarrow> Inl e | Inr x \<Rightarrow> f x)"

definition py_assert :: "bool \<Rightarrow> 'a res \<Rightarrow> 'a res" where
  "py_assert b m = (if b then m else Inl AssertionError)"

definition py_raise_if :: "bool \<Rightarrow> py_error \<Rightarrow> 'a res \<Rightarrow> 'a res" where
  "py_raise_if b e m = (if b then Inl e else m)"

text \<open>A loop over a list whose body may raise.\<close>

fun rfold :: "('a \<Rightarrow> 's \<Rightarrow> 's res) \<Rightarrow> 'a list \<Rightarrow> 's \<Rightarrow> 's res" where
  "rfold f [] s = Inr s"
| "rfold f (x # xs) s = rbind (f x s) (rfold f xs)"

fun rmap :: "('a \<Rightarrow> 'b res) \<Rightarrow> 'a list \<Rightarrow> 'b list res" where
  "rmap f [] = Inr []"
| "rmap f (x # xs) = rbind (f x) (\<lambda>y. rbind (rmap f xs) (\<lambda>ys. Inr (y # ys)))"

text \<open>A loop that returns \<open>False\<close> at the first element that fails the test.\<close>

fun rall :: "('a \<Rightarrow> bool res) \<Rightarrow> 'a list \<Rightarrow> bool res" where
  "rall f [] = Inr True"
| "rall f (x # xs) = rbind (f x) (\<lambda>b. if b then rall f xs else Inr False)"

definition is_ok :: "'a res \<Rightarrow> bool" where
  "is_ok r = (case r of Inl _ \<Rightarrow> False | Inr _ \<Rightarrow> True)"

section \<open>Python sequences\<close>

abbreviation len :: "'a list \<Rightarrow> int" where
  "len xs \<equiv> int (length xs)"

text \<open>\<open>slice_bound n i\<close> is the clamped position of slice bound \<open>i\<close> in a sequence of
  length \<open>n\<close>: a negative bound counts from the end and is cut at the start.\<close>

definition slice_bound :: "int \<Rightarrow> int \<Rightarrow> int" where
  "slice_bound n i = (if i < 0 then max 0 (n + i) else min i n)"

definition py_slice :: "'a list \<Rightarrow> int \<Rightarrow> int \<Rightarrow> 'a list" where
  "py_slice xs a b =
     (let n = int (length xs); i = slice_bound n a; j = slice_bound n b
      in take (nat (j - i)) (drop (nat i) xs))"

definition py_from :: "'a list \<Rightarrow> int \<Rightarrow> 'a list" where
  "py_from xs a = drop (nat (slice_bound (int (length xs)) a)) xs"

definition py_upto :: "'a list \<Rightarrow> int \<Rightarrow> 'a list" where
  "py_upto xs b = take (nat (slice_bound (int (length xs)) b)) xs"

text \<open>A negative index counts from the end; an index out of range raises.\<close>

definition py_pos :: "int \<Rightarrow> int \<Rightarrow> int" where
  "py_pos n k = (if k \<ge> 0 then k else k + n)"

definition py_get :: "'a list \<Rightarrow> int \<Rightarrow> 'a res" where
  "py_get xs k =
     (if py_pos (len xs) k < 0 \<or> py_pos (len xs) k \<ge> len xs then Inl IndexError
      else Inr (xs ! nat (py_pos (len xs) k)))"

text \<open>\<open>[x] * n\<close>: empty for \<open>n \<le> 0\<close>.\<close>

definition py_repeat :: "'a \<Rightarrow> int \<Rightarrow> 'a list" where
  "py_repeat x n = replicate (nat n) x"

section \<open>Integer helpers\<close>

definition cdiv :: "int \<Rightarrow> int \<Rightarrow> int" where
  "cdiv a b = - (a div (- b))"

text \<open>Python's division raises when the divisor is zero; \<open>max\<close> raises on an empty sequence.\<close>

definition py_cdiv :: "int \<Rightarrow> int \<Rightarrow> int res" where
  "py_cdiv a b = py_raise_if (b = 0) ZeroDivisionError (Inr (cdiv a b))"

definition py_max :: "int list \<Rightarrow> int res" where
  "py_max xs = (case xs of [] \<Rightarrow> Inl ValueError | x # ys \<Rightarrow> Inr (foldl max x ys))"

definition round_up :: "int \<Rightarrow> int \<Rightarrow> int" where
  "round_up x y = ((x + y - 1) div y) * y"

definition round_down :: "int \<Rightarrow> int \<Rightarrow> int" where
  "round_down x y = (x div y) * y"

section \<open>Lemmas\<close>

lemma rbind_simps [simp]:
  "rbind (Inl e) f = Inl e"
  "rbind (Inr x) f = f x"
  by (simp_all add: rbind_def)

lemma rbind_eq_Inr: "rbind m f = Inr y \<longleftrightarrow> (\<exists>x. m = Inr x \<and> f x = Inr y)"
  by (cases m) simp_all

lemma rbind_eq_Inl: "rbind m f = Inl e \<longleftrightarrow> m = Inl e \<or> (\<exists>x. m = Inr x \<and> f x = Inl e)"
  by (cases m) auto

lemma rbind_InrE:
  assumes "rbind m f = Inr y"
  obtains x where "m = Inr x" "f x = Inr y"
  using assms by (auto simp: rbind_eq_Inr)

lemma rbind_assoc: "rbind (rbind m f) g = rbind m (\<lambda>x. rbind (f x) g)"
  by (cases m) simp_all

lemma rbind_cong [fundef_cong]:
  "m = m' \<Longrightarrow> (\<And>x. m' = Inr x \<Longrightarrow> f x = f' x) \<Longrightarrow> rbind m f = rbind m' f'"
  by (cases m') simp_all

lemma rmap_cong [fundef_cong]:
  "xs = ys \<Longrightarrow> (\<And>x. x \<in> set ys \<Longrightarrow> f x = f' x) \<Longrightarrow> rmap f xs = rmap f' ys"
proof (induction ys arbitrary: xs)
  case (Cons y ys)
  then show ?case by (auto intro: rbind_cong)
qed simp

lemma py_assert_simps [simp]:
  "py_assert True m = m"
  "py_assert False m = Inl AssertionError"
  by (simp_all add: py_assert_def)

lemma py_assert_Inr: "py_assert b m = Inr x \<longleftrightarrow> b \<and> m = Inr x"
  by (simp add: py_assert_def)

lemma py_raise_if_simps [simp]:
  "py_raise_if True e m = Inl e"
  "py_raise_if False e m = m"
  by (simp_all add: py_raise_if_def)

lemma py_raise_if_Inr: "py_raise_if b e m = Inr x \<longleftrightarrow> \<not> b \<and> m = Inr x"
  by (simp add: py_raise_if_def)

lemmas res_Inr = rbind_eq_Inr py_assert_Inr py_raise_if_Inr

lemma is_ok_simps [simp]: "is_ok (Inr x)" "\<not> is_ok (Inl e)"
  by (simp_all add: is_ok_def)

lemma is_ok_iff: "is_ok r \<longleftrightarrow> (\<exists>x. r = Inr x)"
  by (cases r) simp_all

lemma rfold_append: "rfold f (xs @ ys) s = rbind (rfold f xs s) (rfold f ys)"
proof (induction xs arbitrary: s)
  case Nil
  then show ?case by simp
next
  case (Cons x xs)
  then show ?case by (cases "f x s") simp_all
qed

text \<open>The loop rule: a predicate kept by every iteration that succeeds holds at the end.\<close>

lemma rfold_invariant:
  assumes "rfold f xs s = Inr s'"
    and "P s"
    and "\<And>x s s'. x \<in> set xs \<Longrightarrow> P s \<Longrightarrow> f x s = Inr s' \<Longrightarrow> P s'"
  shows "P s'"
  using assms
proof (induction xs arbitrary: s)
  case Nil
  then show ?case by simp
next
  case (Cons x xs)
  from Cons.prems(1) obtain s1 where s1: "f x s = Inr s1" "rfold f xs s1 = Inr s'"
    by (auto simp: rbind_eq_Inr)
  have "P s1" using Cons.prems(2,3) s1(1) by auto
  then show ?case using Cons.IH [OF s1(2)] Cons.prems(3) by auto
qed

text \<open>The total loop rule: if every iteration keeps \<open>P\<close> and cannot raise, the loop returns.\<close>

lemma rfold_total:
  assumes "P s"
    and "\<And>x s. x \<in> set xs \<Longrightarrow> P s \<Longrightarrow> \<exists>s'. f x s = Inr s' \<and> P s'"
  shows "\<exists>s'. rfold f xs s = Inr s' \<and> P s'"
  using assms
proof (induction xs arbitrary: s)
  case Nil
  then show ?case by simp
next
  case (Cons x xs)
  obtain s1 where s1: "f x s = Inr s1" "P s1"
    using Cons.prems by fastforce
  then show ?case using Cons.IH [OF s1(2)] Cons.prems(2) by auto
qed

lemma rall_Inr:
  "(\<And>x. x \<in> set xs \<Longrightarrow> f x = Inr (P x)) \<Longrightarrow> rall f xs = Inr (\<forall>x \<in> set xs. P x)"
  by (induction xs) auto

lemma rmap_Inr_length: "rmap f xs = Inr ys \<Longrightarrow> length ys = length xs"
  by (induction xs arbitrary: ys) (auto simp: rbind_eq_Inr)

lemma rmap_Inr_nth: "rmap f xs = Inr ys \<Longrightarrow> i < length xs \<Longrightarrow> f (xs ! i) = Inr (ys ! i)"
  by (induction xs arbitrary: ys i) (auto simp: rbind_eq_Inr nth_Cons split: nat.splits)

lemma remove1_eq_filter: "distinct xs \<Longrightarrow> remove1 b xs = filter (\<lambda>x. x \<noteq> b) xs"
proof (induction xs)
  case (Cons x xs)
  then show ?case by (cases "x = b") (auto simp: remove1_idem)
qed simp

lemma foldl_max_ge: "x \<le> foldl max x ys" "y \<in> set ys \<Longrightarrow> y \<le> foldl max x ys" for x y :: int
proof (induction ys arbitrary: x)
  case (Cons z ys)
  { case 1
    show ?case using Cons.IH(1) [of "max x z"] by simp }
  { case 2
    then show ?case using Cons.IH(1) [of "max x z"] Cons.IH(2) [of "max x z"] by auto }
qed simp_all

lemma foldl_max_in: "foldl max x ys \<in> insert x (set ys)" for x :: int
  by (induction ys arbitrary: x) (auto simp: max_def)

lemma py_max_Inr: "py_max xs = Inr m \<longleftrightarrow> m \<in> set xs \<and> (\<forall>x \<in> set xs. x \<le> m)"
proof (cases xs)
  case (Cons x ys)
  let ?m = "foldl max x ys"
  have in_: "?m \<in> set xs" using foldl_max_in [of x ys] Cons by simp
  have ge: "\<forall>z \<in> set xs. z \<le> ?m" using foldl_max_ge [of x ys] foldl_max_ge(2) [of _ ys x] Cons by simp
  have "m = ?m" if "m \<in> set xs" "\<forall>z \<in> set xs. z \<le> m" using that in_ ge by (meson antisym)
  then show ?thesis using Cons in_ ge by (auto simp: py_max_def)
qed (simp add: py_max_def)

lemma py_upto_nonneg: "0 \<le> b \<Longrightarrow> py_upto xs b = take (nat b) xs"
  by (auto simp: py_upto_def slice_bound_def min_def)

lemma py_from_nonneg: "0 \<le> a \<Longrightarrow> py_from xs a = drop (nat a) xs"
  by (auto simp: py_from_def slice_bound_def min_def)

lemma py_slice_nonneg:
  "0 \<le> a \<Longrightarrow> 0 \<le> b \<Longrightarrow> py_slice xs a b = take (nat b - nat a) (drop (nat a) xs)"
proof -
  assume a: "0 \<le> a" and b: "0 \<le> b"
  show ?thesis
  proof (cases "a \<le> len xs")
    case True
    have "take (nat (min b (len xs) - a)) (drop (nat a) xs) =
        take (nat b - nat a) (drop (nat a) xs)"
    proof (cases "b \<le> len xs")
      case True
      then show ?thesis using a b by (simp add: nat_diff_distrib')
    next
      case False
      have "length (drop (nat a) xs) \<le> nat (len xs - a)" using a by simp
      moreover have "length (drop (nat a) xs) \<le> nat b - nat a" using a b False by simp
      ultimately show ?thesis using False by (simp add: min_def)
    qed
    then show ?thesis using a b True by (simp add: py_slice_def slice_bound_def Let_def)
  next
    case False
    then show ?thesis using a b by (simp add: py_slice_def slice_bound_def Let_def)
  qed
qed

lemma py_get_nonneg:
  "0 \<le> i \<Longrightarrow> i < len xs \<Longrightarrow> py_get xs i = Inr (xs ! nat i)"
  by (simp add: py_get_def py_pos_def)

lemma length_py_repeat [simp]: "length (py_repeat x n) = nat n"
  by (simp add: py_repeat_def)

lemma le_div_iff_int: "0 < (b::int) \<Longrightarrow> a \<le> n div b \<longleftrightarrow> a * b \<le> n"
proof -
  assume b: "0 < b"
  have n: "n = (n div b) * b + n mod b" by simp
  have r: "0 \<le> n mod b" "n mod b < b" using b by simp_all
  show ?thesis
  proof
    assume "a \<le> n div b"
    then have "a * b \<le> (n div b) * b" using b by (intro mult_right_mono) simp_all
    then show "a * b \<le> n" using n r by linarith
  next
    assume "a * b \<le> n"
    then have "a * b < (n div b + 1) * b" 
      unfolding distrib_right mult_1_left using n r by linarith
    then show "a \<le> n div b" using b mult_less_cancel_right_pos by fastforce
  qed
qed

lemma cdiv_le_iff: "0 < b \<Longrightarrow> cdiv a b \<le> k \<longleftrightarrow> a \<le> k * b"
proof -
  assume b: "0 < b"
  define q where "q = (- a) div b"
  define r where "r = (- a) mod b"
  have qr: "a = - (q * b) - r"
    using div_mult_mod_eq [of "- a" b] unfolding q_def r_def by linarith
  have r: "0 \<le> r" "r < b" using b by (simp_all add: r_def)
  have c: "cdiv a b = - q" by (simp add: cdiv_def q_def div_minus_right)
  show ?thesis
  proof
    assume "cdiv a b \<le> k"
    then have "- q * b \<le> k * b" using b c by (intro mult_right_mono) simp_all
    then show "a \<le> k * b" using qr r by simp
  next
    assume "a \<le> k * b"
    then have "- q * b < (k + 1) * b" using qr r by (simp add: algebra_simps)
    then have "- q < k + 1" using b mult_less_cancel_right_pos by blast
    then show "cdiv a b \<le> k" using c by simp
  qed
qed

lemma cdiv_eq: "0 < b \<Longrightarrow> cdiv a b = (a + b - 1) div b"
proof -
  assume b: "0 < b"
  define q where "q = (- a) div b"
  define r where "r = (- a) mod b"
  have qr: "- a = b * q + r" by (simp add: q_def r_def)
  have r: "0 \<le> r" "r < b" using b by (simp_all add: r_def)
  have e: "a + b - 1 = (b - 1 - r) + b * (- q)" using qr by (simp add: algebra_simps)
  have "(a + b - 1) div b = (b - 1 - r) div b + - q"
    unfolding e using b by (subst div_mult_self2) simp_all
  moreover have "(b - 1 - r) div b = 0"
    using r by (simp add: div_pos_pos_trivial)
  moreover have "cdiv a b = - q"
    by (simp add: cdiv_def q_def div_minus_right)
  ultimately show ?thesis by simp
qed

end
