(* ===== verification/FreeQueue.thy ===== *)
theory FreeQueue
  imports Prelude "HOL-Library.Word"
begin

text \<open>
  \<^verbatim>\<open>vllm/v1/core/kv_cache_utils.py\<close>, classes \<open>KVCacheBlock\<close> and
  \<open>FreeKVCacheBlockQueue\<close>: the KV cache block descriptors and the doubly linked
  list of free blocks threaded through them.  Blocks are Python objects that the
  queue, the pool and the requests share, so they live in an explicit heap from
  object references to records; the queue's operations are heap updates in the
  order the code makes them.  The lemmas show that the linked list represents a
  duplicate-free list of block numbers and that every operation is the
  corresponding list operation (constant-time removal from the middle included).
\<close>

section \<open>Blocks and the heap\<close>

text \<open>An object reference: the two sentinels of the queue, or block number \<open>n\<close> of the pool.\<close>

datatype bref = Head | Tail | Blk nat

type_synonym bytes = "8 word list"

record KVCacheBlock =
  block_id :: int
  ref_cnt :: int
  block_hash :: "bytes option"
  prev_free_block :: "bref option"
  next_free_block :: "bref option"
  is_null :: bool

type_synonym bheap = "bref \<Rightarrow> KVCacheBlock"

definition new_KVCacheBlock :: "int \<Rightarrow> KVCacheBlock" where
  "new_KVCacheBlock i =
     \<lparr>block_id = i, ref_cnt = 0, block_hash = None,
      prev_free_block = None, next_free_block = None, is_null = False\<rparr>"

definition set_prev :: "bref \<Rightarrow> bref option \<Rightarrow> bheap \<Rightarrow> bheap" where
  "set_prev r v h = h(r := (h r)\<lparr>prev_free_block := v\<rparr>)"

definition set_next :: "bref \<Rightarrow> bref option \<Rightarrow> bheap \<Rightarrow> bheap" where
  "set_next r v h = h(r := (h r)\<lparr>next_free_block := v\<rparr>)"

definition set_ref_cnt :: "bref \<Rightarrow> int \<Rightarrow> bheap \<Rightarrow> bheap" where
  "set_ref_cnt r v h = h(r := (h r)\<lparr>ref_cnt := v\<rparr>)"

text \<open>The \<open>block_hash\<close> setter asserts that the block has no hash yet.\<close>

definition set_block_hash :: "bref \<Rightarrow> bytes \<Rightarrow> bheap \<Rightarrow> bheap res" where
  "set_block_hash r k h =
     py_assert (block_hash (h r) = None) (Inr (h(r := (h r)\<lparr>block_hash := Some k\<rparr>)))"

definition reset_hash :: "bref \<Rightarrow> bheap \<Rightarrow> bheap" where
  "reset_hash r h = h(r := (h r)\<lparr>block_hash := None\<rparr>)"

section \<open>The free queue\<close>

text \<open>The queue object: its counter; its two sentinels are the references \<open>Head\<close> and
  \<open>Tail\<close>.  The heap is part of the state because every operation writes it.\<close>

record free_queue =
  heap :: bheap
  num_free_blocks :: int

definition link_block :: "bref list \<Rightarrow> nat \<Rightarrow> bheap \<Rightarrow> bheap" where
  "link_block bs i h =
     (let h1 = (if i > 0 then set_prev (bs ! i) (Some (bs ! (i - 1))) h else h)
      in if i < length bs - 1 then set_next (bs ! i) (Some (bs ! (i + 1))) h1 else h1)"

definition FreeKVCacheBlockQueue_init :: "bref list \<Rightarrow> bheap \<Rightarrow> free_queue" where
  "FreeKVCacheBlockQueue_init bs h =
     (let h1 = fold (link_block bs) [0..<length bs] h;
          h2 = h1(Head := new_KVCacheBlock (-1), Tail := new_KVCacheBlock (-1));
          h3 = (if length bs > 0
                then set_next (last bs) (Some Tail)
                      (set_prev Tail (Some (last bs))
                        (set_prev (bs ! 0) (Some Head)
                          (set_next Head (Some (bs ! 0)) h2)))
                else set_prev Tail (Some Head) (set_next Head (Some Tail) h2))
      in \<lparr>heap = h3, num_free_blocks = len bs\<rparr>)"

definition popleft :: "free_queue \<Rightarrow> (bref \<times> free_queue) res" where
  "popleft q =
     (case next_free_block (heap q Head) of
        None \<Rightarrow> py_assert (num_free_blocks q = 0) (Inl ValueError)
      | Some first_block \<Rightarrow>
          if first_block = Tail then py_assert (num_free_blocks q = 0) (Inl ValueError)
          else (case next_free_block (heap q first_block) of
             None \<Rightarrow> Inl RuntimeError
           | Some nxt \<Rightarrow>
               let h1 = set_next Head (Some nxt) (heap q);
                   h2 = set_prev nxt (Some Head) h1;
                   h3 = set_next first_block None (set_prev first_block None h2)
               in Inr (first_block,
                       \<lparr>heap = h3, num_free_blocks = num_free_blocks q - 1\<rparr>)))"

fun popleft_loop :: "nat \<Rightarrow> bref option \<Rightarrow> bref list \<Rightarrow> bheap
    \<Rightarrow> (bref option \<times> bref list \<times> bheap) res" where
  "popleft_loop 0 cur ret h = Inr (cur, ret, h)"
| "popleft_loop (Suc k) None ret h = Inl AssertionError"
| "popleft_loop (Suc k) (Some c) ret h =
     popleft_loop k (next_free_block (h c)) (ret @ [c]) (set_next c None (set_prev c None h))"

definition popleft_n :: "int \<Rightarrow> free_queue \<Rightarrow> (bref list \<times> free_queue) res" where
  "popleft_n n q =
     (if n = 0 then Inr ([], q)
      else py_assert (num_free_blocks q \<ge> n)
        (rbind (popleft_loop (nat n) (next_free_block (heap q Head)) [] (heap q))
          (\<lambda>(cur, ret, h).
             Inr (ret,
               \<lparr>heap = (case cur of None \<Rightarrow> h
                         | Some c \<Rightarrow> set_prev c (Some Head) (set_next Head (Some c) h)),
                num_free_blocks = num_free_blocks q - n\<rparr>))))"

definition fq_remove :: "bref \<Rightarrow> free_queue \<Rightarrow> free_queue res" where
  "fq_remove b q =
     (case (prev_free_block (heap q b), next_free_block (heap q b)) of
        (Some p, Some n) \<Rightarrow>
          let h1 = set_next p (Some n) (heap q);
              h2 = set_prev n (Some p) h1;
              h3 = set_next b None (set_prev b None h2)
          in Inr \<lparr>heap = h3, num_free_blocks = num_free_blocks q - 1\<rparr>
      | _ \<Rightarrow> Inl RuntimeError)"

definition fq_append :: "bref \<Rightarrow> free_queue \<Rightarrow> free_queue res" where
  "fq_append b q =
     (case prev_free_block (heap q Tail) of
        None \<Rightarrow> Inl RuntimeError
      | Some last_block \<Rightarrow>
          let h1 = set_next last_block (Some b) (heap q);
              h2 = set_prev b (Some last_block) h1;
              h3 = set_next b (Some Tail) h2;
              h4 = set_prev Tail (Some b) h3
          in Inr \<lparr>heap = h4, num_free_blocks = num_free_blocks q + 1\<rparr>)"

fun append_loop :: "bref list \<Rightarrow> bref \<Rightarrow> bheap \<Rightarrow> bref \<times> bheap" where
  "append_loop [] last_block h = (last_block, h)"
| "append_loop (b # bs) last_block h =
     append_loop bs b (set_next last_block (Some b) (set_prev b (Some last_block) h))"

definition append_n :: "bref list \<Rightarrow> free_queue \<Rightarrow> free_queue res" where
  "append_n bs q =
     (if bs = [] then Inr q
      else (case prev_free_block (heap q Tail) of
         None \<Rightarrow> Inl AssertionError
       | Some l \<Rightarrow>
           let (last_block, h1) = append_loop bs l (heap q);
               h2 = set_prev Tail (Some last_block) (set_next last_block (Some Tail) h1)
           in Inr \<lparr>heap = h2, num_free_blocks = num_free_blocks q + len bs\<rparr>))"

text \<open>The walk of \<open>get_all_free_blocks\<close> is a loop over the links; on a heap whose links
  form a cycle it would not end, hence the partial function.\<close>

partial_function (option) collect_free :: "bheap \<Rightarrow> bref \<Rightarrow> bref list \<Rightarrow> bref list option" where
  "collect_free h cur ret =
     (case next_free_block (h cur) of
        None \<Rightarrow> Some ret
      | Some n \<Rightarrow> collect_free h n (ret @ [cur]))"

definition get_all_free_blocks :: "free_queue \<Rightarrow> bref list res option" where
  "get_all_free_blocks q =
     (case next_free_block (heap q Head) of
        None \<Rightarrow> Some (Inl RuntimeError)
      | Some c \<Rightarrow> map_option Inr (collect_free (heap q) c []))"

section \<open>The list a queue represents\<close>

text \<open>\<open>dll h p xs n\<close>: following the links from \<open>p\<close> one meets exactly \<open>xs\<close> and then \<open>n\<close>,
  forwards and backwards.\<close>

fun dll :: "bheap \<Rightarrow> bref \<Rightarrow> bref list \<Rightarrow> bref \<Rightarrow> bool" where
  "dll h p [] n \<longleftrightarrow> next_free_block (h p) = Some n \<and> prev_free_block (h n) = Some p"
| "dll h p (x # xs) n \<longleftrightarrow>
     next_free_block (h p) = Some x \<and> prev_free_block (h x) = Some p \<and> dll h x xs n"

definition unlinked :: "bheap \<Rightarrow> nat \<Rightarrow> bool" where
  "unlinked h b \<longleftrightarrow> prev_free_block (h (Blk b)) = None \<and> next_free_block (h (Blk b)) = None"

definition fq_repr :: "free_queue \<Rightarrow> nat list \<Rightarrow> bool" where
  "fq_repr q xs \<longleftrightarrow>
     dll (heap q) Head (map Blk xs) Tail \<and> distinct xs \<and>
     num_free_blocks q = len xs \<and>
     next_free_block (heap q Tail) = None \<and>
     (\<forall>b. b \<notin> set xs \<longrightarrow> unlinked (heap q) b)"

text \<open>The part of a block the queue never writes.\<close>

definition payload :: "KVCacheBlock \<Rightarrow> int \<times> int \<times> bytes option \<times> bool" where
  "payload b = (block_id b, ref_cnt b, block_hash b, is_null b)"

definition same_payload :: "bheap \<Rightarrow> bheap \<Rightarrow> bool" where
  "same_payload h h' \<longleftrightarrow> (\<forall>b. payload (h' (Blk b)) = payload (h (Blk b)))"

definition same_links :: "bheap \<Rightarrow> bheap \<Rightarrow> bool" where
  "same_links h h' \<longleftrightarrow>
     (\<forall>r. prev_free_block (h' r) = prev_free_block (h r) \<and>
          next_free_block (h' r) = next_free_block (h r))"

section \<open>Heap lemmas\<close>

lemma link_sel [simp]:
  "next_free_block (set_next r v h r') = (if r' = r then v else next_free_block (h r'))"
  "prev_free_block (set_next r v h r') = prev_free_block (h r')"
  "prev_free_block (set_prev r v h r') = (if r' = r then v else prev_free_block (h r'))"
  "next_free_block (set_prev r v h r') = next_free_block (h r')"
  by (simp_all add: set_next_def set_prev_def)

lemma payload_sel [simp]:
  "payload (set_next r v h r') = payload (h r')"
  "payload (set_prev r v h r') = payload (h r')"
  by (simp_all add: set_next_def set_prev_def payload_def)

lemma same_payload_refl [simp]: "same_payload h h"
  by (simp add: same_payload_def)

lemma same_payload_trans [trans]:
  "same_payload h h' \<Longrightarrow> same_payload h' h'' \<Longrightarrow> same_payload h h''"
  by (simp add: same_payload_def)

lemma same_payload_sel:
  assumes "same_payload h h'"
  shows "block_id (h' (Blk b)) = block_id (h (Blk b))"
    "ref_cnt (h' (Blk b)) = ref_cnt (h (Blk b))"
    "block_hash (h' (Blk b)) = block_hash (h (Blk b))"
    "is_null (h' (Blk b)) = is_null (h (Blk b))"
  using assms by (simp_all add: same_payload_def payload_def)

lemma dll_append: "dll h p (xs @ y # ys) n \<longleftrightarrow> dll h p xs y \<and> dll h y ys n"
  by (induction xs arbitrary: p) auto

lemma dll_set_next_frame:
  "r \<noteq> p \<Longrightarrow> r \<notin> set xs \<Longrightarrow> dll (set_next r v h) p xs n = dll h p xs n"
  by (induction xs arbitrary: p) auto

lemma dll_set_prev_frame:
  "r \<noteq> n \<Longrightarrow> r \<notin> set xs \<Longrightarrow> dll (set_prev r v h) p xs n = dll h p xs n"
  by (induction xs arbitrary: p) auto

lemmas dll_frame = dll_set_next_frame dll_set_prev_frame

lemma dll_cong_links: "same_links h h' \<Longrightarrow> dll h' p xs n = dll h p xs n"
  by (induction xs arbitrary: p) (auto simp: same_links_def)

lemma fq_repr_cong_links:
  "same_links (heap q) h \<Longrightarrow> fq_repr (q\<lparr>heap := h\<rparr>) xs = fq_repr q xs"
  by (auto simp: fq_repr_def unlinked_def dll_cong_links) (auto simp: same_links_def)

lemma fq_repr_next_head:
  "fq_repr q xs \<Longrightarrow>
     next_free_block (heap q Head) = Some (case xs of [] \<Rightarrow> Tail | x # _ \<Rightarrow> Blk x)"
  by (cases xs) (auto simp: fq_repr_def)

lemma dll_snoc_prev: "dll h p (xs @ [x]) n \<Longrightarrow> prev_free_block (h n) = Some x"
  by (simp add: dll_append)

lemma fq_repr_prev_tail:
  "fq_repr q xs \<Longrightarrow>
     prev_free_block (heap q Tail) = Some (if xs = [] then Head else Blk (last xs))"
  by (cases xs rule: rev_cases) (auto simp: fq_repr_def dll_append)

section \<open>Every operation is the list operation\<close>

lemma map_Blk_mem [simp]: "Blk x \<in> Blk ` A \<longleftrightarrow> x \<in> A" "Head \<notin> Blk ` A" "Tail \<notin> Blk ` A"
  by auto

lemma popleft_empty: "fq_repr q [] \<Longrightarrow> popleft q = Inl ValueError"
  by (simp add: popleft_def fq_repr_next_head) (simp add: fq_repr_def)

lemma popleft_Cons:
  assumes "fq_repr q (x # xs)"
  shows "\<exists>q'. popleft q = Inr (Blk x, q') \<and> fq_repr q' xs \<and> same_payload (heap q) (heap q')"
proof -
  from assms have d: "dll (heap q) Head (Blk x # map Blk xs) Tail" "distinct (x # xs)"
    by (simp_all add: fq_repr_def)
  show ?thesis
  proof (cases xs)
    case Nil
    then show ?thesis using assms
      by (auto simp: fq_repr_def popleft_def unlinked_def same_payload_def)
  next
    case (Cons y ys)
    then show ?thesis using assms d
      by (auto simp: fq_repr_def popleft_def unlinked_def same_payload_def dll_frame)
  qed
qed

lemma fq_remove_split:
  assumes "fq_repr q (xs @ b # ys)"
  shows "\<exists>q'. fq_remove (Blk b) q = Inr q' \<and> fq_repr q' (xs @ ys) \<and>
    same_payload (heap q) (heap q')"
proof -
  define p where "p = (if xs = [] then Head else Blk (last xs))"
  define n where "n = (if ys = [] then Tail else Blk (hd ys))"
  let ?h = "heap q"
  let ?h' = "set_next (Blk b) None (set_prev (Blk b) None
      (set_prev n (Some p) (set_next p (Some n) ?h)))"
  have d: "dll ?h Head (map Blk xs) (Blk b)" "dll ?h (Blk b) (map Blk ys) Tail"
    and dist: "distinct (xs @ b # ys)"
    using assms by (auto simp: fq_repr_def dll_append)
  have pb: "prev_free_block (?h (Blk b)) = Some p"
    using d(1) by (cases xs rule: rev_cases) (auto simp: p_def dll_append)
  have nb: "next_free_block (?h (Blk b)) = Some n"
    using d(2) by (cases ys) (auto simp: n_def)
  have "dll ?h' Head (map Blk xs @ map Blk ys) Tail"
  proof (cases xs rule: rev_cases)
    case Nil
    then show ?thesis using d dist
      by (cases ys) (auto simp: p_def n_def dll_frame)
  next
    case (snoc zs z)
    then have "dll ?h' Head (map Blk zs) (Blk z)"
      using d dist by (cases ys) (auto simp: p_def n_def dll_append dll_frame)
    moreover have "dll ?h' (Blk z) (map Blk ys) Tail"
      using d dist snoc by (cases ys) (auto simp: p_def n_def dll_append dll_frame)
    ultimately show ?thesis using snoc by (simp add: dll_append)
  qed
  then show ?thesis
    using assms pb nb dist
    by (cases "xs = []"; cases "ys = []")
      (auto simp: fq_remove_def fq_repr_def unlinked_def same_payload_def Let_def p_def n_def)
qed

lemma fq_remove_mem:
  assumes "fq_repr q xs" "b \<in> set xs"
  shows "\<exists>q'. fq_remove (Blk b) q = Inr q' \<and> fq_repr q' (remove1 b xs) \<and>
    same_payload (heap q) (heap q')"
proof -
  obtain ys zs where xs: "xs = ys @ b # zs" "b \<notin> set ys"
    using assms(2) by (metis split_list_first)
  then have "remove1 b xs = ys @ zs" by (simp add: remove1_append)
  then show ?thesis using fq_remove_split assms(1) xs by metis
qed

lemma fq_remove_not_mem:
  assumes "fq_repr q xs" "b \<notin> set xs"
  shows "fq_remove (Blk b) q = Inl RuntimeError"
  using assms by (auto simp: fq_remove_def fq_repr_def unlinked_def)

lemma fq_append_snoc:
  assumes "fq_repr q xs" "b \<notin> set xs"
  shows "\<exists>q'. fq_append (Blk b) q = Inr q' \<and> fq_repr q' (xs @ [b]) \<and>
    same_payload (heap q) (heap q')"
proof (cases xs rule: rev_cases)
  case Nil
  then show ?thesis using assms
    by (auto simp: fq_append_def fq_repr_def unlinked_def same_payload_def Let_def)
next
  case (snoc ys y)
  then show ?thesis using assms
    by (auto simp: fq_append_def fq_repr_def unlinked_def same_payload_def Let_def
        dll_append dll_frame)
qed

text \<open>\<open>append_n\<close> writes each link once instead of relinking the tail after every block;
  the heap it leaves is the one repeated \<open>append\<close> leaves.\<close>

definition close_tail :: "bref \<times> bheap \<Rightarrow> bheap" where
  "close_tail lh = set_prev Tail (Some (fst lh)) (set_next (fst lh) (Some Tail) (snd lh))"

lemma link_commute:
  "set_next r v (set_prev r' v' h) = set_prev r' v' (set_next r v h)"
  "set_prev r v (set_prev r w h) = set_prev r v h"
  "set_next r v (set_next r w h) = set_next r v h"
  "r \<noteq> r' \<Longrightarrow> set_prev r v (set_prev r' v' h) = set_prev r' v' (set_prev r v h)"
  by (auto simp: set_next_def set_prev_def fun_eq_iff)

lemma append_loop_tail:
  "Tail \<notin> set bs \<Longrightarrow>
     close_tail (append_loop bs l (set_prev Tail v h)) = close_tail (append_loop bs l h)"
proof (induction bs arbitrary: l h)
  case Nil
  then show ?case by (simp add: close_tail_def link_commute)
next
  case (Cons b bs)
  have "set_next l (Some b) (set_prev b (Some l) (set_prev Tail v h)) =
      set_prev Tail v (set_next l (Some b) (set_prev b (Some l) h))"
    using Cons.prems by (auto simp: set_next_def set_prev_def fun_eq_iff)
  then show ?case using Cons by simp
qed

lemma append_loop_closed:
  "Tail \<notin> set bs \<Longrightarrow>
     close_tail (append_loop bs l (close_tail (l, h))) = close_tail (append_loop bs l h)"
proof (cases bs)
  case Nil
  then show ?thesis
    by (auto simp: close_tail_def set_next_def set_prev_def fun_eq_iff)
next
  case (Cons b cs)
  assume t: "Tail \<notin> set bs"
  have "set_next l (Some b) (set_prev b (Some l) (close_tail (l, h))) =
      set_prev Tail (Some l) (set_next l (Some b) (set_prev b (Some l) h))"
    using t Cons by (auto simp: close_tail_def set_next_def set_prev_def fun_eq_iff)
  then show ?thesis using t Cons append_loop_tail by simp
qed

lemma append_loop_eq_appends:
  "Tail \<notin> set (b # bs) \<Longrightarrow> prev_free_block (heap q Tail) = Some l \<Longrightarrow>
     rfold fq_append (b # bs) q =
       Inr \<lparr>heap = close_tail (append_loop (b # bs) l (heap q)),
            num_free_blocks = num_free_blocks q + len (b # bs)\<rparr>"
proof (induction bs arbitrary: b q l)
  case Nil
  then show ?case
    by (auto simp: fq_append_def close_tail_def Let_def link_commute)
next
  case (Cons c cs)
  let ?h1 = "set_next l (Some b) (set_prev b (Some l) (heap q))"
  let ?q1 = "\<lparr>heap = close_tail (b, ?h1), num_free_blocks = num_free_blocks q + 1\<rparr>"
  have step: "fq_append b q = Inr ?q1"
    using Cons.prems by (simp add: fq_append_def close_tail_def Let_def link_commute)
  have "rfold fq_append (c # cs) ?q1 =
      Inr \<lparr>heap = close_tail (append_loop (c # cs) b (heap ?q1)),
           num_free_blocks = num_free_blocks ?q1 + len (c # cs)\<rparr>"
    using Cons.prems by (intro Cons.IH) (simp_all add: close_tail_def)
  moreover have "close_tail (append_loop (c # cs) b (close_tail (b, ?h1))) =
      close_tail (append_loop (c # cs) b ?h1)"
    using Cons.prems by (intro append_loop_closed) simp
  ultimately show ?case using step by simp
qed

lemma append_n_eq_appends:
  assumes "Tail \<notin> set bs" "prev_free_block (heap q Tail) \<noteq> None"
  shows "append_n bs q = rfold fq_append bs q"
proof (cases bs)
  case Nil
  then show ?thesis by (simp add: append_n_def)
next
  case (Cons b cs)
  with assms show ?thesis
    by (auto simp: append_n_def append_loop_eq_appends close_tail_def split: prod.splits
        simp del: rfold.simps append_loop.simps)
qed

lemma append_n_append:
  assumes "fq_repr q xs" "distinct ys" "set xs \<inter> set ys = {}"
  shows "\<exists>q'. append_n (map Blk ys) q = Inr q' \<and> fq_repr q' (xs @ ys) \<and>
    same_payload (heap q) (heap q')"
proof -
  have "\<exists>q'. rfold fq_append (map Blk ys) q = Inr q' \<and> fq_repr q' (xs @ ys) \<and>
      same_payload (heap q) (heap q')"
    using assms
  proof (induction ys arbitrary: q xs)
    case Nil
    then show ?case by simp
  next
    case (Cons y ys)
    obtain q1 where q1: "fq_append (Blk y) q = Inr q1" "fq_repr q1 (xs @ [y])"
      "same_payload (heap q) (heap q1)"
      using fq_append_snoc [of q xs y] Cons.prems by auto
    obtain q' where "rfold fq_append (map Blk ys) q1 = Inr q'"
      "fq_repr q' ((xs @ [y]) @ ys)" "same_payload (heap q1) (heap q')"
      using Cons.IH [OF q1(2)] Cons.prems by auto
    then show ?case using q1 same_payload_trans by auto
  qed
  then show ?thesis
    using append_n_eq_appends [of "map Blk ys" q] fq_repr_prev_tail [OF assms(1)] by auto
qed

text \<open>\<open>popleft_n\<close>: the loop detaches a prefix of the queue, the last two writes attach
  the rest to the head.\<close>

definition detach :: "bref \<Rightarrow> bheap \<Rightarrow> bheap" where
  "detach r h = set_next r None (set_prev r None h)"

lemma fold_detach_sel:
  "next_free_block (fold detach rs h r) = (if r \<in> set rs then None else next_free_block (h r))"
  "prev_free_block (fold detach rs h r) = (if r \<in> set rs then None else prev_free_block (h r))"
  "payload (fold detach rs h r) = payload (h r)"
  by (induction rs arbitrary: h) (auto simp: detach_def)

lemma fold_detach_dll:
  "p \<notin> set rs \<Longrightarrow> n \<notin> set rs \<Longrightarrow> set xs \<inter> set rs = {} \<Longrightarrow>
     dll (fold detach rs h) p xs n = dll h p xs n"
  by (induction xs arbitrary: p) (auto simp: fold_detach_sel)

text \<open>The forward half of \<open>dll\<close>, as the loop follows it.\<close>

fun fwd :: "bheap \<Rightarrow> bref option \<Rightarrow> bref list \<Rightarrow> bref \<Rightarrow> bool" where
  "fwd h c [] n \<longleftrightarrow> c = Some n"
| "fwd h c (x # xs) n \<longleftrightarrow> c = Some x \<and> fwd h (next_free_block (h x)) xs n"

lemma dll_fwd: "dll h p xs n \<Longrightarrow> fwd h (next_free_block (h p)) xs n"
  by (induction xs arbitrary: p) auto

lemma fwd_detach: "x \<notin> set xs \<Longrightarrow> fwd (detach x h) c xs n = fwd h c xs n"
  by (induction xs arbitrary: c) (auto simp: detach_def)

lemma popleft_loop_prefix:
  "fwd h c (xs @ ys) n \<Longrightarrow> distinct (xs @ ys) \<Longrightarrow>
     popleft_loop (length xs) c ret h =
       Inr (Some (hd (ys @ [n])), ret @ xs, fold detach xs h)"
proof (induction xs arbitrary: c h ret)
  case Nil
  then show ?case by (cases ys) auto
next
  case (Cons x xs)
  have "popleft_loop (length xs) (next_free_block (h x)) (ret @ [x]) (detach x h) =
      Inr (Some (hd (ys @ [n])), (ret @ [x]) @ xs, fold detach xs (detach x h))"
    using Cons.prems by (intro Cons.IH) (auto simp: fwd_detach)
  then show ?case using Cons.prems by (simp add: detach_def [symmetric])
qed

lemma dll_relink_head:
  assumes "dll h p xs n" "distinct xs" "n \<notin> set xs" "r \<notin> set xs"
  shows "dll (set_prev (hd (xs @ [n])) (Some r) (set_next r (Some (hd (xs @ [n]))) h)) r xs n"
  using assms by (cases xs) (auto simp: dll_frame)

lemma popleft_n_prefix:
  assumes "fq_repr q (xs @ ys)"
  shows "\<exists>q'. popleft_n (len xs) q = Inr (map Blk xs, q') \<and> fq_repr q' ys \<and>
    same_payload (heap q) (heap q')"
proof (cases "xs = []")
  case True
  then show ?thesis using assms by (simp add: popleft_n_def)
next
  case False
  let ?h = "heap q" and ?X = "map Blk xs" and ?Y = "map Blk ys"
  let ?n = "hd (?Y @ [Tail])"
  let ?h' = "set_prev ?n (Some Head) (set_next Head (Some ?n) (fold detach ?X ?h))"
  have d: "dll ?h Head (?X @ ?Y) Tail" and dist: "distinct (xs @ ys)"
    using assms by (simp_all add: fq_repr_def)
  have dist': "distinct (?X @ ?Y)"
    using dist by (auto simp: distinct_map inj_on_def)
  have loop: "popleft_loop (length xs) (next_free_block (?h Head)) [] ?h =
      Inr (Some ?n, ?X, fold detach ?X ?h)"
    using popleft_loop_prefix [of ?h _ ?X ?Y Tail "[]"] dll_fwd [OF d] dist' by simp
  have "dll ?h (last ?X) ?Y Tail"
    using d False by (metis append_butlast_last_id append_assoc append_Cons append_Nil
        dll_append map_is_Nil_conv)
  then have "dll (set_prev ?n (Some Head) (set_next Head (Some ?n) ?h)) Head ?Y Tail"
    using dist' by (intro dll_relink_head) auto
  moreover have "set ?Y \<inter> set ?X = {}" using dist' by auto
  ultimately have "dll (fold detach ?X (set_prev ?n (Some Head) (set_next Head (Some ?n) ?h)))
      Head ?Y Tail"
    by (subst fold_detach_dll) auto
  moreover have "?n \<notin> set ?X" using dist by (cases ys) auto
  then have "same_links (fold detach ?X (set_prev ?n (Some Head) (set_next Head (Some ?n) ?h))) ?h'"
    by (auto simp: same_links_def fold_detach_sel)
  ultimately have "dll ?h' Head ?Y Tail" by (simp add: dll_cong_links)
  moreover have "unlinked ?h' b" if "b \<notin> set ys" for b
    using that assms by (cases ys) (auto simp: unlinked_def fold_detach_sel fq_repr_def)
  moreover have "next_free_block (?h' Tail) = None"
    using assms by (auto simp: fold_detach_sel fq_repr_def)
  ultimately show ?thesis
    using assms False loop dist
    by (auto simp: popleft_n_def fq_repr_def same_payload_def fold_detach_sel)
qed

lemma popleft_n_take:
  assumes "fq_repr q xs" "0 \<le> n" "n \<le> len xs"
  shows "\<exists>q'. popleft_n n q = Inr (map Blk (take (nat n) xs), q') \<and>
    fq_repr q' (drop (nat n) xs) \<and> same_payload (heap q) (heap q')"
proof -
  have "len (take (nat n) xs) = n" using assms by simp
  then show ?thesis
    using popleft_n_prefix [of q "take (nat n) xs" "drop (nat n) xs"] assms(1) by simp
qed

lemma popleft_n_too_many:
  "fq_repr q xs \<Longrightarrow> n > len xs \<Longrightarrow> popleft_n n q = Inl AssertionError"
  by (auto simp: popleft_n_def fq_repr_def)

section \<open>Construction and traversal\<close>

lemma collect_free_fwd:
  "fwd h (Some c) xs Tail \<Longrightarrow> next_free_block (h Tail) = None \<Longrightarrow>
     collect_free h c ret = Some (ret @ xs)"
proof (induction xs arbitrary: c ret)
  case Nil
  then show ?case by (subst collect_free.simps) simp
next
  case (Cons x xs)
  then obtain n where n: "next_free_block (h x) = Some n"
    by (cases xs) auto
  then have "collect_free h n (ret @ [x]) = Some ((ret @ [x]) @ xs)"
    using Cons by (intro Cons.IH) auto
  then show ?case using n Cons.prems by (subst collect_free.simps) simp
qed

lemma get_all_free_blocks_repr:
  assumes "fq_repr q xs"
  shows "get_all_free_blocks q = Some (Inr (map Blk xs))"
proof -
  have f: "fwd (heap q) (next_free_block (heap q Head)) (map Blk xs) Tail"
    and t: "next_free_block (heap q Tail) = None"
    using assms dll_fwd by (auto simp: fq_repr_def)
  obtain c where c: "next_free_block (heap q Head) = Some c"
    using fq_repr_next_head [OF assms] by simp
  have "collect_free (heap q) c [] = Some ([] @ map Blk xs)"
    using f t unfolding c by (rule collect_free_fwd)
  then show ?thesis using c by (simp add: get_all_free_blocks_def)
qed

lemma fold_link_block_sel:
  assumes "bs = map Blk [0..<n]" "m \<le> n"
  shows "prev_free_block (fold (link_block bs) [0..<m] h (Blk i)) =
      (if 0 < i \<and> i < m then Some (Blk (i - 1)) else prev_free_block (h (Blk i)))"
    "next_free_block (fold (link_block bs) [0..<m] h (Blk i)) =
      (if i < m \<and> i < n - 1 then Some (Blk (i + 1)) else next_free_block (h (Blk i)))"
    "payload (fold (link_block bs) [0..<m] h (Blk i)) = payload (h (Blk i))"
  using assms(2)
  by (induction m) (auto simp: assms(1) link_block_def Let_def)

lemma dll_upt:
  assumes "a < b" "next_free_block (h p) = Some (Blk a)" "prev_free_block (h (Blk a)) = Some p"
    and "\<And>i. a \<le> i \<Longrightarrow> Suc i < b \<Longrightarrow>
      next_free_block (h (Blk i)) = Some (Blk (Suc i)) \<and>
      prev_free_block (h (Blk (Suc i))) = Some (Blk i)"
    and "next_free_block (h (Blk (b - 1))) = Some Tail"
    and "prev_free_block (h Tail) = Some (Blk (b - 1))"
  shows "dll h p (map Blk [a..<b]) Tail"
  using assms
proof (induction "b - a" arbitrary: a p)
  case 0
  then show ?case by simp
next
  case (Suc k)
  show ?case
  proof (cases "Suc a = b")
    case True
    then show ?thesis using Suc.prems by (auto simp: upt_conv_Cons)
  next
    case False
    then have "dll h (Blk a) (map Blk [Suc a..<b]) Tail"
      using Suc.prems Suc.hyps(2) by (intro Suc.hyps(1)) auto
    then show ?thesis using Suc.prems by (simp add: upt_conv_Cons)
  qed
qed

lemma FreeKVCacheBlockQueue_init_repr:
  assumes "\<And>b. unlinked h b"
  shows "fq_repr (FreeKVCacheBlockQueue_init (map Blk [0..<n]) h) [0..<n]"
    "same_payload h (heap (FreeKVCacheBlockQueue_init (map Blk [0..<n]) h))"
proof -
  let ?q = "FreeKVCacheBlockQueue_init (map Blk [0..<n]) h"
  note sel = fold_link_block_sel [OF refl order_refl]
  show "same_payload h (heap ?q)"
    by (auto simp: FreeKVCacheBlockQueue_init_def same_payload_def Let_def sel last_map)
  show "fq_repr ?q [0..<n]"
  proof (cases "n = 0")
    case True
    then show ?thesis using assms
      by (auto simp: FreeKVCacheBlockQueue_init_def fq_repr_def Let_def unlinked_def
          new_KVCacheBlock_def)
  next
    case False
    then have "dll (heap ?q) Head (map Blk [0..<n]) Tail"
      by (intro dll_upt)
        (auto simp: FreeKVCacheBlockQueue_init_def Let_def sel last_map)
    then show ?thesis using assms False
      by (auto simp: FreeKVCacheBlockQueue_init_def fq_repr_def Let_def unlinked_def sel
          last_map new_KVCacheBlock_def)
  qed
qed

section \<open>The interface of the queue\<close>

text \<open>What the pool relies on: popping takes a prefix, removal works anywhere in the queue,
  appending adds at the end.\<close>

locale block_queue =
  fixes holds :: "'q \<Rightarrow> nat list \<Rightarrow> bool"
    and pop_n :: "int \<Rightarrow> 'q \<Rightarrow> (bref list \<times> 'q) res"
    and rem :: "bref \<Rightarrow> 'q \<Rightarrow> 'q res"
    and push_n :: "bref list \<Rightarrow> 'q \<Rightarrow> 'q res"
  assumes holds_distinct: "holds q xs \<Longrightarrow> distinct xs"
    and pop_n_prefix: "holds q (xs @ ys) \<Longrightarrow> \<exists>q'. pop_n (len xs) q = Inr (map Blk xs, q') \<and> holds q' ys"
    and rem_mem: "holds q xs \<Longrightarrow> b \<in> set xs \<Longrightarrow> \<exists>q'. rem (Blk b) q = Inr q' \<and> holds q' (remove1 b xs)"
    and push_n_end: "holds q xs \<Longrightarrow> distinct ys \<Longrightarrow> set xs \<inter> set ys = {} \<Longrightarrow>
      \<exists>q'. push_n (map Blk ys) q = Inr q' \<and> holds q' (xs @ ys)"
begin

lemma drain: "holds q xs \<Longrightarrow> \<exists>q'. pop_n (len xs) q = Inr (map Blk xs, q') \<and> holds q' []"
  using pop_n_prefix [of q xs "[]"] by simp

lemma remove_all:
  "holds q xs \<Longrightarrow> distinct bs \<Longrightarrow> set bs \<subseteq> set xs \<Longrightarrow>
     \<exists>q'. rfold rem (map Blk bs) q = Inr q' \<and> holds q' (filter (\<lambda>x. x \<notin> set bs) xs)"
proof (induction bs arbitrary: q xs)
  case Nil
  then show ?case by simp
next
  case (Cons b bs)
  obtain q1 where q1: "rem (Blk b) q = Inr q1" "holds q1 (remove1 b xs)"
    using rem_mem Cons.prems by fastforce
  have r: "remove1 b xs = filter (\<lambda>x. b \<noteq> x) xs"
    using holds_distinct [OF Cons.prems(1)]
    by (simp add: distinct_remove1_removeAll removeAll_filter_not_eq)
  have "set bs \<subseteq> set (remove1 b xs)" using Cons.prems by (auto simp: r)
  then obtain q2 where q2: "rfold rem (map Blk bs) q1 = Inr q2"
    "holds q2 (filter (\<lambda>x. x \<notin> set bs) (remove1 b xs))"
    using Cons.IH [OF q1(2)] Cons.prems by auto
  have "filter (\<lambda>x. x \<notin> set bs) (remove1 b xs) = filter (\<lambda>x. x \<notin> set (b # bs)) xs"
    unfolding r filter_filter by (rule filter_cong) auto
  then show ?case using q1 q2 by auto
qed

text \<open>Taking blocks out and putting them back makes them the last to be popped.\<close>

lemma recycle:
  assumes "holds q xs" "distinct bs" "set bs \<subseteq> set xs"
  shows "\<exists>q1 q2 q3. rfold rem (map Blk bs) q = Inr q1 \<and> push_n (map Blk bs) q1 = Inr q2 \<and>
    pop_n (len xs) q2 = Inr (map Blk (filter (\<lambda>x. x \<notin> set bs) xs @ bs), q3) \<and> holds q3 []"
proof -
  let ?ys = "filter (\<lambda>x. x \<notin> set bs) xs"
  obtain q1 where q1: "rfold rem (map Blk bs) q = Inr q1" "holds q1 ?ys"
    using remove_all [OF assms] by blast
  obtain q2 where q2: "push_n (map Blk bs) q1 = Inr q2" "holds q2 (?ys @ bs)"
    using push_n_end [OF q1(2) assms(2)] by auto
  have "length xs = length (?ys @ bs)"
  proof -
    have "distinct (?ys @ bs)" using holds_distinct [OF q2(2)] .
    moreover have "set (?ys @ bs) = set xs" using assms(3) by auto
    ultimately show ?thesis using holds_distinct [OF assms(1)] by (metis distinct_card)
  qed
  then show ?thesis using q1(1) q2(1) drain [OF q2(2)] by simp
qed

end

interpretation lq: block_queue "\<lambda>q xs. fq_repr q xs \<and> same_payload h (heap q)"
    popleft_n fq_remove append_n
proof unfold_locales
  fix q xs
  assume "fq_repr q xs \<and> same_payload h (heap q)"
  then show "distinct xs" by (simp add: fq_repr_def)
next
  fix q xs ys
  assume "fq_repr q (xs @ ys) \<and> same_payload h (heap q)"
  then show "\<exists>q'. popleft_n (len xs) q = Inr (map Blk xs, q') \<and> fq_repr q' ys \<and> same_payload h (heap q')"
    using popleft_n_prefix same_payload_trans by blast
next
  fix q xs b
  assume "fq_repr q xs \<and> same_payload h (heap q)" "b \<in> set xs"
  then show "\<exists>q'. fq_remove (Blk b) q = Inr q' \<and> fq_repr q' (remove1 b xs) \<and> same_payload h (heap q')"
    using fq_remove_mem same_payload_trans by blast
next
  fix q xs ys
  assume "fq_repr q xs \<and> same_payload h (heap q)" "distinct ys" "set xs \<inter> set ys = {}"
  then show "\<exists>q'. append_n (map Blk ys) q = Inr q' \<and> fq_repr q' (xs @ ys) \<and> same_payload h (heap q')"
    using append_n_append same_payload_trans by blast
qed

section \<open>Properties\<close>

definition demo_queue :: "nat \<Rightarrow> free_queue" where
  "demo_queue n = FreeKVCacheBlockQueue_init (map Blk [0..<n]) (\<lambda>_. new_KVCacheBlock 0)"

lemma demo_queue_repr: "fq_repr (demo_queue n) [0..<n]"
  unfolding demo_queue_def
  by (rule FreeKVCacheBlockQueue_init_repr) (simp add: unlinked_def new_KVCacheBlock_def)

text \<open>C17: the free queue is least-recently-used.  Removing any blocks of the queue from
  wherever they are and appending them again makes a later pop of the whole queue return
  the untouched blocks in their order first and the recycled ones last, and no block's
  identity, count or hash is disturbed.\<close>

theorem free_queue_lru_order:
  assumes "fq_repr q xs" "distinct bs" "set bs \<subseteq> set xs"
  shows "\<exists>q1 q2 q3. rfold fq_remove (map Blk bs) q = Inr q1 \<and> append_n (map Blk bs) q1 = Inr q2 \<and>
    popleft_n (len xs) q2 = Inr (map Blk (filter (\<lambda>x. x \<notin> set bs) xs @ bs), q3) \<and>
    fq_repr q3 [] \<and> same_payload (heap q) (heap q3)"
  using lq.recycle [of q xs "heap q" bs] assms by auto

theorem free_queue_lru_order_witness:
  "\<exists>q1 q2 q3. rfold fq_remove (map Blk [2, 0]) (demo_queue 4) = Inr q1 \<and>
    append_n (map Blk [2, 0]) q1 = Inr q2 \<and>
    popleft_n 4 q2 = Inr (map Blk [1, 3, 2, 0], q3) \<and> fq_repr q3 []"
  using free_queue_lru_order [OF demo_queue_repr [of 4], of "[2, 0]"]
  by (simp add: upt_rec numeral_3_eq_3) blast

text \<open>C18: \<open>append_n\<close>, which relinks the tail once, leaves the same heap and counter as
  appending the blocks one by one.\<close>

theorem append_n_is_repeated_append:
  assumes "fq_repr q xs"
  shows "append_n (map Blk ys) q = rfold fq_append (map Blk ys) q"
  using append_n_eq_appends [of "map Blk ys" q] fq_repr_prev_tail [OF assms] by auto

theorem append_n_is_repeated_append_witness:
  "append_n (map Blk [7, 5]) (demo_queue 2) = rfold fq_append (map Blk [7, 5]) (demo_queue 2)"
  using append_n_is_repeated_append [OF demo_queue_repr [of 2], of "[7, 5]"] .

end
