(* ===== verification/Request.thy ===== *)
theory Request
  imports Prelude FreeQueue "HOL-Library.List_Lexorder" "HOL-Library.Char_ord"
begin

text \<open>
  \<^verbatim>\<open>vllm/v1/request.py\<close> with the data it is built from: sampling and pooling
  parameters, multi-modal placeholders (\<^verbatim>\<open>vllm/multimodal/inputs.py\<close>) and the
  request status automaton's states.  A request is a record; its methods return the
  updated record.  The block hasher a request carries is an argument of the operations
  that call it.  Arrival times and timestamps are rationals.  Requests are compared by
  \<open>__lt__\<close>, shown here to be a strict linear order.
\<close>

section \<open>Status\<close>

datatype RequestStatus =
    WAITING | WAITING_FOR_STRUCTURED_OUTPUT_GRAMMAR | WAITING_FOR_REMOTE_KVS
  | WAITING_FOR_STREAMING_REQ | RUNNING | PREEMPTED
  | FINISHED_STOPPED | FINISHED_LENGTH_CAPPED | FINISHED_ABORTED
  | FINISHED_IGNORED | FINISHED_ERROR | FINISHED_REPETITION

fun status_value :: "RequestStatus \<Rightarrow> nat" where
  "status_value WAITING = 1"
| "status_value WAITING_FOR_STRUCTURED_OUTPUT_GRAMMAR = 2"
| "status_value WAITING_FOR_REMOTE_KVS = 3"
| "status_value WAITING_FOR_STREAMING_REQ = 4"
| "status_value RUNNING = 5"
| "status_value PREEMPTED = 6"
| "status_value FINISHED_STOPPED = 7"
| "status_value FINISHED_LENGTH_CAPPED = 8"
| "status_value FINISHED_ABORTED = 9"
| "status_value FINISHED_IGNORED = 10"
| "status_value FINISHED_ERROR = 11"
| "status_value FINISHED_REPETITION = 12"

text \<open>\<open>RequestStatus\<close> is an \<open>IntEnum\<close>: its members compare by their numbers.\<close>

lemma status_value_inject: "status_value a = status_value b \<longleftrightarrow> a = b"
  by (cases a; cases b) simp_all

instantiation RequestStatus :: linorder
begin

definition less_eq_RequestStatus :: "RequestStatus \<Rightarrow> RequestStatus \<Rightarrow> bool" where
  "less_eq_RequestStatus a b = (status_value a \<le> status_value b)"

definition less_RequestStatus :: "RequestStatus \<Rightarrow> RequestStatus \<Rightarrow> bool" where
  "less_RequestStatus a b = (status_value a < status_value b)"

instance
  by standard
    (auto simp: less_eq_RequestStatus_def less_RequestStatus_def status_value_inject)

end

definition status_is_finished :: "RequestStatus \<Rightarrow> bool" where
  "status_is_finished s = (s > PREEMPTED)"

datatype FinishReason = FR_STOP | FR_LENGTH | FR_ABORT | FR_ERROR | FR_REPETITION

fun get_finished_reason :: "RequestStatus \<Rightarrow> FinishReason option" where
  "get_finished_reason FINISHED_STOPPED = Some FR_STOP"
| "get_finished_reason FINISHED_LENGTH_CAPPED = Some FR_LENGTH"
| "get_finished_reason FINISHED_ABORTED = Some FR_ABORT"
| "get_finished_reason FINISHED_IGNORED = Some FR_LENGTH"
| "get_finished_reason FINISHED_ERROR = Some FR_ERROR"
| "get_finished_reason WAITING_FOR_STREAMING_REQ = Some FR_STOP"
| "get_finished_reason FINISHED_REPETITION = Some FR_REPETITION"
| "get_finished_reason _ = None"

section \<open>Parameters and multi-modal features\<close>

record RepetitionDetectionParams =
  max_pattern_size :: int
  min_pattern_size :: int
  min_count :: int

record SamplingParams =
  sp_max_tokens :: "int option"
  min_tokens :: int
  eos_token_id :: "int option"
  stop_token_ids :: "int list"
  repetition_detection :: "RepetitionDetectionParams option"
  sp_skip_reading_prefix_cache :: "bool option"
  structured_outputs :: bool

record PoolingParams =
  pp_skip_reading_prefix_cache :: "bool option"

record PlaceholderRange =
  offset :: int
  pr_length :: int
  is_embed :: "bool list option"

record MultiModalFeatureSpec =
  mm_identifier :: string
  mm_position :: PlaceholderRange

record LoRARequest =
  lora_name :: string
  adapter_id :: int

definition embeds_cumsum :: "PlaceholderRange \<Rightarrow> int list option" where
  "embeds_cumsum p =
     map_option (\<lambda>m. map (\<lambda>i. len (filter id (take (Suc i) m))) [0..<length m]) (is_embed p)"

definition get_num_embeds :: "PlaceholderRange \<Rightarrow> int" where
  "get_num_embeds p =
     (case embeds_cumsum p of
        None \<Rightarrow> pr_length p
      | Some c \<Rightarrow> (if c \<noteq> [] then last c else 0))"

definition get_embeds_indices_in_range :: "PlaceholderRange \<Rightarrow> int \<Rightarrow> int \<Rightarrow> (int \<times> int) res" where
  "get_embeds_indices_in_range p start_idx end_idx =
     (case embeds_cumsum p of
        None \<Rightarrow> Inr (start_idx, end_idx)
      | Some c \<Rightarrow>
          rbind (if start_idx > 0 then py_get c (start_idx - 1) else Inr 0) (\<lambda>s.
          rbind (if end_idx > 0 then py_get c (end_idx - 1) else Inr 0) (\<lambda>e.
          Inr (s, e))))"

section \<open>Requests\<close>

datatype stop_reason = StopToken int | StopText string

text \<open>\<open>py_id\<close> is the object's identity, \<open>id(self)\<close>; prompt embeddings are rows of numbers.\<close>

record StreamingUpdate =
  su_mm_features :: "MultiModalFeatureSpec list"
  su_prompt_token_ids :: "int list option"
  su_max_tokens :: int
  su_arrival_time :: rat
  su_sampling_params :: "SamplingParams option"

datatype EngineCoreEventType = EV_QUEUED | EV_SCHEDULED | EV_PREEMPTED

record PrefillStats =
  ps_num_prompt_tokens :: int
  ps_num_computed_tokens :: int
  ps_num_cached_tokens :: int
  ps_num_local_cached_tokens :: int
  ps_num_external_cached_tokens :: int

definition new_PrefillStats :: PrefillStats where
  "new_PrefillStats = \<lparr>ps_num_prompt_tokens = 0, ps_num_computed_tokens = 0, ps_num_cached_tokens = 0,
     ps_num_local_cached_tokens = 0, ps_num_external_cached_tokens = 0\<rparr>"

definition prefill_stats_set :: "int \<Rightarrow> int \<Rightarrow> int \<Rightarrow> PrefillStats res" where
  "prefill_stats_set num_prompt num_local num_external =
     py_assert (num_local + num_external \<le> num_prompt)
       (Inr \<lparr>ps_num_prompt_tokens = num_prompt,
             ps_num_computed_tokens = num_prompt - (num_local + num_external),
             ps_num_cached_tokens = num_local + num_external,
             ps_num_local_cached_tokens = num_local, ps_num_external_cached_tokens = num_external\<rparr>)"

record Request =
  py_id :: int
  request_id :: string
  client_index :: int
  priority :: int
  arrival_time :: rat
  sampling_params :: "SamplingParams option"
  pooling_params :: "PoolingParams option"
  lora_request :: "LoRARequest option"
  cache_salt :: "string option"
  use_structured_output :: bool
  status :: RequestStatus
  req_events :: "(EngineCoreEventType \<times> rat) list"
  stop_reason :: "stop_reason option"
  max_tokens :: int
  prompt_token_ids :: "int list option"
  prompt_embeds :: "int list list option"
  prompt_embeds_per_block_hashes :: "(int \<times> int) \<Rightarrow> bytes option"
  num_prompt_tokens :: int
  output_token_ids :: "int list"
  all_token_ids :: "int list"
  num_output_placeholders :: int
  discard_latest_async_tokens :: bool
  spec_token_ids :: "int list"
  num_computed_tokens :: int
  mm_features :: "MultiModalFeatureSpec list"
  is_prefill_chunk :: bool
  num_nans_in_logits :: int
  num_preemptions :: int
  prefill_stats :: "PrefillStats option"
  block_hashes :: "bytes list"
  skip_reading_prefix_cache :: bool
  resumable :: bool
  streaming_queue :: "StreamingUpdate option list option"

type_synonym block_hasher = "Request \<Rightarrow> (bytes list \<times> Request) res"

definition length_from_prompt_token_ids_or_embeds ::
    "int list option \<Rightarrow> int list list option \<Rightarrow> int res" where
  "length_from_prompt_token_ids_or_embeds ids embeds =
     (case ids of
        None \<Rightarrow> (case embeds of None \<Rightarrow> Inl ValueError | Some e \<Rightarrow> Inr (len e))
      | Some t \<Rightarrow> (case embeds of
            None \<Rightarrow> Inr (len t)
          | Some e \<Rightarrow> (if len e \<noteq> len t then Inl ValueError else Inr (len t))))"

definition update_block_hashes :: "block_hasher option \<Rightarrow> Request \<Rightarrow> Request res" where
  "update_block_hashes bh r =
     (case bh of
        None \<Rightarrow> Inr r
      | Some f \<Rightarrow> rbind (f r) (\<lambda>(new, r1). Inr (r1\<lparr>block_hashes := block_hashes r1 @ new\<rparr>)))"

definition get_skip_reading_prefix_cache :: "SamplingParams option \<Rightarrow> PoolingParams option \<Rightarrow> bool" where
  "get_skip_reading_prefix_cache sp pp =
     (case Option.bind sp sp_skip_reading_prefix_cache of
        Some b \<Rightarrow> b
      | None \<Rightarrow> (case Option.bind pp pp_skip_reading_prefix_cache of Some b \<Rightarrow> b | None \<Rightarrow> False))"

definition Request_init ::
    "int \<Rightarrow> string \<Rightarrow> int list option \<Rightarrow> SamplingParams option \<Rightarrow> PoolingParams option \<Rightarrow> int \<Rightarrow> rat
     \<Rightarrow> int list list option \<Rightarrow> MultiModalFeatureSpec list \<Rightarrow> LoRARequest option
     \<Rightarrow> string option \<Rightarrow> int \<Rightarrow> block_hasher option \<Rightarrow> bool \<Rightarrow> Request res" where
  "Request_init oid rid ids sp pp client arrival embeds mms lora salt prio bh resum =
     rbind (case pp of
              Some _ \<Rightarrow> Inr (1, WAITING)
            | None \<Rightarrow> (case sp of
                Some s \<Rightarrow> (case sp_max_tokens s of
                    None \<Rightarrow> Inl AssertionError
                  | Some m \<Rightarrow> Inr (m, if structured_outputs s
                                      then WAITING_FOR_STRUCTURED_OUTPUT_GRAMMAR else WAITING))
              | None \<Rightarrow> Inl ValueError))
     (\<lambda>(mt, st).
     rbind (length_from_prompt_token_ids_or_embeds ids embeds) (\<lambda>n.
     update_block_hashes bh
       \<lparr>py_id = oid, request_id = rid, client_index = client, priority = prio, arrival_time = arrival,
        sampling_params = sp, pooling_params = pp, lora_request = lora, cache_salt = salt,
        use_structured_output = (case sp of None \<Rightarrow> False | Some s \<Rightarrow> structured_outputs s),
        status = st, req_events = [], stop_reason = None, max_tokens = mt,
        prompt_token_ids = ids, prompt_embeds = embeds,
        prompt_embeds_per_block_hashes = Map.empty,
        num_prompt_tokens = n, output_token_ids = [],
        all_token_ids = (case ids of Some t \<Rightarrow> t | None \<Rightarrow> py_repeat 0 n),
        num_output_placeholders = 0, discard_latest_async_tokens = False,
        spec_token_ids = [], num_computed_tokens = 0, mm_features = mms,
        is_prefill_chunk = False, num_nans_in_logits = 0, num_preemptions = 0,
        prefill_stats = Some new_PrefillStats, block_hashes = [],
        skip_reading_prefix_cache = get_skip_reading_prefix_cache sp pp,
        resumable = resum, streaming_queue = None\<rparr>))"

definition append_output_token_ids :: "block_hasher option \<Rightarrow> int list \<Rightarrow> Request \<Rightarrow> Request res" where
  "append_output_token_ids bh toks r =
     update_block_hashes bh
       (r\<lparr>output_token_ids := output_token_ids r @ toks,
          all_token_ids := all_token_ids r @ toks\<rparr>)"

definition num_tokens :: "Request \<Rightarrow> int" where
  "num_tokens r = len (all_token_ids r)"

definition num_tokens_with_spec :: "Request \<Rightarrow> int" where
  "num_tokens_with_spec r = len (all_token_ids r) + len (spec_token_ids r)"

definition num_output_tokens :: "Request \<Rightarrow> int" where
  "num_output_tokens r = len (output_token_ids r)"

definition num_encoder_inputs :: "Request \<Rightarrow> int" where
  "num_encoder_inputs r = len (mm_features r)"

definition has_encoder_inputs :: "Request \<Rightarrow> bool" where
  "has_encoder_inputs r = (num_encoder_inputs r > 0)"

definition is_finished :: "Request \<Rightarrow> bool" where
  "is_finished r = status_is_finished (status r)"

definition get_num_encoder_embeds :: "int \<Rightarrow> Request \<Rightarrow> int res" where
  "get_num_encoder_embeds input_id r =
     py_assert (input_id < len (mm_features r))
       (rbind (py_get (mm_features r) input_id) (\<lambda>f. Inr (get_num_embeds (mm_position f))))"

definition record_event :: "EngineCoreEventType \<Rightarrow> rat \<Rightarrow> Request \<Rightarrow> Request" where
  "record_event e t r = r\<lparr>req_events := req_events r @ [(e, t)]\<rparr>"

definition take_request_events :: "Request \<Rightarrow> (EngineCoreEventType \<times> rat) list option \<times> Request" where
  "take_request_events r = (if req_events r = [] then (None, r) else (Some (req_events r), r\<lparr>req_events := []\<rparr>))"

definition take_prefill_stats :: "Request \<Rightarrow> PrefillStats option \<times> Request" where
  "take_prefill_stats r = (prefill_stats r, r\<lparr>prefill_stats := None\<rparr>)"

definition StreamingUpdate_from_request :: "Request \<Rightarrow> StreamingUpdate option" where
  "StreamingUpdate_from_request r =
     (if \<not> resumable r then None
      else Some \<lparr>su_mm_features = mm_features r, su_prompt_token_ids = prompt_token_ids r,
                 su_max_tokens = max_tokens r, su_arrival_time = arrival_time r,
                 su_sampling_params = sampling_params r\<rparr>)"

definition request_lt :: "Request \<Rightarrow> Request \<Rightarrow> bool" where
  "request_lt r s =
     (if priority r \<noteq> priority s then priority r < priority s
      else if arrival_time r \<noteq> arrival_time s then arrival_time r < arrival_time s
      else if request_id r \<noteq> request_id s then request_id r < request_id s
      else py_id r < py_id s)"

text \<open>A plain text request, for concrete examples.\<close>

definition text_request :: "string \<Rightarrow> int list \<Rightarrow> Request" where
  "text_request rid toks =
     \<lparr>py_id = 0, request_id = rid, client_index = 0, priority = 0, arrival_time = 0,
      sampling_params = None, pooling_params = None, lora_request = None, cache_salt = None,
      use_structured_output = False, status = WAITING, req_events = [], stop_reason = None, max_tokens = 16,
      prompt_token_ids = Some toks, prompt_embeds = None,
      prompt_embeds_per_block_hashes = Map.empty,
      num_prompt_tokens = len toks, output_token_ids = [], all_token_ids = toks,
      num_output_placeholders = 0, discard_latest_async_tokens = False,
      spec_token_ids = [], num_computed_tokens = 0, mm_features = [],
      is_prefill_chunk = False, num_nans_in_logits = 0, num_preemptions = 0, prefill_stats = None,
      block_hashes = [], skip_reading_prefix_cache = False, resumable = False, streaming_queue = None\<rparr>"

section \<open>Lemmas\<close>

lemma status_finished_iff:
  "status_is_finished s \<longleftrightarrow>
     s \<notin> {WAITING, WAITING_FOR_STRUCTURED_OUTPUT_GRAMMAR, WAITING_FOR_REMOTE_KVS,
          WAITING_FOR_STREAMING_REQ, RUNNING, PREEMPTED}"
  by (cases s) (simp_all add: status_is_finished_def less_RequestStatus_def)

lemma finished_has_reason: "status_is_finished s \<Longrightarrow> get_finished_reason s \<noteq> None"
  by (cases s) (simp_all add: status_is_finished_def less_RequestStatus_def)

lemma request_lt_irrefl: "\<not> request_lt r r"
  by (simp add: request_lt_def)

lemma request_lt_trans: "request_lt r s \<Longrightarrow> request_lt s t \<Longrightarrow> request_lt r t"
  by (auto simp: request_lt_def split: if_splits)

lemma request_lt_total: "py_id r \<noteq> py_id s \<Longrightarrow> request_lt r s \<or> request_lt s r"
  by (auto simp: request_lt_def)

end
