(* ===== verification/BlockHashing.thy ===== *)
theory BlockHashing
  imports Request
begin

text \<open>
  The block hashing half of \<^verbatim>\<open>vllm/v1/core/kv_cache_utils.py\<close>: packing a hash with its
  KV cache group, the extra keys of a block, the chained hash of a block, the request
  block hasher and the change of hash granularity.  The hash functions are parameters
  (record \<open>hash_cfg\<close>).  The lemmas show that packing is invertible, that the hasher's
  moving multi-modal index yields exactly the features that overlap each block, that
  hashing a request token by token gives the hashes of hashing it at once, and that,
  without collisions among the hashed inputs, equal hashes mean equal prefixes.
\<close>

unbundle bit_operations_syntax

section \<open>Keys with a group id\<close>

definition to_bytes4 :: "int \<Rightarrow> bytes res" where
  "to_bytes4 g =
     (if 0 \<le> g \<and> g < 2 ^ 32
      then Inr [word_of_int (g div 2 ^ 24), word_of_int (g div 2 ^ 16),
                word_of_int (g div 2 ^ 8), word_of_int g]
      else Inl OverflowError)"

definition from_bytes_big :: "bytes \<Rightarrow> int" where
  "from_bytes_big bs = foldl (\<lambda>a b. a * 256 + uint b) 0 bs"

definition make_block_hash_with_group_id :: "bytes \<Rightarrow> int \<Rightarrow> bytes res" where
  "make_block_hash_with_group_id h g = rbind (to_bytes4 g) (\<lambda>b. Inr (h @ b))"

definition get_block_hash :: "bytes \<Rightarrow> bytes" where
  "get_block_hash key = py_upto key (-4)"

definition get_group_id :: "bytes \<Rightarrow> int" where
  "get_group_id key = from_bytes_big (py_from key (-4))"

datatype ExternalBlockHash = HashBytes bytes | HashInt int

section \<open>Extra keys and the hash of a block\<close>

datatype extra_key = KStr string | KMM string int | KBytes bytes

datatype hash_input =
    HashSeed string
  | HashBlock bytes "int list" "extra_key list option"

text \<open>What hashing relies on: the caching hash function, the seed of the first block of a
  chain, SHA-256 of a tensor slice, and the environment variable for integer hashes.\<close>

record hash_cfg =
  caching_hash_fn :: "hash_input \<Rightarrow> bytes"
  NONE_HASH :: bytes
  sha256_tensor :: "int list list \<Rightarrow> bytes"
  VLLM_KV_EVENTS_USE_INT_BLOCK_HASHES :: bool

definition maybe_convert_block_hash :: "hash_cfg \<Rightarrow> bytes \<Rightarrow> ExternalBlockHash" where
  "maybe_convert_block_hash cfg h =
     (if \<not> VLLM_KV_EVENTS_USE_INT_BLOCK_HASHES cfg then HashBytes h
      else HashInt (from_bytes_big h AND (push_bit 64 1 - 1)))"

definition init_none_hash :: "string option \<Rightarrow> bytes \<Rightarrow> hash_cfg \<Rightarrow> hash_cfg" where
  "init_none_hash hash_seed urandom32 cfg =
     cfg\<lparr>NONE_HASH := (case hash_seed of
        None \<Rightarrow> urandom32
      | Some s \<Rightarrow> caching_hash_fn cfg (HashSeed s))\<rparr>"

definition need_extra_keys :: "Request \<Rightarrow> bool" where
  "need_extra_keys r \<longleftrightarrow>
     mm_features r \<noteq> [] \<or> lora_request r \<noteq> None \<or> cache_salt r \<noteq> None"

text \<open>The loop over the multi-modal features from the current index on; \<open>idx\<close> is the
  code's \<open>curr_mm_idx\<close> and the list is what is left of the features at it.\<close>

fun gen_mm_loop :: "MultiModalFeatureSpec list \<Rightarrow> int \<Rightarrow> int \<Rightarrow> int \<Rightarrow> extra_key list
    \<Rightarrow> extra_key list \<times> int" where
  "gen_mm_loop [] idx start_token end_token keys = (keys, idx)"
| "gen_mm_loop (f # fs) idx start_token end_token keys =
     (let off = offset (mm_position f); ln = pr_length (mm_position f) in
      if end_token > off then
        if start_token \<ge> off + ln then
          gen_mm_loop fs (idx + 1) start_token end_token keys
        else
          let keys' = keys @ [KMM (mm_identifier f) (off - start_token)] in
          if end_token \<ge> off + ln then
            gen_mm_loop fs (idx + 1) start_token end_token keys'
          else (keys', idx)
      else (keys, idx))"

definition gen_mm_extra_hash_keys :: "Request \<Rightarrow> int \<Rightarrow> int \<Rightarrow> int \<Rightarrow> (extra_key list \<times> int) res" where
  "gen_mm_extra_hash_keys r start_token end_token start_mm =
     (if mm_features r = [] then Inr ([], start_mm)
      else let last_pos = mm_position (last (mm_features r)) in
        if offset last_pos + pr_length last_pos \<le> start_token then Inr ([], start_mm)
        else if start_mm < 0 \<and> \<not> - start_mm \<le> len (mm_features r) then Inl AssertionError
        else let i = (if start_mm < 0 then len (mm_features r) + start_mm else start_mm)
             in Inr (gen_mm_loop (drop (nat i) (mm_features r)) i start_token end_token []))"

definition gen_lora_extra_hash_keys :: "Request \<Rightarrow> extra_key list" where
  "gen_lora_extra_hash_keys r =
     (case lora_request r of None \<Rightarrow> [] | Some l \<Rightarrow> [KStr (lora_name l)])"

definition gen_prompt_embeds_extra_hash_keys ::
    "hash_cfg \<Rightarrow> Request \<Rightarrow> int \<Rightarrow> int \<Rightarrow> extra_key list \<times> Request" where
  "gen_prompt_embeds_extra_hash_keys cfg r s e =
     (case prompt_embeds r of
        None \<Rightarrow> ([], r)
      | Some em \<Rightarrow>
          (case prompt_embeds_per_block_hashes r (s, e) of
             Some h \<Rightarrow> ([KBytes h], r)
           | None \<Rightarrow>
               let h = sha256_tensor cfg (py_slice em s e)
               in ([KBytes h],
                   r\<lparr>prompt_embeds_per_block_hashes :=
                       (prompt_embeds_per_block_hashes r)((s, e) \<mapsto> h)\<rparr>)))"

definition generate_block_hash_extra_keys ::
    "hash_cfg \<Rightarrow> Request \<Rightarrow> int \<Rightarrow> int \<Rightarrow> int \<Rightarrow> (extra_key list option \<times> int \<times> Request) res" where
  "generate_block_hash_extra_keys cfg r s e start_mm =
     rbind (gen_mm_extra_hash_keys r s e start_mm) (\<lambda>(mm_keys, new_mm).
       let lora_keys = gen_lora_extra_hash_keys r;
           salt_keys = (case cache_salt r of
               Some c \<Rightarrow> (if s = 0 \<and> c \<noteq> [] then [KStr c] else [])
             | None \<Rightarrow> []);
           (embeds_keys, r') = gen_prompt_embeds_extra_hash_keys cfg r s e;
           keys = lora_keys @ mm_keys @ salt_keys @ embeds_keys
       in Inr (if keys = [] then None else Some keys, new_mm, r'))"

definition hash_block_tokens ::
    "hash_cfg \<Rightarrow> bytes option \<Rightarrow> int list \<Rightarrow> extra_key list option \<Rightarrow> bytes" where
  "hash_block_tokens cfg parent toks keys =
     (let p = (case parent of None \<Rightarrow> NONE_HASH cfg
               | Some h \<Rightarrow> (if h = [] then NONE_HASH cfg else h))
      in caching_hash_fn cfg (HashBlock p toks keys))"

section \<open>The request block hasher\<close>

fun hasher_loop ::
    "nat \<Rightarrow> hash_cfg \<Rightarrow> int \<Rightarrow> int \<Rightarrow> Request \<Rightarrow> int \<Rightarrow> int \<Rightarrow> bytes option \<Rightarrow> bytes list
     \<Rightarrow> (bytes list \<times> Request) res" where
  "hasher_loop 0 cfg bs n r start_token mm prev new = Inl Diverge"
| "hasher_loop (Suc fuel) cfg bs n r start_token mm prev new =
     (let end_token = start_token + bs in
      if end_token > n then Inr (new, r)
      else rbind (generate_block_hash_extra_keys cfg r start_token end_token mm)
        (\<lambda>(keys, mm', r').
           let h = hash_block_tokens cfg prev (py_slice (all_token_ids r') start_token end_token) keys
           in hasher_loop fuel cfg bs n r' end_token mm' (Some h) (new @ [h])))"

definition request_block_hasher :: "hash_cfg \<Rightarrow> int \<Rightarrow> Request \<Rightarrow> (bytes list \<times> Request) res" where
  "request_block_hasher cfg bs r =
     (let start_token = len (block_hashes r) * bs; n = num_tokens r in
      if start_token + bs > n then Inr ([], r)
      else hasher_loop (Suc (nat n)) cfg bs n r start_token
             (if start_token > 0 then -1 else 0)
             (if block_hashes r \<noteq> [] then Some (last (block_hashes r)) else None) [])"

section \<open>Hashes at another granularity\<close>

record BlockHashListWithBlockSize =
  bl_block_hashes :: "bytes list"
  scale_factor :: int

definition BlockHashListWithBlockSize_init ::
    "bytes list \<Rightarrow> int \<Rightarrow> int \<Rightarrow> BlockHashListWithBlockSize res" where
  "BlockHashListWithBlockSize_init hs hash_bs target_bs =
     py_assert (target_bs mod hash_bs = 0)
       (Inr \<lparr>bl_block_hashes = hs, scale_factor = target_bs div hash_bs\<rparr>)"

definition bl_len :: "BlockHashListWithBlockSize \<Rightarrow> int" where
  "bl_len b = len (bl_block_hashes b) div scale_factor b"

definition get_value_at :: "BlockHashListWithBlockSize \<Rightarrow> int \<Rightarrow> bytes" where
  "get_value_at b idx =
     (let base = idx * scale_factor b; fin = base + scale_factor b
      in concat (py_slice (bl_block_hashes b) base fin))"

text \<open>\<open>__getitem__\<close> on a slice \<open>[start:]\<close>, and the iteration over the whole list.\<close>

definition bl_from :: "BlockHashListWithBlockSize \<Rightarrow> int \<Rightarrow> bytes list" where
  "bl_from b start = map (get_value_at b) [slice_bound (bl_len b) start .. bl_len b - 1]"

definition bl_iter :: "BlockHashListWithBlockSize \<Rightarrow> bytes list" where
  "bl_iter b = map (get_value_at b) [0 .. bl_len b - 1]"

text \<open>The type \<open>BlockHashList\<close>: plain hashes or regrouped ones.\<close>

datatype BlockHashList = PlainHashes "bytes list" | ScaledHashes BlockHashListWithBlockSize

fun bhl_len :: "BlockHashList \<Rightarrow> int" where
  "bhl_len (PlainHashes hs) = len hs"
| "bhl_len (ScaledHashes b) = bl_len b"

fun bhl_get :: "BlockHashList \<Rightarrow> int \<Rightarrow> bytes res" where
  "bhl_get (PlainHashes hs) i = py_get hs i"
| "bhl_get (ScaledHashes b) i = Inr (get_value_at b i)"

fun bhl_from :: "BlockHashList \<Rightarrow> int \<Rightarrow> bytes list" where
  "bhl_from (PlainHashes hs) i = py_from hs i"
| "bhl_from (ScaledHashes b) i = bl_from b i"

fun bhl_iter :: "BlockHashList \<Rightarrow> bytes list" where
  "bhl_iter (PlainHashes hs) = hs"
| "bhl_iter (ScaledHashes b) = bl_iter b"

section \<open>Packing is invertible\<close>

lemma from_bytes_big_to_bytes4:
  "to_bytes4 g = Inr b \<Longrightarrow> from_bytes_big b = g \<and> length b = 4"
proof -
  assume a: "to_bytes4 g = Inr b"
  then have g: "0 \<le> g" "g < 2 ^ 32" by (auto simp: to_bytes4_def split: if_splits)
  have b: "b = [word_of_int (g div 2 ^ 24), word_of_int (g div 2 ^ 16),
      word_of_int (g div 2 ^ 8), word_of_int g]"
    using a g by (simp add: to_bytes4_def)
  have u: "uint (word_of_int x :: 8 word) = x mod 256" for x
    by (simp add: uint_word_of_int take_bit_eq_mod)
  have "from_bytes_big b =
      (((g div 2 ^ 24) mod 256 * 256 + (g div 2 ^ 16) mod 256) * 256 +
        (g div 2 ^ 8) mod 256) * 256 + g mod 256"
    by (simp add: from_bytes_big_def b u)
  also have "\<dots> = g"
  proof -
    have top: "(g div 2 ^ 24) mod 256 = g div 2 ^ 24" using g by simp
    have join: "(x div 256) * 256 + x mod 256 = x" for x :: int by simp
    have d1: "g div 2 ^ 24 = (g div 2 ^ 16) div 256"
      and d2: "g div 2 ^ 16 = (g div 2 ^ 8) div 256"
      and d3: "g div 2 ^ 8 = g div 256"
      by (simp_all add: div_mult2_eq [symmetric] zdiv_zmult2_eq [symmetric])
    have "(g div 2 ^ 24) * 256 + (g div 2 ^ 16) mod 256 = g div 2 ^ 16"
      unfolding d1 by (rule join)
    moreover have "(g div 2 ^ 16) * 256 + (g div 2 ^ 8) mod 256 = g div 2 ^ 8"
      unfolding d2 by (rule join)
    moreover have "(g div 2 ^ 8) * 256 + g mod 256 = g"
      unfolding d3 by (rule join)
    ultimately show ?thesis by (simp only: top)
  qed
  finally show ?thesis by (simp add: b)
qed

lemma py_upto_neg: "0 < k \<Longrightarrow> length ys = nat k \<Longrightarrow> py_upto (xs @ ys) (- k) = xs"
  by (simp add: py_upto_def slice_bound_def)

lemma py_from_neg: "0 < k \<Longrightarrow> length ys = nat k \<Longrightarrow> py_from (xs @ ys) (- k) = ys"
  by (simp add: py_from_def slice_bound_def)

lemma unpack_key:
  assumes "make_block_hash_with_group_id h g = Inr k"
  shows "get_block_hash k = h" "get_group_id k = g"
proof -
  obtain b where b: "to_bytes4 g = Inr b" "k = h @ b"
    using assms by (auto simp: make_block_hash_with_group_id_def rbind_eq_Inr)
  note l = from_bytes_big_to_bytes4 [OF b(1)]
  show "get_block_hash k = h" using l by (simp add: get_block_hash_def b(2) py_upto_neg)
  show "get_group_id k = g" using l by (simp add: get_group_id_def b(2) py_from_neg)
qed

lemma make_key_ok:
  "0 \<le> g \<Longrightarrow> g < 2 ^ 32 \<Longrightarrow> \<exists>k. make_block_hash_with_group_id h g = Inr k"
  by (simp add: make_block_hash_with_group_id_def to_bytes4_def)

lemma make_key_inject:
  assumes "make_block_hash_with_group_id h g = Inr k" "make_block_hash_with_group_id h' g' = Inr k"
  shows "h = h'" "g = g'"
  using unpack_key [OF assms(1)] unpack_key [OF assms(2)] by simp_all

lemma from_bytes_big_nonneg: "0 \<le> from_bytes_big bs"
proof -
  have "0 \<le> a \<Longrightarrow> 0 \<le> foldl (\<lambda>a b. a * 256 + uint (b :: 8 word)) a bs" for a
    by (induction bs arbitrary: a) simp_all
  then show ?thesis by (simp add: from_bytes_big_def)
qed

lemma maybe_convert_block_hash_int:
  "VLLM_KV_EVENTS_USE_INT_BLOCK_HASHES cfg \<Longrightarrow>
     maybe_convert_block_hash cfg h = HashInt (from_bytes_big h mod 2 ^ 64)"
proof -
  assume c: "VLLM_KV_EVENTS_USE_INT_BLOCK_HASHES cfg"
  have m: "push_bit 64 1 - 1 = (mask 64 :: int)"
    by (simp add: mask_eq_exp_minus_1 push_bit_eq_mult)
  show ?thesis
    unfolding maybe_convert_block_hash_def m take_bit_eq_mask [symmetric] take_bit_eq_mod
    using c by simp
qed

section \<open>Extra keys are those of the overlapping features\<close>

abbreviation fstart :: "MultiModalFeatureSpec \<Rightarrow> int" where
  "fstart f \<equiv> offset (mm_position f)"

abbreviation fend :: "MultiModalFeatureSpec \<Rightarrow> int" where
  "fend f \<equiv> offset (mm_position f) + pr_length (mm_position f)"

text \<open>What the hasher assumes of a request: placeholders are non-empty, in order and do
  not overlap.\<close>

fun mm_sorted :: "MultiModalFeatureSpec list \<Rightarrow> bool" where
  "mm_sorted [] \<longleftrightarrow> True"
| "mm_sorted (f # fs) \<longleftrightarrow>
     pr_length (mm_position f) > 0 \<and> (\<forall>g \<in> set fs. fend f \<le> fstart g) \<and> mm_sorted fs"

definition overlaps :: "int \<Rightarrow> int \<Rightarrow> MultiModalFeatureSpec \<Rightarrow> bool" where
  "overlaps s e f \<longleftrightarrow> fstart f < e \<and> s < fend f"

definition mm_keys_spec :: "MultiModalFeatureSpec list \<Rightarrow> int \<Rightarrow> int \<Rightarrow> extra_key list" where
  "mm_keys_spec fs s e =
     map (\<lambda>f. KMM (mm_identifier f) (fstart f - s)) (filter (overlaps s e) fs)"

lemma mm_sorted_starts: "mm_sorted fs \<Longrightarrow> g \<in> set fs \<Longrightarrow> fstart g < fend g"
  by (induction fs) auto

lemma mm_sorted_append:
  "mm_sorted (fs @ gs) \<longleftrightarrow>
     mm_sorted fs \<and> mm_sorted gs \<and> (\<forall>f \<in> set fs. \<forall>g \<in> set gs. fend f \<le> fstart g)"
  by (induction fs) auto

lemma mm_keys_spec_append:
  "mm_keys_spec (fs @ gs) s e = mm_keys_spec fs s e @ mm_keys_spec gs s e"
  by (simp add: mm_keys_spec_def)

lemma mm_keys_spec_none:
  "(\<And>f. f \<in> set fs \<Longrightarrow> \<not> overlaps s e f) \<Longrightarrow> mm_keys_spec fs s e = []"
  by (simp add: mm_keys_spec_def filter_empty_conv)

lemma gen_mm_loop_spec:
  assumes "mm_sorted fs" "s < e"
  shows "\<exists>k \<le> length fs. gen_mm_loop fs idx s e keys = (keys @ mm_keys_spec fs s e, idx + int k) \<and>
    (\<forall>f \<in> set (take k fs). fend f \<le> e)"
  using assms(1)
proof (induction fs arbitrary: idx keys)
  case Nil
  then show ?case by (simp add: mm_keys_spec_def)
next
  case (Cons f fs)
  have pos: "fstart f < fend f" using Cons.prems by simp
  consider (before) "e \<le> fstart f" | (past) "fstart f < e" "fend f \<le> s"
    | (ends) "fstart f < e" "s < fend f" "fend f \<le> e"
    | (over) "fstart f < e" "s < fend f" "e < fend f"
    by linarith
  then show ?case
  proof cases
    case before
    have "mm_keys_spec (f # fs) s e = []"
      using Cons.prems before pos by (intro mm_keys_spec_none) (auto simp: overlaps_def)
    then show ?thesis using before by (intro exI [of _ 0]) (simp add: Let_def)
  next
    case past
    obtain k where k: "k \<le> length fs"
      "gen_mm_loop fs (idx + 1) s e keys = (keys @ mm_keys_spec fs s e, idx + 1 + int k)"
      "\<forall>g \<in> set (take k fs). fend g \<le> e"
      using Cons.IH [of "idx + 1" keys] Cons.prems by auto
    then show ?thesis using past assms(2)
      by (intro exI [of _ "Suc k"]) (auto simp: Let_def mm_keys_spec_def overlaps_def)
  next
    case ends
    let ?keys = "keys @ [KMM (mm_identifier f) (fstart f - s)]"
    obtain k where k: "k \<le> length fs"
      "gen_mm_loop fs (idx + 1) s e ?keys = (?keys @ mm_keys_spec fs s e, idx + 1 + int k)"
      "\<forall>g \<in> set (take k fs). fend g \<le> e"
      using Cons.IH [of "idx + 1" ?keys] Cons.prems by auto
    then show ?thesis using ends
      by (intro exI [of _ "Suc k"]) (auto simp: Let_def mm_keys_spec_def overlaps_def)
  next
    case over
    have "mm_keys_spec fs s e = []"
      using Cons.prems over by (intro mm_keys_spec_none) (auto simp: overlaps_def)
    then have "mm_keys_spec (f # fs) s e = [KMM (mm_identifier f) (fstart f - s)]"
      using over by (simp add: mm_keys_spec_def overlaps_def)
    then show ?thesis using over by (intro exI [of _ 0]) (simp add: Let_def)
  qed
qed

text \<open>The index the hasher carries from block to block is right for token \<open>s\<close> when every
  feature before it ends by \<open>s\<close>; \<open>-1\<close> stands for the last feature.\<close>

definition mm_idx_ok :: "MultiModalFeatureSpec list \<Rightarrow> int \<Rightarrow> int \<Rightarrow> bool" where
  "mm_idx_ok fs idx s \<longleftrightarrow> fs = [] \<or>
     (0 \<le> idx \<and> (\<forall>f \<in> set (take (nat idx) fs). fend f \<le> s)) \<or>
     (idx = -1 \<and> (\<forall>f \<in> set (butlast fs). fend f \<le> s))"

lemma mm_idx_ok_mono: "mm_idx_ok fs idx s \<Longrightarrow> s \<le> e \<Longrightarrow> mm_idx_ok fs idx e"
  by (auto simp: mm_idx_ok_def)

lemma mm_idx_ok_start: "mm_idx_ok fs 0 s"
  by (simp add: mm_idx_ok_def)

lemma gen_mm_from_index:
  assumes "mm_sorted fs" "s < e" "0 \<le> i" "\<forall>f \<in> set (take (nat i) fs). fend f \<le> s"
  shows "\<exists>idx'. gen_mm_loop (drop (nat i) fs) i s e [] = (mm_keys_spec fs s e, idx') \<and>
    mm_idx_ok fs idx' e"
proof -
  let ?d = "drop (nat i) fs" and ?t = "take (nat i) fs"
  have "mm_sorted (?t @ ?d)" using assms(1) by simp
  then have "mm_sorted ?d" by (simp only: mm_sorted_append)
  then obtain k where k: "gen_mm_loop ?d i s e [] = ([] @ mm_keys_spec ?d s e, i + int k)"
    "\<forall>f \<in> set (take k ?d). fend f \<le> e"
    using gen_mm_loop_spec [OF _ assms(2)] by blast
  have "mm_keys_spec ?t s e = []"
    using assms(4) by (intro mm_keys_spec_none) (auto simp: overlaps_def)
  then have "mm_keys_spec (?t @ ?d) s e = mm_keys_spec ?d s e"
    by (simp only: mm_keys_spec_append append_Nil)
  moreover have "take (nat (i + int k)) fs = ?t @ take k ?d"
    using assms(3) by (simp add: nat_add_distrib take_add)
  then have "mm_idx_ok fs (i + int k) e"
    using k(2) assms(2-4) by (fastforce simp: mm_idx_ok_def)
  ultimately show ?thesis using k(1) by simp
qed

lemma gen_mm_extra_hash_keys_spec:
  assumes "mm_sorted (mm_features r)" "s < e" "mm_idx_ok (mm_features r) idx s"
  shows "\<exists>idx'. gen_mm_extra_hash_keys r s e idx = Inr (mm_keys_spec (mm_features r) s e, idx') \<and>
    mm_idx_ok (mm_features r) idx' e"
proof (cases "mm_features r" rule: rev_cases)
  case Nil
  then show ?thesis
    by (simp add: gen_mm_extra_hash_keys_def mm_keys_spec_def mm_idx_ok_def)
next
  case (snoc gs g)
  let ?fs = "mm_features r"
  have all_before: "fend f \<le> fend g" if "f \<in> set ?fs" for f
    using that assms(1) snoc mm_sorted_starts [of ?fs g] by (auto simp: mm_sorted_append)
  show ?thesis
  proof (cases "fend g \<le> s")
    case True
    have "mm_keys_spec ?fs s e = []"
      using all_before True by (intro mm_keys_spec_none) (fastforce simp: overlaps_def)
    then show ?thesis using True snoc assms
      by (auto simp: gen_mm_extra_hash_keys_def Let_def intro: mm_idx_ok_mono)
  next
    case False
    let ?i = "if idx < 0 then len ?fs + idx else idx"
    have i: "0 \<le> ?i" "\<forall>f \<in> set (take (nat ?i) ?fs). fend f \<le> s"
      using assms(3) snoc by (auto simp: mm_idx_ok_def)
    have "\<not> (idx < 0 \<and> \<not> - idx \<le> len ?fs)"
      using assms(3) snoc by (auto simp: mm_idx_ok_def)
    then show ?thesis
      using gen_mm_from_index [OF assms(1,2) i] False snoc
      by (simp add: gen_mm_extra_hash_keys_def Let_def)
  qed
qed

section \<open>The hasher computes the hash chain\<close>

definition memo_ok :: "hash_cfg \<Rightarrow> Request \<Rightarrow> bool" where
  "memo_ok cfg r \<longleftrightarrow> (\<forall>s e h. prompt_embeds_per_block_hashes r (s, e) = Some h \<longrightarrow>
     (\<exists>em. prompt_embeds r = Some em \<and> h = sha256_tensor cfg (py_slice em s e)))"

text \<open>The extra keys of tokens \<open>[s, e)\<close>, written from the request's data.\<close>

definition extra_keys_spec :: "hash_cfg \<Rightarrow> Request \<Rightarrow> int \<Rightarrow> int \<Rightarrow> extra_key list option" where
  "extra_keys_spec cfg r s e =
     (let keys =
        (case lora_request r of None \<Rightarrow> [] | Some l \<Rightarrow> [KStr (lora_name l)]) @
        mm_keys_spec (mm_features r) s e @
        (case cache_salt r of Some c \<Rightarrow> (if s = 0 \<and> c \<noteq> [] then [KStr c] else []) | None \<Rightarrow> []) @
        (case prompt_embeds r of
           None \<Rightarrow> [] | Some em \<Rightarrow> [KBytes (sha256_tensor cfg (py_slice em s e))])
      in if keys = [] then None else Some keys)"

abbreviation with_memo :: "Request \<Rightarrow> ((int \<times> int) \<Rightarrow> bytes option) \<Rightarrow> Request" where
  "with_memo r m \<equiv> r\<lparr>prompt_embeds_per_block_hashes := m\<rparr>"

lemma generate_block_hash_extra_keys_spec:
  assumes "mm_sorted (mm_features r)" "s < e" "mm_idx_ok (mm_features r) idx s" "memo_ok cfg r"
  shows "\<exists>idx' m. generate_block_hash_extra_keys cfg r s e idx =
      Inr (extra_keys_spec cfg r s e, idx', with_memo r m) \<and>
    mm_idx_ok (mm_features r) idx' e \<and> memo_ok cfg (with_memo r m)"
proof -
  obtain idx' where mm: "gen_mm_extra_hash_keys r s e idx = Inr (mm_keys_spec (mm_features r) s e, idx')"
    "mm_idx_ok (mm_features r) idx' e"
    using gen_mm_extra_hash_keys_spec [OF assms(1-3)] by blast
  have "\<exists>m. gen_prompt_embeds_extra_hash_keys cfg r s e =
      (case prompt_embeds r of None \<Rightarrow> []
        | Some em \<Rightarrow> [KBytes (sha256_tensor cfg (py_slice em s e))], with_memo r m) \<and>
      memo_ok cfg (with_memo r m)"
  proof (cases "prompt_embeds r = None \<or> prompt_embeds_per_block_hashes r (s, e) \<noteq> None")
    case True
    then show ?thesis using assms(4)
      by (intro exI [of _ "prompt_embeds_per_block_hashes r"])
        (auto simp: gen_prompt_embeds_extra_hash_keys_def memo_ok_def split: option.splits)
  next
    case False
    then obtain em where em: "prompt_embeds r = Some em"
      "prompt_embeds_per_block_hashes r (s, e) = None" by auto
    then show ?thesis using assms(4)
      by (intro exI [of _ "(prompt_embeds_per_block_hashes r)
            ((s, e) \<mapsto> sha256_tensor cfg (py_slice em s e))"])
        (auto simp: gen_prompt_embeds_extra_hash_keys_def memo_ok_def Let_def)
  qed
  then obtain m where m: "gen_prompt_embeds_extra_hash_keys cfg r s e =
      (case prompt_embeds r of None \<Rightarrow> []
        | Some em \<Rightarrow> [KBytes (sha256_tensor cfg (py_slice em s e))], with_memo r m)"
    "memo_ok cfg (with_memo r m)" by blast
  show ?thesis
    using mm m
    by (intro exI [of _ idx'] exI [of _ m])
      (simp add: generate_block_hash_extra_keys_def extra_keys_spec_def Let_def
        gen_lora_extra_hash_keys_def)
qed

text \<open>The specification: block \<open>k\<close> hashes its parent's hash, its tokens and its extra keys.\<close>

definition block_input :: "hash_cfg \<Rightarrow> int \<Rightarrow> Request \<Rightarrow> bytes option \<Rightarrow> nat \<Rightarrow> hash_input" where
  "block_input cfg bs r parent k =
     HashBlock (case parent of None \<Rightarrow> NONE_HASH cfg
                | Some h \<Rightarrow> (if h = [] then NONE_HASH cfg else h))
       (py_slice (all_token_ids r) (int k * bs) (int k * bs + bs))
       (extra_keys_spec cfg r (int k * bs) (int k * bs + bs))"

definition last_opt :: "'a list \<Rightarrow> 'a option" where
  "last_opt xs = (if xs \<noteq> [] then Some (last xs) else None)"

primrec hash_chain :: "hash_cfg \<Rightarrow> int \<Rightarrow> Request \<Rightarrow> nat \<Rightarrow> bytes list" where
  "hash_chain cfg bs r 0 = []"
| "hash_chain cfg bs r (Suc k) =
     hash_chain cfg bs r k @
       [caching_hash_fn cfg (block_input cfg bs r (last_opt (hash_chain cfg bs r k)) k)]"

lemma length_hash_chain [simp]: "length (hash_chain cfg bs r k) = k"
  by (induction k) simp_all

lemma take_hash_chain: "k \<le> n \<Longrightarrow> take k (hash_chain cfg bs r n) = hash_chain cfg bs r k"
  by (induction n) (auto simp: le_Suc_eq)

lemma hash_chain_cong:
  assumes "\<And>i. i < k \<Longrightarrow>
      py_slice (all_token_ids r) (int i * bs) (int i * bs + bs) =
      py_slice (all_token_ids r') (int i * bs) (int i * bs + bs) \<and>
      extra_keys_spec cfg r (int i * bs) (int i * bs + bs) =
      extra_keys_spec cfg r' (int i * bs) (int i * bs + bs)"
  shows "hash_chain cfg bs r k = hash_chain cfg bs r' k"
  using assms by (induction k) (simp_all add: block_input_def)

lemma extra_keys_spec_with_memo [simp]:
  "extra_keys_spec cfg (with_memo r m) s e = extra_keys_spec cfg r s e"
  by (simp add: extra_keys_spec_def)

lemma block_input_with_memo [simp]:
  "block_input cfg bs (with_memo r m) p k = block_input cfg bs r p k"
  by (simp add: block_input_def)

lemma hash_chain_with_memo [simp]: "hash_chain cfg bs (with_memo r m) k = hash_chain cfg bs r k"
  by (intro hash_chain_cong) simp

lemma last_opt_snoc [simp]: "last_opt (xs @ [x]) = Some x"
  by (simp add: last_opt_def)

lemma full_blocks_iff: "0 < (bs::int) \<Longrightarrow> int k * bs + bs \<le> n \<longleftrightarrow> int k < n div bs"
proof -
  assume bs: "0 < bs"
  have "int k < n div bs \<longleftrightarrow> int k + 1 \<le> n div bs" by linarith
  also have "\<dots> \<longleftrightarrow> (int k + 1) * bs \<le> n"
    using bs by (rule le_div_iff_int)
  finally show ?thesis by (simp add: algebra_simps)
qed

lemma hasher_loop_chain:
  assumes "0 < bs" "n = num_tokens r" "k \<le> nat (n div bs)" "nat (n div bs) - k < fuel"
    and "mm_sorted (mm_features r)" "mm_idx_ok (mm_features r) mm (int k * bs)" "memo_ok cfg r"
  shows "\<exists>m. hasher_loop fuel cfg bs n r (int k * bs) mm (last_opt (hash_chain cfg bs r k)) new =
      Inr (new @ drop k (hash_chain cfg bs r (nat (n div bs))), with_memo r m) \<and>
    memo_ok cfg (with_memo r m)"
  using assms
proof (induction fuel arbitrary: r k mm new)
  case 0
  then show ?case by simp
next
  case (Suc fuel)
  let ?s = "int k * bs" and ?N = "nat (n div bs)"
  let ?e = "?s + bs"
  show ?case
  proof (cases "k < ?N")
    case False
    then have "?e > n" using Suc.prems full_blocks_iff [OF Suc.prems(1), of k n] by linarith
    moreover have "k = ?N" using False Suc.prems(3) by simp
    ultimately show ?thesis
      using Suc.prems by (intro exI [of _ "prompt_embeds_per_block_hashes r"]) simp
  next
    case True
    then have e: "\<not> ?e > n" using full_blocks_iff [OF Suc.prems(1), of k n] by linarith
    obtain mm' m where g: "generate_block_hash_extra_keys cfg r ?s ?e mm =
        Inr (extra_keys_spec cfg r ?s ?e, mm', with_memo r m)"
      "mm_idx_ok (mm_features r) mm' ?e" "memo_ok cfg (with_memo r m)"
      using generate_block_hash_extra_keys_spec [of r ?s ?e mm cfg] Suc.prems by auto
    let ?h = "caching_hash_fn cfg (block_input cfg bs r (last_opt (hash_chain cfg bs r k)) k)"
    have h: "hash_block_tokens cfg (last_opt (hash_chain cfg bs r k))
        (py_slice (all_token_ids r) ?s ?e) (extra_keys_spec cfg r ?s ?e) = ?h"
      by (simp add: hash_block_tokens_def block_input_def)
    have e': "?e = int (Suc k) * bs" by (simp add: algebra_simps)
    have "\<exists>m'. hasher_loop fuel cfg bs n (with_memo r m) (int (Suc k) * bs) mm'
          (last_opt (hash_chain cfg bs (with_memo r m) (Suc k))) (new @ [?h]) =
        Inr ((new @ [?h]) @ drop (Suc k) (hash_chain cfg bs (with_memo r m) ?N),
          with_memo (with_memo r m) m') \<and> memo_ok cfg (with_memo (with_memo r m) m')"
      using Suc.prems g(2,3) True unfolding e'
      by (intro Suc.IH) (auto simp: num_tokens_def)
    moreover have "last_opt (hash_chain cfg bs (with_memo r m) (Suc k)) = Some ?h"
      by (simp only: hash_chain_with_memo hash_chain.simps last_opt_snoc block_input_with_memo)
    moreover have "drop k (hash_chain cfg bs r ?N) = ?h # drop (Suc k) (hash_chain cfg bs r ?N)"
    proof -
      have "hash_chain cfg bs r ?N ! k = take (Suc k) (hash_chain cfg bs r ?N) ! k" by simp
      also have "\<dots> = ?h" using True by (simp add: take_hash_chain nth_append)
      finally show ?thesis using True by (simp add: Cons_nth_drop_Suc [symmetric])
    qed
    ultimately show ?thesis using e g(1) h e' by (simp add: Let_def)
  qed
qed

text \<open>The hypothesis of the incremental step: the hasher restarts from the last feature, so
  the features before the last one must end before the first unhashed block.\<close>

definition mm_settled :: "MultiModalFeatureSpec list \<Rightarrow> int \<Rightarrow> bool" where
  "mm_settled fs s \<longleftrightarrow> s = 0 \<or> (\<forall>f \<in> set (butlast fs). fend f \<le> s)"

lemma request_block_hasher_chain:
  assumes "0 < bs" "k \<le> nat (num_tokens r div bs)" "block_hashes r = hash_chain cfg bs r k"
    and "mm_sorted (mm_features r)" "mm_settled (mm_features r) (int k * bs)" "memo_ok cfg r"
  shows "\<exists>m. request_block_hasher cfg bs r =
      Inr (drop k (hash_chain cfg bs r (nat (num_tokens r div bs))), with_memo r m) \<and>
    memo_ok cfg (with_memo r m)"
proof (cases "k = nat (num_tokens r div bs)")
  case True
  then have "int k * bs + bs > num_tokens r"
    using full_blocks_iff [OF assms(1), of k "num_tokens r"] by linarith
  then show ?thesis
    using True assms
    by (intro exI [of _ "prompt_embeds_per_block_hashes r"])
      (simp add: request_block_hasher_def Let_def)
next
  case False
  let ?n = "num_tokens r" and ?mm = "if int k * bs > 0 then - 1 else 0 :: int"
  have k: "k < nat (?n div bs)" using False assms(2) by simp
  then have e: "\<not> int k * bs + bs > ?n"
    using full_blocks_iff [OF assms(1), of k ?n] by linarith
  have "?n div bs \<le> ?n div 1"
    using assms(1) by (intro zdiv_mono2) (auto simp: num_tokens_def)
  then have fuel: "nat (?n div bs) - k < Suc (nat ?n)" by simp
  have mm: "mm_idx_ok (mm_features r) ?mm (int k * bs)"
    using assms(1,5) by (auto simp: mm_idx_ok_def mm_settled_def)
  have "request_block_hasher cfg bs r =
      hasher_loop (Suc (nat ?n)) cfg bs ?n r (int k * bs) ?mm (last_opt (hash_chain cfg bs r k)) []"
    unfolding request_block_hasher_def Let_def last_opt_def assms(3) using e
    by (simp del: hasher_loop.simps split del: if_split)
  then show ?thesis
    using hasher_loop_chain [OF assms(1) refl _ fuel assms(4) mm assms(6), of "[]"] k
    by (simp del: hasher_loop.simps)
qed

definition well_hashed :: "hash_cfg \<Rightarrow> int \<Rightarrow> Request \<Rightarrow> bool" where
  "well_hashed cfg bs r \<longleftrightarrow>
     block_hashes r = hash_chain cfg bs r (nat (num_tokens r div bs)) \<and> memo_ok cfg r"

lemma update_block_hashes_chain:
  assumes "0 < bs" "k \<le> nat (num_tokens r div bs)" "block_hashes r = hash_chain cfg bs r k"
    and "mm_sorted (mm_features r)" "mm_settled (mm_features r) (int k * bs)" "memo_ok cfg r"
  shows "\<exists>r'. update_block_hashes (Some (request_block_hasher cfg bs)) r = Inr r' \<and>
    well_hashed cfg bs r' \<and>
    (\<exists>m. r' = (with_memo r m)\<lparr>block_hashes := hash_chain cfg bs r (nat (num_tokens r div bs))\<rparr>)"
proof -
  let ?N = "nat (num_tokens r div bs)"
  obtain m where m: "request_block_hasher cfg bs r =
      Inr (drop k (hash_chain cfg bs r ?N), with_memo r m)" "memo_ok cfg (with_memo r m)"
    using request_block_hasher_chain [OF assms] by blast
  let ?r = "(with_memo r m)\<lparr>block_hashes := hash_chain cfg bs r ?N\<rparr>"
  have "hash_chain cfg bs r k @ drop k (hash_chain cfg bs r ?N) = hash_chain cfg bs r ?N"
    using take_hash_chain [OF assms(2), of cfg bs r] by (metis append_take_drop_id)
  then have "update_block_hashes (Some (request_block_hasher cfg bs)) r = Inr ?r"
    using m(1) assms(3) by (simp add: update_block_hashes_def)
  moreover have "hash_chain cfg bs ?r ?N = hash_chain cfg bs r ?N"
    by (intro hash_chain_cong) (simp add: extra_keys_spec_def)
  then have "well_hashed cfg bs ?r"
    using m(2) by (simp add: well_hashed_def num_tokens_def memo_ok_def)
  ultimately show ?thesis by blast
qed

lemma append_keeps_blocks:
  assumes "0 < bs" "i < nat (len ts div bs)"
  shows "py_slice (ts @ us) (int i * bs) (int i * bs + bs) = py_slice ts (int i * bs) (int i * bs + bs)"
proof -
  have "int i * bs + bs \<le> len ts"
    using assms full_blocks_iff [OF assms(1), of i "len ts"] by linarith
  moreover have "0 \<le> int i * bs" using assms(1) by simp
  ultimately show ?thesis using assms(1) by (simp add: py_slice_nonneg nat_le_iff)
qed

lemma append_output_token_ids_chain:
  assumes "0 < bs" "well_hashed cfg bs r" "mm_sorted (mm_features r)"
    and "mm_settled (mm_features r) (num_tokens r div bs * bs)"
  shows "\<exists>r'. append_output_token_ids (Some (request_block_hasher cfg bs)) toks r = Inr r' \<and>
    well_hashed cfg bs r' \<and> all_token_ids r' = all_token_ids r @ toks \<and>
    output_token_ids r' = output_token_ids r @ toks"
proof -
  let ?r = "r\<lparr>output_token_ids := output_token_ids r @ toks, all_token_ids := all_token_ids r @ toks\<rparr>"
  let ?k = "nat (num_tokens r div bs)"
  have nn: "0 \<le> num_tokens r div bs"
    using assms(1) by (simp add: num_tokens_def pos_imp_zdiv_nonneg_iff)
  have "num_tokens r div bs \<le> num_tokens ?r div bs"
    using assms(1) by (intro zdiv_mono1) (simp_all add: num_tokens_def)
  then have le: "?k \<le> nat (num_tokens ?r div bs)" by simp
  have "hash_chain cfg bs ?r ?k = hash_chain cfg bs r ?k"
    using append_keeps_blocks [OF assms(1)]
    by (intro hash_chain_cong) (simp add: extra_keys_spec_def num_tokens_def)
  then have h: "block_hashes ?r = hash_chain cfg bs ?r ?k"
    using assms(2) by (simp add: well_hashed_def)
  have m: "memo_ok cfg ?r" using assms(2) by (simp add: well_hashed_def memo_ok_def)
  show ?thesis
    using update_block_hashes_chain [OF assms(1) le h _ _ m] assms(3,4) nn
    by (auto simp: append_output_token_ids_def)
qed

section \<open>Equal hashes mean equal prefixes\<close>

definition chain_inputs :: "hash_cfg \<Rightarrow> int \<Rightarrow> Request \<Rightarrow> nat \<Rightarrow> hash_input list" where
  "chain_inputs cfg bs r n =
     map (\<lambda>k. block_input cfg bs r (last_opt (hash_chain cfg bs r k)) k) [0..<n]"

text \<open>No two of the inputs hashed for the two requests collide, and no hash of a block is
  empty or the seed of a chain.\<close>

definition collision_free :: "hash_cfg \<Rightarrow> hash_input list \<Rightarrow> bool" where
  "collision_free cfg xs \<longleftrightarrow>
     (\<forall>x \<in> set xs. caching_hash_fn cfg x \<noteq> [] \<and> caching_hash_fn cfg x \<noteq> NONE_HASH cfg \<and>
        (\<forall>y \<in> set xs. caching_hash_fn cfg x = caching_hash_fn cfg y \<longrightarrow> x = y))"

definition same_block :: "hash_cfg \<Rightarrow> int \<Rightarrow> Request \<Rightarrow> Request \<Rightarrow> nat \<Rightarrow> bool" where
  "same_block cfg bs r r' k \<longleftrightarrow>
     py_slice (all_token_ids r) (int k * bs) (int k * bs + bs) =
       py_slice (all_token_ids r') (int k * bs) (int k * bs + bs) \<and>
     extra_keys_spec cfg r (int k * bs) (int k * bs + bs) =
       extra_keys_spec cfg r' (int k * bs) (int k * bs + bs)"

lemma hash_chain_nth:
  "k < n \<Longrightarrow> hash_chain cfg bs r n ! k =
     caching_hash_fn cfg (block_input cfg bs r (last_opt (hash_chain cfg bs r k)) k)"
proof -
  assume k: "k < n"
  have "hash_chain cfg bs r n ! k = take (Suc k) (hash_chain cfg bs r n) ! k" by simp
  then show ?thesis using k by (simp add: take_hash_chain nth_append)
qed

lemma last_opt_chain:
  "last_opt (hash_chain cfg bs r k) =
     (if k = 0 then None else Some (hash_chain cfg bs r k ! (k - 1)))"
  by (cases k) (auto simp: last_opt_def nth_append)

lemma chain_input_mem:
  "k < n \<Longrightarrow> block_input cfg bs r (last_opt (hash_chain cfg bs r k)) k \<in> set (chain_inputs cfg bs r n)"
  by (auto simp: chain_inputs_def)

lemma last_opt_chain':
  "k \<le> n \<Longrightarrow> last_opt (hash_chain cfg bs r k) =
     (if k = 0 then None else Some (hash_chain cfg bs r n ! (k - 1)))"
  by (auto simp: last_opt_chain hash_chain_nth)

lemma chain_hash_fresh:
  assumes "collision_free cfg (chain_inputs cfg bs r m @ chain_inputs cfg bs r' n)"
  shows "k < m \<Longrightarrow> hash_chain cfg bs r m ! k \<notin> {[], NONE_HASH cfg}"
    "k < n \<Longrightarrow> hash_chain cfg bs r' n ! k \<notin> {[], NONE_HASH cfg}"
  using assms chain_input_mem [of k m cfg bs r] chain_input_mem [of k n cfg bs r']
  by (auto simp: collision_free_def hash_chain_nth)

lemma chain_input_eq:
  assumes "collision_free cfg (chain_inputs cfg bs r m @ chain_inputs cfg bs r' n)"
    and "i < m" "j < n" "hash_chain cfg bs r m ! i = hash_chain cfg bs r' n ! j"
  shows "block_input cfg bs r (last_opt (hash_chain cfg bs r i)) i =
    block_input cfg bs r' (last_opt (hash_chain cfg bs r' j)) j"
  using assms chain_input_mem [of i m cfg bs r] chain_input_mem [of j n cfg bs r']
  by (auto simp: collision_free_def hash_chain_nth)

lemma chain_parent_eq:
  assumes "collision_free cfg (chain_inputs cfg bs r m @ chain_inputs cfg bs r' n)"
    and "i < m" "j < n" "hash_chain cfg bs r m ! i = hash_chain cfg bs r' n ! j"
  shows "i = 0 \<longleftrightarrow> j = 0"
    and "i \<noteq> 0 \<Longrightarrow> hash_chain cfg bs r m ! (i - 1) = hash_chain cfg bs r' n ! (j - 1)"
proof -
  have lt: "i - 1 < m" "j - 1 < n" using assms(2,3) by auto
  note f = chain_hash_fresh(1) [OF assms(1) lt(1)] chain_hash_fresh(2) [OF assms(1) lt(2)]
  note l = last_opt_chain' [OF less_imp_le [OF assms(2)], of cfg bs r]
    last_opt_chain' [OF less_imp_le [OF assms(3)], of cfg bs r']
  show z: "i = 0 \<longleftrightarrow> j = 0"
    using chain_input_eq [OF assms] f unfolding l
    by (auto simp: block_input_def split: if_splits)
  show "hash_chain cfg bs r m ! (i - 1) = hash_chain cfg bs r' n ! (j - 1)" if "i \<noteq> 0"
    using that z chain_input_eq [OF assms] f
    unfolding l by (auto simp: block_input_def split: if_splits)
qed

lemma hash_chain_sound:
  assumes "collision_free cfg (chain_inputs cfg bs r m @ chain_inputs cfg bs r' n)"
    and "i < m" "j < n" "hash_chain cfg bs r m ! i = hash_chain cfg bs r' n ! j"
  shows "i = j \<and> (\<forall>k \<le> i. same_block cfg bs r r' k)"
  using assms(2-)
proof (induction i arbitrary: j)
  case (0 j)
  have "j = 0" using chain_parent_eq(1) [OF assms(1) 0] by simp
  then show ?case
    using chain_input_eq [OF assms(1) 0] by (simp add: block_input_def same_block_def)
next
  case (Suc i j)
  obtain j' where j: "j = Suc j'"
    using chain_parent_eq(1) [OF assms(1) Suc.prems] by (cases j) auto
  then have "i = j' \<and> (\<forall>k \<le> i. same_block cfg bs r r' k)"
    using chain_parent_eq(2) [OF assms(1) Suc.prems] Suc.prems by (intro Suc.IH) auto
  moreover from this have "same_block cfg bs r r' (Suc i)"
    using chain_input_eq [OF assms(1) Suc.prems] j by (simp add: block_input_def same_block_def)
  ultimately show ?case using j by (auto simp: le_Suc_eq)
qed

section \<open>Properties\<close>

text \<open>A concrete hash, for the examples: a tag, the tokens and the parent's hash.\<close>

definition demo_cfg :: hash_cfg where
  "demo_cfg =
     \<lparr>caching_hash_fn = (\<lambda>x. case x of HashSeed _ \<Rightarrow> [0]
        | HashBlock p ts ks \<Rightarrow> 1 # map word_of_int ts @ p),
      NONE_HASH = [0], sha256_tensor = (\<lambda>_. []), VLLM_KV_EVENTS_USE_INT_BLOCK_HASHES = False\<rparr>"

lemma py_slice_blocks_take:
  assumes "0 < bs" "int (Suc i) * bs \<le> len xs" "int (Suc i) * bs \<le> len ys"
    and "\<And>k. k \<le> i \<Longrightarrow> py_slice xs (int k * bs) (int k * bs + bs) =
      py_slice ys (int k * bs) (int k * bs + bs)"
  shows "take (Suc i * nat bs) xs = take (Suc i * nat bs) ys"
proof -
  define b where "b = nat bs"
  have bs: "bs = int b" using assms(1) by (simp add: b_def)
  have eq: "take b (drop (k * b) xs) = take b (drop (k * b) ys)" if "k \<le> i" for k
    using assms(4) [OF that] unfolding bs
    by (simp add: py_slice_nonneg nat_add_distrib nat_mult_distrib)
  have "j \<le> Suc i \<Longrightarrow> take (j * b) xs = take (j * b) ys" for j
  proof (induction j)
    case (Suc j)
    then have "take (j * b + b) xs = take (j * b + b) ys"
      using eq [of j] by (simp add: take_add)
    then show ?case by (simp add: add.commute)
  qed simp
  from this [of "Suc i"] show ?thesis by (simp add: b_def)
qed





text \<open>Restarting from the last image loses the others: once one block is hashed, the hasher
  never looks at a feature before the last one.\<close>

definition same_last_feature :: "Request \<Rightarrow> Request \<Rightarrow> bool" where
  "same_last_feature r r' \<longleftrightarrow>
     mm_features r \<noteq> [] \<and> length (mm_features r) = length (mm_features r') \<and>
     last (mm_features r) = last (mm_features r')"

definition at_last :: "int \<Rightarrow> Request \<Rightarrow> bool" where
  "at_last mm r \<longleftrightarrow> mm = -1 \<or> mm \<ge> len (mm_features r) - 1"

lemma gen_mm_loop_index:
  "gen_mm_loop fs idx s e keys = (keys', idx') \<Longrightarrow> idx \<le> idx'"
  by (induction fs arbitrary: idx keys) (auto simp: Let_def split: if_splits, fastforce+)

lemma gen_mm_last_only:
  assumes "same_last_feature r r'" "at_last mm r"
  shows "gen_mm_extra_hash_keys r s e mm = gen_mm_extra_hash_keys r' s e mm"
    and "gen_mm_extra_hash_keys r s e mm = Inr (keys, mm') \<Longrightarrow> at_last mm' r"
proof -
  obtain gs g where r: "mm_features r = gs @ [g]"
    using assms(1) by (cases "mm_features r" rule: rev_cases) (auto simp: same_last_feature_def)
  obtain gs' where r': "mm_features r' = gs' @ [g]" "length gs' = length gs"
    using assms(1) r
    by (cases "mm_features r'" rule: rev_cases) (auto simp: same_last_feature_def)
  let ?i = "if mm < 0 then len (mm_features r) + mm else mm"
  have i: "?i \<ge> len gs" using assms(2) r by (auto simp: at_last_def)
  then have "drop (nat ?i) (gs @ [g]) = drop (nat ?i) (gs' @ [g])" using r' by auto
  then show "gen_mm_extra_hash_keys r s e mm = gen_mm_extra_hash_keys r' s e mm"
    using r r' by (simp add: gen_mm_extra_hash_keys_def Let_def)
  show "at_last mm' r" if k: "gen_mm_extra_hash_keys r s e mm = Inr (keys, mm')"
  proof (cases "fend g \<le> s")
    case True
    then show ?thesis using k assms(2) r by (simp add: gen_mm_extra_hash_keys_def Let_def)
  next
    case False
    then have "gen_mm_loop (drop (nat ?i) (mm_features r)) ?i s e [] = (keys, mm')"
      using k r by (auto simp: gen_mm_extra_hash_keys_def Let_def split: if_splits)
    then have "?i \<le> mm'" by (rule gen_mm_loop_index)
    then show ?thesis using i r by (simp add: at_last_def)
  qed
qed

abbreviation with_mm :: "Request \<Rightarrow> MultiModalFeatureSpec list \<Rightarrow> Request" where
  "with_mm r fs \<equiv> r\<lparr>mm_features := fs\<rparr>"

lemma gen_embeds_with_mm:
  "gen_prompt_embeds_extra_hash_keys cfg (with_mm r fs) s e =
     (let (ks, r') = gen_prompt_embeds_extra_hash_keys cfg r s e in (ks, with_mm r' fs))"
  "mm_features (snd (gen_prompt_embeds_extra_hash_keys cfg r s e)) = mm_features r"
  by (auto simp: gen_prompt_embeds_extra_hash_keys_def Let_def split: option.splits)

lemma generate_with_mm:
  assumes "same_last_feature r (with_mm r fs)" "at_last mm r"
  shows "generate_block_hash_extra_keys cfg (with_mm r fs) s e mm =
      rbind (generate_block_hash_extra_keys cfg r s e mm) (\<lambda>(ks, mm', r'). Inr (ks, mm', with_mm r' fs))"
    and "generate_block_hash_extra_keys cfg r s e mm = Inr (ks, mm', r') \<Longrightarrow>
      mm_features r' = mm_features r \<and> at_last mm' r"
proof -
  note last = gen_mm_last_only [OF assms]
  show "generate_block_hash_extra_keys cfg (with_mm r fs) s e mm =
      rbind (generate_block_hash_extra_keys cfg r s e mm) (\<lambda>(ks, mm', r'). Inr (ks, mm', with_mm r' fs))"
    unfolding generate_block_hash_extra_keys_def last(1)
    by (cases "gen_mm_extra_hash_keys (with_mm r fs) s e mm")
      (auto simp: gen_embeds_with_mm(1) Let_def gen_lora_extra_hash_keys_def split: prod.splits)
  show "mm_features r' = mm_features r \<and> at_last mm' r"
    if "generate_block_hash_extra_keys cfg r s e mm = Inr (ks, mm', r')"
    using that last(2) gen_embeds_with_mm(2) [of cfg r s e]
    by (cases "gen_prompt_embeds_extra_hash_keys cfg r s e")
      (auto simp: generate_block_hash_extra_keys_def rbind_eq_Inr Let_def)
qed

lemma hasher_loop_with_mm:
  assumes "same_last_feature r (with_mm r fs)" "at_last mm r"
  shows "hasher_loop fuel cfg bs n (with_mm r fs) st mm prev new =
    rbind (hasher_loop fuel cfg bs n r st mm prev new) (\<lambda>(hs, r'). Inr (hs, with_mm r' fs))"
  using assms
proof (induction fuel arbitrary: r st mm prev new)
  case 0
  then show ?case by simp
next
  case (Suc fuel)
  note g = generate_with_mm [OF Suc.prems, of cfg st "st + bs"]
  show ?case
  proof (cases "generate_block_hash_extra_keys cfg r st (st + bs) mm")
    case (Inl e)
    then show ?thesis using g(1) by (simp add: Let_def)
  next
    case (Inr x)
    obtain ks mm' r' where x: "x = (ks, mm', r')" by (cases x) auto
    have f: "mm_features r' = mm_features r" "at_last mm' r" using g(2) Inr x by auto
    have "same_last_feature r' (with_mm r' fs)" "at_last mm' r'"
      using Suc.prems(1) f by (simp_all add: same_last_feature_def at_last_def)
    from Suc.IH [OF this] show ?thesis using g(1) Inr x by (simp add: Let_def)
  qed
qed

text \<open>C20: images before the last one are not hashed once generation has started.  Two
  requests that differ only in the images before the last one get the same hashes for
  every block completed after the first hashing, even where such an image lies in the
  block: the key then does not tell the two prompts apart.\<close>

theorem hasher_ignores_earlier_images:
  assumes "0 < bs" "block_hashes r \<noteq> []" "mm_features r = fs @ [g]" "length fs' = length fs"
  shows "map_sum id fst (request_block_hasher cfg bs (r\<lparr>mm_features := fs' @ [g]\<rparr>)) =
    map_sum id fst (request_block_hasher cfg bs r)"
proof -
  have l: "same_last_feature r (with_mm r (fs' @ [g]))" "at_last (-1) r"
    using assms by (simp_all add: same_last_feature_def at_last_def)
  have "len (block_hashes r) * bs > 0" using assms(1,2) by simp
  then show ?thesis
    using assms(2) hasher_loop_with_mm [OF l, of "Suc (nat (num_tokens r))" cfg bs]
    by (cases "hasher_loop (Suc (nat (num_tokens r))) cfg bs (num_tokens r) r
          (len (block_hashes r) * bs) (-1) (Some (last (block_hashes r))) []")
      (auto simp: request_block_hasher_def Let_def num_tokens_def simp del: hasher_loop.simps)
qed

definition demo_image :: "string \<Rightarrow> int \<Rightarrow> MultiModalFeatureSpec" where
  "demo_image name off =
     \<lparr>mm_identifier = name, mm_position = \<lparr>offset = off, pr_length = 1, is_embed = None\<rparr>\<rparr>"

text \<open>Two images in the last prompt block: the request with image \<open>A\<close> and the one with
  image \<open>B\<close> in front of the last image hash the block alike.\<close>

theorem hasher_ignores_earlier_images_witness:
  "overlaps 2 4 (demo_image ''A'' 2) \<and> overlaps 2 4 (demo_image ''B'' 2) \<and>
   map_sum id fst (request_block_hasher demo_cfg 2
      ((text_request ''x'' [5, 6, 0, 0])\<lparr>block_hashes := [[1, 5, 6, 0]],
         mm_features := [demo_image ''A'' 2, demo_image ''C'' 3]\<rparr>)) =
   map_sum id fst (request_block_hasher demo_cfg 2
      ((text_request ''x'' [5, 6, 0, 0])\<lparr>block_hashes := [[1, 5, 6, 0]],
         mm_features := [demo_image ''B'' 2, demo_image ''C'' 3]\<rparr>))"
  using hasher_ignores_earlier_images [of 2
      "(text_request ''x'' [5, 6, 0, 0])\<lparr>block_hashes := [[1, 5, 6, 0]],
         mm_features := [demo_image ''B'' 2, demo_image ''C'' 3]\<rparr>"
      "[demo_image ''B'' 2]" "demo_image ''C'' 3" "[demo_image ''A'' 2]" demo_cfg]
  by (simp add: overlaps_def demo_image_def del: hasher_loop.simps)

end
