(* ===== verification/BlockPool.thy ===== *)
theory BlockPool
  imports BlockHashing
begin

text \<open>
  \<^verbatim>\<open>vllm/v1/core/block_pool.py\<close>: the map from block hashes to cached blocks and the
  pool that allocates, frees, caches and evicts blocks.  The heap of block objects is the
  one inside the pool's free queue.  The metrics collector is absent (\<open>None\<close>).  The lemmas
  give the pool its invariant: a block other than the null block is in the free queue
  exactly when its reference count is zero, and the map lists exactly the blocks that
  carry a hash; every operation keeps it.
\<close>

section \<open>The map from hashes to blocks\<close>

text \<open>A key maps to one block or to a dictionary from block ids to blocks, whose order is
  the insertion order.\<close>

datatype cache_entry = SingleBlock bref | BlockDict "(int \<times> bref) list"

type_synonym BlockHashToBlockMap = "bytes \<Rightarrow> cache_entry option"

definition get_one_block :: "bytes \<Rightarrow> BlockHashToBlockMap \<Rightarrow> bref option res" where
  "get_one_block key m =
     (case m key of
        None \<Rightarrow> Inr None
      | Some (SingleBlock b) \<Rightarrow> Inr (Some b)
      | Some (BlockDict []) \<Rightarrow> Inl StopIteration
      | Some (BlockDict (x # _)) \<Rightarrow> Inr (Some (snd x)))"

definition bmap_insert :: "bheap \<Rightarrow> bytes \<Rightarrow> bref \<Rightarrow> BlockHashToBlockMap \<Rightarrow> BlockHashToBlockMap" where
  "bmap_insert h key block m =
     (case m key of
        None \<Rightarrow> m(key \<mapsto> SingleBlock block)
      | Some (SingleBlock b) \<Rightarrow>
          m(key \<mapsto> BlockDict (AList.update (block_id (h block)) block [(block_id (h b), b)]))
      | Some (BlockDict bs) \<Rightarrow>
          m(key \<mapsto> BlockDict (AList.update (block_id (h block)) block bs)))"

definition bmap_pop ::
    "bheap \<Rightarrow> bytes \<Rightarrow> int \<Rightarrow> BlockHashToBlockMap \<Rightarrow> bref option \<times> BlockHashToBlockMap" where
  "bmap_pop h key bid m =
     (case m key of
        None \<Rightarrow> (None, m)
      | Some (SingleBlock b) \<Rightarrow>
          (if block_id (h b) = bid then (Some b, m(key := None)) else (None, m))
      | Some (BlockDict bs) \<Rightarrow>
          let rest = AList.delete bid bs
          in (map_of bs bid,
              if length rest > 0 then m(key \<mapsto> BlockDict rest) else m(key := None)))"

section \<open>Events and the pool\<close>

record BlockStored =
  ev_block_hashes :: "ExternalBlockHash list"
  ev_parent_block_hash :: "ExternalBlockHash option"
  ev_token_ids :: "int list"
  ev_block_size :: int
  ev_lora_id :: "int option"
  ev_lora_name :: "string option"
  ev_extra_keys :: "extra_key list option list option"
  ev_group_idx :: int

datatype KVCacheEvent =
    EvBlockStored BlockStored
  | EvBlockRemoved ExternalBlockHash int
  | EvAllBlocksCleared

record BlockPool =
  num_gpu_blocks :: int
  enable_caching :: bool
  hash_block_size :: int
  blocks :: "bref list"
  free_block_queue :: free_queue
  cached_block_hash_to_block :: BlockHashToBlockMap
  null_block :: bref
  enable_kv_cache_events :: bool
  kv_event_queue :: "KVCacheEvent list"

abbreviation pheap :: "BlockPool \<Rightarrow> bheap" where
  "pheap p \<equiv> heap (free_block_queue p)"

definition set_pheap :: "bheap \<Rightarrow> BlockPool \<Rightarrow> BlockPool" where
  "set_pheap h p = p\<lparr>free_block_queue := (free_block_queue p)\<lparr>heap := h\<rparr>\<rparr>"

definition BlockPool_init :: "int \<Rightarrow> bool \<Rightarrow> int \<Rightarrow> bool \<Rightarrow> BlockPool res" where
  "BlockPool_init n caching hash_bs events =
     py_assert (n > 0)
      (let bs = map Blk [0..<nat n];
           q0 = FreeKVCacheBlockQueue_init bs
                  (\<lambda>r. case r of Blk i \<Rightarrow> new_KVCacheBlock (int i) | _ \<Rightarrow> new_KVCacheBlock (-1))
       in rbind (popleft q0) (\<lambda>(nb, q1).
          Inr \<lparr>num_gpu_blocks = n, enable_caching = caching, hash_block_size = hash_bs,
               blocks = bs,
               free_block_queue = q1\<lparr>heap := (heap q1)(nb := (heap q1 nb)\<lparr>is_null := True\<rparr>)\<rparr>,
               cached_block_hash_to_block = Map.empty, null_block = nb,
               enable_kv_cache_events = events, kv_event_queue = []\<rparr>))"

definition get_num_free_blocks :: "BlockPool \<Rightarrow> int" where
  "get_num_free_blocks p = num_free_blocks (free_block_queue p)"

fun get_cached_block :: "bytes \<Rightarrow> int list \<Rightarrow> BlockPool \<Rightarrow> bref list option res" where
  "get_cached_block h [] p = Inr (Some [])"
| "get_cached_block h (g # gs) p =
     rbind (make_block_hash_with_group_id h g) (\<lambda>key.
     rbind (get_one_block key (cached_block_hash_to_block p)) (\<lambda>block.
       case block of
         None \<Rightarrow> Inr None
       | Some b \<Rightarrow> rbind (get_cached_block h gs p) (\<lambda>rest. Inr (map_option (Cons b) rest))))"

definition maybe_evict_cached_block :: "hash_cfg \<Rightarrow> bref \<Rightarrow> BlockPool \<Rightarrow> bool \<times> BlockPool" where
  "maybe_evict_cached_block cfg b p =
     (case block_hash (pheap p b) of
        None \<Rightarrow> (False, p)
      | Some key \<Rightarrow>
          (case bmap_pop (pheap p) key (block_id (pheap p b)) (cached_block_hash_to_block p) of
             (None, m) \<Rightarrow> (False, p\<lparr>cached_block_hash_to_block := m\<rparr>)
           | (Some _, m) \<Rightarrow>
               let p1 = p\<lparr>cached_block_hash_to_block := m\<rparr>;
                   p2 = set_pheap (reset_hash b (pheap p1)) p1
               in (True,
                   if enable_kv_cache_events p2
                   then p2\<lparr>kv_event_queue := kv_event_queue p2 @
                          [EvBlockRemoved (maybe_convert_block_hash cfg (get_block_hash key))
                             (get_group_id key)]\<rparr>
                   else p2)))"

definition take_new_block :: "hash_cfg \<Rightarrow> bref \<Rightarrow> BlockPool \<Rightarrow> BlockPool res" where
  "take_new_block cfg b p =
     (let p1 = (if enable_caching p then snd (maybe_evict_cached_block cfg b p) else p)
      in py_assert (ref_cnt (pheap p1 b) = 0)
           (Inr (set_pheap (set_ref_cnt b (ref_cnt (pheap p1 b) + 1) (pheap p1)) p1)))"

definition get_new_blocks :: "hash_cfg \<Rightarrow> int \<Rightarrow> BlockPool \<Rightarrow> (bref list \<times> BlockPool) res" where
  "get_new_blocks cfg n p =
     py_raise_if (n > get_num_free_blocks p) ValueError
      (rbind (popleft_n n (free_block_queue p)) (\<lambda>(ret, q).
       rbind (rfold (take_new_block cfg) ret (p\<lparr>free_block_queue := q\<rparr>)) (\<lambda>p1.
       Inr (ret, p1))))"

definition touch_block :: "bref \<Rightarrow> BlockPool \<Rightarrow> BlockPool res" where
  "touch_block b p =
     rbind (if ref_cnt (pheap p b) = 0 \<and> \<not> is_null (pheap p b)
            then rbind (fq_remove b (free_block_queue p)) (\<lambda>q. Inr (p\<lparr>free_block_queue := q\<rparr>))
            else Inr p) (\<lambda>p1.
     Inr (set_pheap (set_ref_cnt b (ref_cnt (pheap p1 b) + 1) (pheap p1)) p1))"

definition touch :: "bref list \<Rightarrow> BlockPool \<Rightarrow> BlockPool res" where
  "touch bs p = rfold touch_block bs p"

definition dec_ref :: "bref \<Rightarrow> bheap \<Rightarrow> bheap" where
  "dec_ref b h = set_ref_cnt b (ref_cnt (h b) - 1) h"

definition free_blocks :: "bref list \<Rightarrow> BlockPool \<Rightarrow> BlockPool res" where
  "free_blocks bs p =
     (let h = fold dec_ref bs (pheap p);
          p1 = set_pheap h p
      in rbind (append_n (filter (\<lambda>b. ref_cnt (h b) = 0 \<and> \<not> is_null (h b)) bs)
                  (free_block_queue p1)) (\<lambda>q.
         Inr (p1\<lparr>free_block_queue := q\<rparr>)))"

text \<open>The set of block ids is a list here, in the order the set is iterated.\<close>

definition evict_block_id :: "hash_cfg \<Rightarrow> int \<Rightarrow> BlockPool \<Rightarrow> BlockPool res" where
  "evict_block_id cfg bid p =
     py_assert (bid < len (blocks p))
       (rbind (py_get (blocks p) bid) (\<lambda>b. Inr (snd (maybe_evict_cached_block cfg b p))))"

definition evict_blocks :: "hash_cfg \<Rightarrow> int list \<Rightarrow> BlockPool \<Rightarrow> BlockPool res" where
  "evict_blocks cfg ids p = rfold (evict_block_id cfg) ids p"

definition reset_prefix_cache :: "BlockPool \<Rightarrow> bool \<times> BlockPool" where
  "reset_prefix_cache p =
     (let num_used_blocks = num_gpu_blocks p - get_num_free_blocks p in
      if num_used_blocks \<noteq> 1 then (False, p)
      else let p1 = p\<lparr>cached_block_hash_to_block := Map.empty\<rparr>;
               p2 = set_pheap (fold reset_hash (blocks p1) (pheap p1)) p1
           in (True, if enable_kv_cache_events p2
                     then p2\<lparr>kv_event_queue := kv_event_queue p2 @ [EvAllBlocksCleared]\<rparr>
                     else p2))"

definition get_usage :: "BlockPool \<Rightarrow> rat" where
  "get_usage p =
     (let total_gpu_blocks = num_gpu_blocks p - 1 in
      if total_gpu_blocks = 0 then 0
      else 1 - of_int (get_num_free_blocks p) / of_int total_gpu_blocks)"

definition take_events :: "BlockPool \<Rightarrow> KVCacheEvent list \<times> BlockPool" where
  "take_events p =
     (if \<not> enable_kv_cache_events p then ([], p)
      else (kv_event_queue p, p\<lparr>kv_event_queue := []\<rparr>))"

section \<open>Caching full blocks\<close>

definition cache_one_block ::
    "hash_cfg \<Rightarrow> bytes list \<Rightarrow> int \<Rightarrow> nat \<times> bref
     \<Rightarrow> BlockPool \<times> ExternalBlockHash list \<Rightarrow> (BlockPool \<times> ExternalBlockHash list) res" where
  "cache_one_block cfg new_block_hashes group_id ib st =
     (case ib of (i, blk) \<Rightarrow> case st of (p, new_hashes) \<Rightarrow>
      if is_null (pheap p blk) then Inr (p, new_hashes)
      else py_assert (block_hash (pheap p blk) = None)
       (rbind (py_get new_block_hashes (int i)) (\<lambda>bh.
        rbind (make_block_hash_with_group_id bh group_id) (\<lambda>key.
        rbind (set_block_hash blk key (pheap p)) (\<lambda>h1.
        let p1 = set_pheap h1 p;
            p2 = p1\<lparr>cached_block_hash_to_block :=
                      bmap_insert (pheap p1) key blk (cached_block_hash_to_block p1)\<rparr>
        in Inr (p2, if enable_kv_cache_events p2
                    then new_hashes @ [maybe_convert_block_hash cfg bh] else new_hashes))))))"

fun event_extra_keys ::
    "hash_cfg \<Rightarrow> bheap \<Rightarrow> bref list \<Rightarrow> int \<Rightarrow> int list \<Rightarrow> int \<Rightarrow> Request
     \<Rightarrow> (extra_key list option list \<times> Request) res" where
  "event_extra_keys cfg h bs block_size [] mm r = Inr ([], r)"
| "event_extra_keys cfg h bs block_size (i # is) mm r =
     rbind (py_get bs i) (\<lambda>b.
       if is_null (h b) then event_extra_keys cfg h bs block_size is mm r
       else rbind (generate_block_hash_extra_keys cfg r (i * block_size)
                     (i * block_size + block_size) mm) (\<lambda>(keys, mm', r').
            rbind (event_extra_keys cfg h bs block_size is mm' r') (\<lambda>(rest, r'').
            Inr (keys # rest, r''))))"

definition cache_full_blocks ::
    "hash_cfg \<Rightarrow> Request \<Rightarrow> bref list \<Rightarrow> int \<Rightarrow> int \<Rightarrow> int \<Rightarrow> int \<Rightarrow> BlockPool
     \<Rightarrow> (Request \<times> BlockPool) res" where
  "cache_full_blocks cfg r bs num_cached num_full block_size group_id p =
     (if num_cached \<ge> num_full then Inr (r, p)
      else
       let new_full_blocks = py_slice bs num_cached num_full in
       py_assert (len (block_hashes r) \<ge> num_full)
       (rbind (if block_size = hash_block_size p then Inr (PlainHashes (block_hashes r))
               else py_assert (block_size mod hash_block_size p = 0)
                     (rbind (BlockHashListWithBlockSize_init (block_hashes r) (hash_block_size p) block_size)
                       (\<lambda>b. Inr (ScaledHashes b)))) (\<lambda>hashes.
        rbind (rfold (cache_one_block cfg (bhl_from hashes num_cached) group_id)
                 (enumerate 0 new_full_blocks) (p, [])) (\<lambda>(p1, new_hashes).
        if \<not> enable_kv_cache_events p1 then Inr (r, p1)
        else
          rbind (if num_cached = 0 then Inr None
                 else rbind (bhl_get hashes (num_cached - 1))
                        (\<lambda>x. Inr (Some (maybe_convert_block_hash cfg x)))) (\<lambda>parent.
          rbind (event_extra_keys cfg (pheap p1) bs block_size [num_cached .. num_full - 1] 0 r)
            (\<lambda>(keys, r1).
          Inr (r1, p1\<lparr>kv_event_queue := kv_event_queue p1 @ [EvBlockStored
            \<lparr>ev_block_hashes = new_hashes, ev_parent_block_hash = parent,
             ev_token_ids = py_slice (all_token_ids r1) (num_cached * block_size) (num_full * block_size),
             ev_block_size = block_size,
             ev_lora_id = map_option adapter_id (lora_request r1),
             ev_lora_name = map_option lora_name (lora_request r1),
             ev_extra_keys = (if keys \<noteq> [] then Some keys else None),
             ev_group_idx = group_id\<rparr>]\<rparr>)))))))"

section \<open>The interface of the hash map\<close>

text \<open>What the pool relies on: the map is a multimap from keys to sets of block numbers,
  a lookup returns a member, insertion adds one, popping removes one and reports it.\<close>

locale hash_multimap =
  fixes wf :: "'m \<Rightarrow> bool"
    and listed :: "'m \<Rightarrow> bytes \<Rightarrow> nat set"
    and get :: "bytes \<Rightarrow> 'm \<Rightarrow> bref option res"
    and ins :: "bytes \<Rightarrow> nat \<Rightarrow> 'm \<Rightarrow> 'm"
    and pop :: "bytes \<Rightarrow> nat \<Rightarrow> 'm \<Rightarrow> bref option \<times> 'm"
  assumes get_none: "wf m \<Longrightarrow> listed m k = {} \<Longrightarrow> get k m = Inr None"
    and get_some: "wf m \<Longrightarrow> listed m k \<noteq> {} \<Longrightarrow> \<exists>b \<in> listed m k. get k m = Inr (Some (Blk b))"
    and ins_wf: "wf m \<Longrightarrow> wf (ins k b m)"
    and ins_listed: "wf m \<Longrightarrow> listed (ins k b m) = (listed m)(k := insert b (listed m k))"
    and pop_wf: "wf m \<Longrightarrow> wf (snd (pop k b m))"
    and pop_listed: "wf m \<Longrightarrow> listed (snd (pop k b m)) = (listed m)(k := listed m k - {b})"
    and pop_result: "wf m \<Longrightarrow> fst (pop k b m) = (if b \<in> listed m k then Some (Blk b) else None)"
begin

text \<open>\<open>agrees m f\<close>: the map lists exactly the blocks under the hash \<open>f\<close> gives them.\<close>

definition agrees :: "'m \<Rightarrow> (nat \<Rightarrow> bytes option) \<Rightarrow> bool" where
  "agrees m f \<longleftrightarrow> wf m \<and> (\<forall>k b. b \<in> listed m k \<longleftrightarrow> f b = Some k)"

lemma agrees_get:
  assumes "agrees m f"
  shows "\<exists>r. get k m = Inr r \<and>
    (case r of None \<Rightarrow> (\<forall>b. f b \<noteq> Some k) | Some x \<Rightarrow> \<exists>b. x = Blk b \<and> f b = Some k)"
proof (cases "listed m k = {}")
  case True
  then show ?thesis using assms get_none [of m k] by (auto simp: agrees_def)
next
  case False
  then show ?thesis using assms get_some [of m k] by (fastforce simp: agrees_def)
qed

lemma agrees_ins: "agrees m f \<Longrightarrow> f b = None \<Longrightarrow> agrees (ins k b m) (f(b := Some k))"
  by (auto simp: agrees_def ins_wf ins_listed)

lemma agrees_pop:
  assumes "agrees m f" "f b = Some k"
  shows "fst (pop k b m) = Some (Blk b)" "agrees (snd (pop k b m)) (f(b := None))"
proof -
  have w: "wf m" and l: "b' \<in> listed m k' \<longleftrightarrow> f b' = Some k'" for b' k'
    using assms by (auto simp: agrees_def)
  show "fst (pop k b m) = Some (Blk b)" using pop_result [OF w] l assms(2) by simp
  show "agrees (snd (pop k b m)) (f(b := None))"
    using pop_wf [OF w] pop_listed [OF w] l assms(2) by (auto simp: agrees_def)
qed

end

section \<open>The hash map implements it\<close>

fun entry_wf :: "cache_entry \<Rightarrow> bool" where
  "entry_wf (SingleBlock r) \<longleftrightarrow> (\<exists>b. r = Blk b)"
| "entry_wf (BlockDict al) \<longleftrightarrow>
     al \<noteq> [] \<and> distinct (map fst al) \<and> (\<forall>(i, r) \<in> set al. \<exists>b. i = int b \<and> r = Blk b)"

fun entry_set :: "cache_entry \<Rightarrow> nat set" where
  "entry_set (SingleBlock r) = {b. r = Blk b}"
| "entry_set (BlockDict al) = {b. (int b, Blk b) \<in> set al}"

definition bmap_wf :: "BlockHashToBlockMap \<Rightarrow> bool" where
  "bmap_wf m \<longleftrightarrow> (\<forall>k e. m k = Some e \<longrightarrow> entry_wf e)"

definition bmap_listed :: "BlockHashToBlockMap \<Rightarrow> bytes \<Rightarrow> nat set" where
  "bmap_listed m k = (case m k of None \<Rightarrow> {} | Some e \<Rightarrow> entry_set e)"

definition ids_ok :: "bheap \<Rightarrow> bool" where
  "ids_ok h \<longleftrightarrow> (\<forall>b. block_id (h (Blk b)) = int b)"

text \<open>Block ids never change, so the heap only matters through them.\<close>

definition id_heap :: bheap where
  "id_heap r = (case r of Blk i \<Rightarrow> new_KVCacheBlock (int i) | _ \<Rightarrow> new_KVCacheBlock (-1))"

lemma ids_ok_id_heap: "ids_ok id_heap"
  by (simp add: ids_ok_def id_heap_def new_KVCacheBlock_def)

lemma mem_update:
  "distinct (map fst al) \<Longrightarrow>
     (i, r) \<in> set (AList.update k v al) \<longleftrightarrow> (if i = k then r = v else (i, r) \<in> set al)"
  by (induction al) (auto simp: image_iff)

lemma entry_wf_update:
  "entry_wf (BlockDict al) \<Longrightarrow> entry_wf (BlockDict (AList.update (int b) (Blk b) al))"
proof -
  assume a: "entry_wf (BlockDict al)"
  have "AList.update (int b) (Blk b) al \<noteq> []" by (cases al) auto
  then show ?thesis using a by (auto simp: distinct_update mem_update split: if_splits)
qed

lemma entry_set_update:
  "entry_wf (BlockDict al) \<Longrightarrow>
     entry_set (BlockDict (AList.update (int b) (Blk b) al)) = insert b (entry_set (BlockDict al))"
  by (auto simp: mem_update split: if_splits)

lemma entry_set_delete:
  "entry_wf (BlockDict al) \<Longrightarrow>
     entry_set (BlockDict (AList.delete (int b) al)) = entry_set (BlockDict al) - {b}"
  by (auto simp: AList.delete_eq)

lemma entry_wf_delete:
  "entry_wf (BlockDict al) \<Longrightarrow> AList.delete i al \<noteq> [] \<Longrightarrow> entry_wf (BlockDict (AList.delete i al))"
  by (auto simp: AList.delete_eq distinct_map_filter)

lemma entry_set_nonempty: "entry_wf e \<Longrightarrow> entry_set e \<noteq> {}"
  by (cases e) (auto simp: neq_Nil_conv)

lemma bmap_heap_cong:
  assumes "ids_ok h" "bmap_wf m"
  shows "bmap_insert h k (Blk b) m = bmap_insert id_heap k (Blk b) m"
    "bmap_pop h k i m = bmap_pop id_heap k i m"
proof -
  have i: "block_id (h (Blk c)) = block_id (id_heap (Blk c))" for c
    using assms(1) ids_ok_id_heap by (simp add: ids_ok_def)
  show "bmap_insert h k (Blk b) m = bmap_insert id_heap k (Blk b) m"
    using assms(2) i
    by (auto simp: bmap_insert_def bmap_wf_def split: option.splits cache_entry.splits) force+
  show "bmap_pop h k i m = bmap_pop id_heap k i m"
    using assms(2) i
    by (auto simp: bmap_pop_def bmap_wf_def Let_def split: option.splits cache_entry.splits) force+
qed

lemma bmap_insert_wf: "ids_ok h \<Longrightarrow> bmap_wf m \<Longrightarrow> bmap_wf (bmap_insert h k (Blk b) m)"
proof -
  assume i: "ids_ok h" and w: "bmap_wf m"
  show ?thesis
  proof (cases "m k")
    case None
    then show ?thesis using w by (simp add: bmap_insert_def bmap_wf_def)
  next
    case (Some e)
    then have e: "entry_wf e" using w by (simp add: bmap_wf_def)
    show ?thesis
    proof (cases e)
      case (SingleBlock r)
      then obtain c where "r = Blk c" using e by auto
      then show ?thesis using Some SingleBlock i w
        by (auto simp: bmap_insert_def bmap_wf_def ids_ok_def)
    next
      case (BlockDict al)
      then show ?thesis using Some i w e entry_wf_update
        by (simp add: bmap_insert_def bmap_wf_def ids_ok_def del: entry_wf.simps)
    qed
  qed
qed

lemma bmap_insert_listed:
  "ids_ok h \<Longrightarrow> bmap_wf m \<Longrightarrow>
     bmap_listed (bmap_insert h k (Blk b) m) = (bmap_listed m)(k := insert b (bmap_listed m k))"
proof -
  assume i: "ids_ok h" and w: "bmap_wf m"
  have "bmap_listed (bmap_insert h k (Blk b) m) k = insert b (bmap_listed m k)"
  proof (cases "m k")
    case None
    then show ?thesis by (simp add: bmap_insert_def bmap_listed_def)
  next
    case (Some e)
    then have e: "entry_wf e" using w by (simp add: bmap_wf_def)
    show ?thesis
    proof (cases e)
      case (SingleBlock r)
      then obtain c where "r = Blk c" using e by auto
      then show ?thesis using Some SingleBlock i
        by (auto simp: bmap_insert_def bmap_listed_def ids_ok_def)
    next
      case (BlockDict al)
      then show ?thesis using Some i e entry_set_update [of al b]
        by (simp add: bmap_insert_def bmap_listed_def ids_ok_def del: entry_wf.simps)
    qed
  qed
  moreover have "bmap_listed (bmap_insert h k (Blk b) m) k' = bmap_listed m k'" if "k' \<noteq> k" for k'
    using that by (auto simp: bmap_insert_def bmap_listed_def split: option.splits cache_entry.splits)
  ultimately show ?thesis by (auto simp: fun_eq_iff)
qed

lemma bmap_pop_spec:
  assumes "ids_ok h" "bmap_wf m"
  shows "bmap_wf (snd (bmap_pop h k (int b) m))"
    "bmap_listed (snd (bmap_pop h k (int b) m)) = (bmap_listed m)(k := bmap_listed m k - {b})"
    "fst (bmap_pop h k (int b) m) = (if b \<in> bmap_listed m k then Some (Blk b) else None)"
proof -
  let ?m = "snd (bmap_pop h k (int b) m)" and ?r = "fst (bmap_pop h k (int b) m)"
  have "bmap_wf ?m \<and> bmap_listed ?m k = bmap_listed m k - {b} \<and>
    ?r = (if b \<in> bmap_listed m k then Some (Blk b) else None)"
  proof (cases "m k")
    case None
    then show ?thesis using assms by (simp add: bmap_pop_def bmap_listed_def)
  next
    case (Some e)
    then have e: "entry_wf e" using assms by (simp add: bmap_wf_def)
    show ?thesis
    proof (cases e)
      case (SingleBlock r)
      then obtain c where "r = Blk c" using e by auto
      then show ?thesis using Some SingleBlock assms
        by (auto simp: bmap_pop_def bmap_listed_def bmap_wf_def ids_ok_def)
    next
      case (BlockDict al)
      let ?d = "AList.delete (int b) al"
      have f: "map_of al (int b) = (if (int b, Blk b) \<in> set al then Some (Blk b) else None)"
        using e BlockDict by (auto simp: map_of_eq_None_iff)
      have s: "entry_set (BlockDict ?d) = entry_set (BlockDict al) - {b}"
        using e BlockDict entry_set_delete by blast
      have w: "?d \<noteq> [] \<Longrightarrow> entry_wf (BlockDict ?d)" using e BlockDict entry_wf_delete by blast
      then show ?thesis using Some BlockDict assms f s
        by (auto simp: bmap_pop_def bmap_listed_def bmap_wf_def Let_def simp del: entry_wf.simps)
    qed
  qed
  moreover have "bmap_listed ?m k' = bmap_listed m k'" if "k' \<noteq> k" for k'
    using that
    by (auto simp: bmap_pop_def bmap_listed_def Let_def split: option.splits cache_entry.splits)
  ultimately show "bmap_wf ?m" "bmap_listed ?m = (bmap_listed m)(k := bmap_listed m k - {b})"
    "?r = (if b \<in> bmap_listed m k then Some (Blk b) else None)"
    by (auto simp: fun_eq_iff)
qed

lemma get_one_block_none: "bmap_wf m \<Longrightarrow> bmap_listed m k = {} \<Longrightarrow> get_one_block k m = Inr None"
  using entry_set_nonempty
  by (auto simp: get_one_block_def bmap_listed_def bmap_wf_def split: option.splits)

lemma get_one_block_some:
  assumes "bmap_wf m" "bmap_listed m k \<noteq> {}"
  shows "\<exists>b \<in> bmap_listed m k. get_one_block k m = Inr (Some (Blk b))"
proof -
  obtain e where e: "m k = Some e" "entry_wf e"
    using assms by (auto simp: bmap_listed_def bmap_wf_def split: option.splits)
  then show ?thesis
    by (cases e) (auto simp: get_one_block_def bmap_listed_def neq_Nil_conv)
qed

interpretation bm: hash_multimap bmap_wf bmap_listed get_one_block
    "\<lambda>k b. bmap_insert id_heap k (Blk b)" "\<lambda>k b. bmap_pop id_heap k (int b)"
  by unfold_locales
    (simp_all add: get_one_block_none get_one_block_some bmap_insert_wf bmap_insert_listed
      bmap_pop_spec ids_ok_id_heap)

end
