(* ===== verification/PoolInvariant.thy ===== *)
theory PoolInvariant
  imports BlockPool
begin

text \<open>
  The invariant of the block pool and what each pool operation does to it: the reference
  counts, the hashes and the order of the free queue after the operation, with the
  exceptions it raises.  A set \<open>D\<close> of detached blocks describes the states inside
  \<open>get_new_blocks\<close>, between popping blocks and counting the first reference to them.
\<close>

section \<open>The invariant\<close>

abbreviation rc :: "BlockPool \<Rightarrow> nat \<Rightarrow> int" where
  "rc p b \<equiv> ref_cnt (pheap p (Blk b))"

abbreviation hash_of :: "BlockPool \<Rightarrow> nat \<Rightarrow> bytes option" where
  "hash_of p b \<equiv> block_hash (pheap p (Blk b))"

abbreviation in_pool :: "BlockPool \<Rightarrow> nat \<Rightarrow> bool" where
  "in_pool p b \<equiv> 0 < b \<and> int b < num_gpu_blocks p"

definition pool_ok :: "BlockPool \<Rightarrow> nat list \<Rightarrow> nat set \<Rightarrow> bool" where
  "pool_ok p xs D \<longleftrightarrow>
     num_gpu_blocks p > 0 \<and> blocks p = map Blk [0..<nat (num_gpu_blocks p)] \<and>
     null_block p = Blk 0 \<and>
     fq_repr (free_block_queue p) xs \<and> ids_ok (pheap p) \<and>
     (\<forall>b. is_null (pheap p (Blk b)) \<longleftrightarrow> b = 0) \<and>
     (\<forall>b. b \<in> set xs \<longleftrightarrow> in_pool p b \<and> rc p b = 0 \<and> b \<notin> D) \<and>
     (\<forall>b. 0 < b \<longrightarrow> rc p b \<ge> 0) \<and>
     (\<forall>b k. hash_of p b = Some k \<longrightarrow> in_pool p b) \<and>
     bm.agrees (cached_block_hash_to_block p) (hash_of p)"

definition pool_inv :: "BlockPool \<Rightarrow> nat list \<Rightarrow> bool" where
  "pool_inv p xs \<longleftrightarrow> pool_ok p xs {}"

definition same_setup :: "BlockPool \<Rightarrow> BlockPool \<Rightarrow> bool" where
  "same_setup p p' \<longleftrightarrow>
     num_gpu_blocks p' = num_gpu_blocks p \<and> enable_caching p' = enable_caching p \<and>
     hash_block_size p' = hash_block_size p \<and> blocks p' = blocks p \<and>
     null_block p' = null_block p \<and> enable_kv_cache_events p' = enable_kv_cache_events p"

lemma same_setup_refl [simp]: "same_setup p p"
  by (simp add: same_setup_def)

lemma same_setup_trans: "same_setup p q \<Longrightarrow> same_setup q r \<Longrightarrow> same_setup p r"
  by (simp add: same_setup_def)

lemma same_setup_updates [simp]:
  "same_setup p (set_pheap h p)"
  "same_setup p (p\<lparr>free_block_queue := q\<rparr>)"
  "same_setup p (p\<lparr>cached_block_hash_to_block := m\<rparr>)"
  "same_setup p (p\<lparr>kv_event_queue := e\<rparr>)"
  by (simp_all add: same_setup_def set_pheap_def)

lemma set_pheap_sel [simp]:
  "pheap (set_pheap h p) = h"
  "num_gpu_blocks (set_pheap h p) = num_gpu_blocks p"
  "enable_caching (set_pheap h p) = enable_caching p"
  "hash_block_size (set_pheap h p) = hash_block_size p"
  "blocks (set_pheap h p) = blocks p"
  "null_block (set_pheap h p) = null_block p"
  "enable_kv_cache_events (set_pheap h p) = enable_kv_cache_events p"
  "kv_event_queue (set_pheap h p) = kv_event_queue p"
  "cached_block_hash_to_block (set_pheap h p) = cached_block_hash_to_block p"
  "num_free_blocks (free_block_queue (set_pheap h p)) = num_free_blocks (free_block_queue p)"
  by (simp_all add: set_pheap_def)

lemma fq_repr_set_pheap:
  "same_links (pheap p) h \<Longrightarrow>
     fq_repr (free_block_queue (set_pheap h p)) xs = fq_repr (free_block_queue p) xs"
  by (simp add: set_pheap_def fq_repr_cong_links)

lemma same_links_payload_updates:
  "same_links h (set_ref_cnt r v h)"
  "same_links h (reset_hash r h)"
  "set_block_hash r k h = Inr h' \<Longrightarrow> same_links h h'"
  by (auto simp: same_links_def set_ref_cnt_def reset_hash_def set_block_hash_def py_assert_def
      split: if_splits)

lemma payload_updates_sel [simp]:
  "ref_cnt (set_ref_cnt r v h r') = (if r' = r then v else ref_cnt (h r'))"
  "block_hash (set_ref_cnt r v h r') = block_hash (h r')"
  "block_id (set_ref_cnt r v h r') = block_id (h r')"
  "is_null (set_ref_cnt r v h r') = is_null (h r')"
  "block_hash (reset_hash r h r') = (if r' = r then None else block_hash (h r'))"
  "ref_cnt (reset_hash r h r') = ref_cnt (h r')"
  "block_id (reset_hash r h r') = block_id (h r')"
  "is_null (reset_hash r h r') = is_null (h r')"
  by (simp_all add: set_ref_cnt_def reset_hash_def)

section \<open>Single updates\<close>

lemma pool_ok_events: "pool_ok (p\<lparr>kv_event_queue := e\<rparr>) xs D = pool_ok p xs D"
  by (simp add: pool_ok_def)

lemma pool_ok_set_ref_cnt:
  assumes "pool_ok p xs D" "b = 0 \<or> v \<ge> 0"
    and "in_pool p b \<Longrightarrow> b \<in> set xs \<longleftrightarrow> v = 0 \<and> b \<notin> D'"
    and "\<And>c. c \<noteq> b \<Longrightarrow> c \<in> D' \<longleftrightarrow> c \<in> D"
  shows "pool_ok (set_pheap (set_ref_cnt (Blk b) v (pheap p)) p) xs D'"
proof -
  have "fq_repr (free_block_queue (set_pheap (set_ref_cnt (Blk b) v (pheap p)) p)) xs"
    using assms(1) by (simp add: fq_repr_set_pheap same_links_payload_updates pool_ok_def)
  moreover have "c \<in> set xs \<longleftrightarrow> in_pool p c \<and> (if c = b then v else rc p c) = 0 \<and> c \<notin> D'" for c
    using assms by (cases "c = b") (auto simp: pool_ok_def)
  ultimately show ?thesis
    using assms(1,2) by (auto simp: pool_ok_def ids_ok_def)
qed

lemma pool_ok_queue:
  assumes "pool_ok p xs D" "fq_repr q ys" "same_payload (pheap p) (heap q)"
    and "\<And>c. c \<in> set ys \<longleftrightarrow> in_pool p c \<and> rc p c = 0 \<and> c \<notin> D'"
  shows "pool_ok (p\<lparr>free_block_queue := q\<rparr>) ys D'"
  using assms by (simp add: pool_ok_def same_payload_sel ids_ok_def)

lemma pool_ok_evict:
  assumes "pool_ok p xs D"
  shows "\<exists>p'. maybe_evict_cached_block cfg (Blk b) p = (hash_of p b \<noteq> None, p') \<and>
    pool_ok p' xs D \<and> same_setup p p' \<and> (\<forall>c. rc p' c = rc p c) \<and>
    (\<forall>c. hash_of p' c = (if c = b then None else hash_of p c))"
proof (cases "hash_of p b")
  case None
  then show ?thesis using assms by (auto simp: maybe_evict_cached_block_def)
next
  case (Some k)
  let ?m = "cached_block_hash_to_block p"
  have a: "bm.agrees ?m (hash_of p)" and w: "bmap_wf ?m" and i: "ids_ok (pheap p)"
    using assms by (auto simp: pool_ok_def bm.agrees_def)
  have bid: "block_id (pheap p (Blk b)) = int b" using i by (simp add: ids_ok_def)
  obtain m where m: "bmap_pop (pheap p) k (int b) ?m = (Some (Blk b), m)"
    "bm.agrees m ((hash_of p)(b := None))"
    using bm.agrees_pop [of ?m "hash_of p" b k] a Some bmap_heap_cong(2) [OF i w]
    by (metis prod.collapse)
  let ?p = "set_pheap (reset_hash (Blk b) (pheap p)) (p\<lparr>cached_block_hash_to_block := m\<rparr>)"
  have h: "hash_of ?p = (hash_of p)(b := None)" by auto
  have "fq_repr (free_block_queue ?p) xs"
    using assms by (simp add: fq_repr_set_pheap same_links_payload_updates pool_ok_def)
  then have "pool_ok ?p xs D"
    using assms m(2) unfolding pool_ok_def h by (auto simp: ids_ok_def)
  then show ?thesis
    using Some m(1) h bid
    by (auto simp: maybe_evict_cached_block_def Let_def pool_ok_events same_setup_def fun_eq_iff)
qed

lemma pool_ok_cache:
  assumes "pool_ok p xs D" "in_pool p b" "hash_of p b = None" "set_block_hash (Blk b) k (pheap p) = Inr h"
  shows "pool_ok ((set_pheap h p)\<lparr>cached_block_hash_to_block :=
      bmap_insert h k (Blk b) (cached_block_hash_to_block p)\<rparr>) xs D"
proof -
  let ?m = "cached_block_hash_to_block p"
  have h: "h = (pheap p)(Blk b := (pheap p (Blk b))\<lparr>block_hash := Some k\<rparr>)"
    using assms(3,4) by (simp add: set_block_hash_def)
  have i: "ids_ok h" and w: "bmap_wf ?m" and a: "bm.agrees ?m (hash_of p)"
    using assms(1) by (auto simp: pool_ok_def bm.agrees_def ids_ok_def h)
  have ho: "(\<lambda>c. block_hash (h (Blk c))) = (hash_of p)(b := Some k)" by (auto simp: h)
  have "bm.agrees (bmap_insert h k (Blk b) ?m) ((hash_of p)(b := Some k))"
    using bm.agrees_ins [OF a assms(3)] bmap_heap_cong(1) [OF i w] by simp
  moreover have "fq_repr (free_block_queue (set_pheap h p)) xs"
    using assms by (simp add: fq_repr_set_pheap same_links_payload_updates(3) pool_ok_def)
  ultimately show ?thesis
    using assms(1,2) i ho unfolding pool_ok_def by (auto simp: h)
qed

section \<open>Allocation\<close>

lemma take_new_block_ok:
  assumes "pool_ok p xs D" "b \<in> D" "in_pool p b" "rc p b = 0"
  shows "\<exists>p'. take_new_block cfg (Blk b) p = Inr p' \<and> pool_ok p' xs (D - {b}) \<and> same_setup p p' \<and>
    (\<forall>c. rc p' c = (if c = b then 1 else rc p c)) \<and>
    (\<forall>c. hash_of p' c = (if enable_caching p \<and> c = b then None else hash_of p c))"
proof -
  obtain p1 where p1: "p1 = (if enable_caching p then snd (maybe_evict_cached_block cfg (Blk b) p) else p)"
    "pool_ok p1 xs D" "same_setup p p1" "\<And>c. rc p1 c = rc p c"
    "\<And>c. hash_of p1 c = (if enable_caching p \<and> c = b then None else hash_of p c)"
    using assms(1) pool_ok_evict [OF assms(1), of cfg b] by auto
  have "b \<notin> set xs" using assms(1,2) by (auto simp: pool_ok_def)
  then have "pool_ok (set_pheap (set_ref_cnt (Blk b) 1 (pheap p1)) p1) xs (D - {b})"
    using p1(2) by (intro pool_ok_set_ref_cnt) auto
  moreover have "rc p1 b = 0" using p1(4) assms(4) by simp
  ultimately show ?thesis
    using p1(3-) unfolding take_new_block_def p1(1) [symmetric]
    by (auto simp: Let_def intro: same_setup_trans)
qed

lemma take_new_blocks_ok:
  assumes "pool_ok p xs D" "distinct bs" "set bs \<subseteq> D" "\<And>b. b \<in> set bs \<Longrightarrow> in_pool p b \<and> rc p b = 0"
  shows "\<exists>p'. rfold (take_new_block cfg) (map Blk bs) p = Inr p' \<and> pool_ok p' xs (D - set bs) \<and>
    same_setup p p' \<and> (\<forall>b. rc p' b = (if b \<in> set bs then 1 else rc p b)) \<and>
    (\<forall>b. hash_of p' b = (if enable_caching p \<and> b \<in> set bs then None else hash_of p b))"
  using assms
proof (induction bs arbitrary: p D)
  case Nil
  then show ?case by simp
next
  case (Cons b bs)
  obtain p1 where p1: "take_new_block cfg (Blk b) p = Inr p1" "pool_ok p1 xs (D - {b})"
    "same_setup p p1" "\<And>c. rc p1 c = (if c = b then 1 else rc p c)"
    "\<And>c. hash_of p1 c = (if enable_caching p \<and> c = b then None else hash_of p c)"
    using take_new_block_ok [of p xs D b cfg] Cons.prems by auto
  have "in_pool p1 c \<and> rc p1 c = 0" if "c \<in> set bs" for c
    using that Cons.prems p1(3,4) by (auto simp: same_setup_def)
  then obtain p' where p': "rfold (take_new_block cfg) (map Blk bs) p1 = Inr p'"
    "pool_ok p' xs (D - {b} - set bs)" "same_setup p1 p'"
    "\<And>b. rc p' b = (if b \<in> set bs then 1 else rc p1 b)"
    "\<And>b. hash_of p' b = (if enable_caching p1 \<and> b \<in> set bs then None else hash_of p1 b)"
    using Cons.IH [OF p1(2)] Cons.prems(2,3) by auto
  have "D - {b} - set bs = D - set (b # bs)" by auto
  moreover have "enable_caching p1 = enable_caching p" using p1(3) by (simp add: same_setup_def)
  ultimately show ?case
    using p1(1,3-) p' same_setup_trans by auto
qed

lemma pool_inv_free: "pool_inv p xs \<Longrightarrow> get_num_free_blocks p = len xs"
  by (simp add: pool_inv_def pool_ok_def fq_repr_def get_num_free_blocks_def)

lemma get_new_blocks_ok:
  assumes "pool_inv p xs" "0 \<le> n" "n \<le> len xs"
  shows "\<exists>p'. get_new_blocks cfg n p = Inr (map Blk (take (nat n) xs), p') \<and>
    pool_inv p' (drop (nat n) xs) \<and> same_setup p p' \<and>
    (\<forall>b. rc p' b = (if b \<in> set (take (nat n) xs) then 1 else rc p b)) \<and>
    (\<forall>b. hash_of p' b =
      (if enable_caching p \<and> b \<in> set (take (nat n) xs) then None else hash_of p b))"
proof -
  let ?t = "take (nat n) xs" and ?d = "drop (nat n) xs"
  have ok: "pool_ok p xs {}" and q: "fq_repr (free_block_queue p) xs"
    using assms(1) by (auto simp: pool_inv_def pool_ok_def)
  obtain q' where q': "popleft_n n (free_block_queue p) = Inr (map Blk ?t, q')"
    "fq_repr q' ?d" "same_payload (pheap p) (heap q')"
    using popleft_n_take [OF q assms(2,3)] by blast
  let ?p = "p\<lparr>free_block_queue := q'\<rparr>"
  have dist: "distinct xs" using q by (simp add: fq_repr_def)
  have split: "c \<in> set ?d \<longleftrightarrow> c \<in> set xs \<and> c \<notin> set ?t" for c
    using dist by (metis append_take_drop_id distinct_append Un_iff set_append
        disjoint_iff_not_equal)
  have "pool_ok ?p ?d (set ?t)"
    using ok split by (intro pool_ok_queue [OF ok q'(2,3)]) (auto simp: pool_ok_def)
  moreover have "in_pool ?p b \<and> rc ?p b = 0" if "b \<in> set ?t" for b
    using that ok same_payload_sel(2) [OF q'(3), of b] by (auto simp: pool_ok_def dest: in_set_takeD)
  ultimately obtain p' where p': "rfold (take_new_block cfg) (map Blk ?t) ?p = Inr p'"
    "pool_ok p' ?d (set ?t - set ?t)" "same_setup ?p p'"
    "\<And>b. rc p' b = (if b \<in> set ?t then 1 else rc ?p b)"
    "\<And>b. hash_of p' b = (if enable_caching ?p \<and> b \<in> set ?t then None else hash_of ?p b)"
    using take_new_blocks_ok [of ?p ?d "set ?t" ?t cfg] dist by auto
  have "rc ?p b = rc p b" "hash_of ?p b = hash_of p b" for b
    using same_payload_sel [OF q'(3)] by auto
  moreover have "get_new_blocks cfg n p = Inr (map Blk ?t, p')"
    using q'(1) p'(1) assms(1,3) by (simp add: get_new_blocks_def pool_inv_free)
  moreover have "pool_inv p' ?d" using p'(2) by (simp add: pool_inv_def)
  ultimately show ?thesis
    using p'(3-) same_setup_trans [of p ?p p'] by auto
qed

lemma get_new_blocks_too_many:
  "pool_inv p xs \<Longrightarrow> n > len xs \<Longrightarrow> get_new_blocks cfg n p = Inl ValueError"
  by (simp add: get_new_blocks_def pool_inv_free)

section \<open>Sharing and freeing\<close>

lemma pool_inv_distinct: "pool_inv p xs \<Longrightarrow> distinct xs"
  by (simp add: pool_inv_def pool_ok_def fq_repr_def)

lemma touch_block_ok:
  assumes "pool_inv p xs" "b = 0 \<or> in_pool p b"
  shows "\<exists>p'. touch_block (Blk b) p = Inr p' \<and> pool_inv p' (filter (\<lambda>x. x \<noteq> b) xs) \<and>
    same_setup p p' \<and> (\<forall>c. rc p' c = rc p c + (if c = b then 1 else 0)) \<and>
    (\<forall>c. hash_of p' c = hash_of p c) \<and>
    cached_block_hash_to_block p' = cached_block_hash_to_block p"
proof (cases "b \<in> set xs")
  case True
  have ok: "pool_ok p xs {}" and q: "fq_repr (free_block_queue p) xs"
    using assms(1) by (auto simp: pool_inv_def pool_ok_def)
  have b: "0 < b" "rc p b = 0" "\<not> is_null (pheap p (Blk b))"
    using True ok by (auto simp: pool_ok_def)
  note r = remove1_eq_filter [OF pool_inv_distinct [OF assms(1)], of b]
  obtain q' where q': "fq_remove (Blk b) (free_block_queue p) = Inr q'"
    "fq_repr q' (filter (\<lambda>x. x \<noteq> b) xs)" "same_payload (pheap p) (heap q')"
    using fq_remove_mem [OF q True] r by auto
  let ?p = "p\<lparr>free_block_queue := q'\<rparr>"
  have "pool_ok ?p (filter (\<lambda>x. x \<noteq> b) xs) {b}"
    using ok by (intro pool_ok_queue [OF ok q'(2,3)]) (auto simp: pool_ok_def)
  then have "pool_ok (set_pheap (set_ref_cnt (Blk b) 1 (pheap ?p)) ?p) (filter (\<lambda>x. x \<noteq> b) xs) {}"
    by (rule pool_ok_set_ref_cnt) auto
  then show ?thesis
    using b q' same_payload_sel [OF q'(3)]
    by (auto simp: touch_block_def pool_inv_def same_setup_def)
next
  case False
  have ok: "pool_ok p xs {}" using assms(1) by (simp add: pool_inv_def)
  have cond: "\<not> (rc p b = 0 \<and> \<not> is_null (pheap p (Blk b)))"
    using False assms(2) ok by (auto simp: pool_ok_def)
  have "b = 0 \<or> rc p b \<ge> 0" using ok by (cases "b = 0") (simp_all add: pool_ok_def)
  then have "b = 0 \<or> rc p b + 1 \<ge> 0" "in_pool p b \<Longrightarrow> rc p b + 1 \<noteq> 0" by auto
  then have "pool_ok (set_pheap (set_ref_cnt (Blk b) (rc p b + 1) (pheap p)) p) xs {}"
    using False by (intro pool_ok_set_ref_cnt [OF ok]) auto
  moreover have "filter (\<lambda>x. x \<noteq> b) xs = xs" using False by (auto simp: filter_id_conv)
  ultimately show ?thesis using cond by (auto simp: touch_block_def pool_inv_def)
qed

lemma touch_ok:
  assumes "pool_inv p xs" "\<And>b. b \<in> set bs \<Longrightarrow> b = 0 \<or> in_pool p b"
  shows "\<exists>p'. touch (map Blk bs) p = Inr p' \<and> pool_inv p' (filter (\<lambda>x. x \<notin> set bs) xs) \<and>
    same_setup p p' \<and> (\<forall>c. rc p' c = rc p c + int (count_list bs c)) \<and>
    (\<forall>c. hash_of p' c = hash_of p c) \<and>
    cached_block_hash_to_block p' = cached_block_hash_to_block p"
  using assms unfolding touch_def
proof (induction bs arbitrary: p xs)
  case Nil
  then show ?case by simp
next
  case (Cons b bs)
  obtain p1 where p1: "touch_block (Blk b) p = Inr p1" "pool_inv p1 (filter (\<lambda>x. x \<noteq> b) xs)"
    "same_setup p p1" "\<And>c. rc p1 c = rc p c + (if c = b then 1 else 0)"
    "\<And>c. hash_of p1 c = hash_of p c"
    "cached_block_hash_to_block p1 = cached_block_hash_to_block p"
    using touch_block_ok [of p xs b] Cons.prems by auto
  have "\<And>c. c \<in> set bs \<Longrightarrow> c = 0 \<or> in_pool p1 c"
    using Cons.prems(2) p1(3) by (auto simp: same_setup_def)
  from Cons.IH [OF p1(2) this] obtain p' where p': "rfold touch_block (map Blk bs) p1 = Inr p'"
    "pool_inv p' (filter (\<lambda>x. x \<notin> set bs) (filter (\<lambda>x. x \<noteq> b) xs))" "same_setup p1 p'"
    "\<And>c. rc p' c = rc p1 c + int (count_list bs c)" "\<And>c. hash_of p' c = hash_of p1 c"
    "cached_block_hash_to_block p' = cached_block_hash_to_block p1" by auto
  have "filter (\<lambda>x. x \<notin> set bs) (filter (\<lambda>x. x \<noteq> b) xs) = filter (\<lambda>x. x \<notin> set (b # bs)) xs"
    by (auto intro: filter_cong)
  then show ?case using p1 p' same_setup_trans by auto
qed

lemma fold_dec_ref_sel:
  "ref_cnt (fold dec_ref (map Blk bs) h (Blk b)) = ref_cnt (h (Blk b)) - int (count_list bs b)"
  "block_hash (fold dec_ref (map Blk bs) h r) = block_hash (h r)"
  "block_id (fold dec_ref (map Blk bs) h r) = block_id (h r)"
  "is_null (fold dec_ref (map Blk bs) h r) = is_null (h r)"
  "prev_free_block (fold dec_ref (map Blk bs) h r) = prev_free_block (h r)"
  "next_free_block (fold dec_ref (map Blk bs) h r) = next_free_block (h r)"
  by (induction bs arbitrary: h) (auto simp: dec_ref_def set_ref_cnt_def)

lemma count_list_distinct: "distinct bs \<Longrightarrow> count_list bs b = (if b \<in> set bs then 1 else 0)"
  by (induction bs) auto

text \<open>The blocks a free makes available: those whose last reference it drops.\<close>

definition last_refs :: "BlockPool \<Rightarrow> nat list \<Rightarrow> nat list" where
  "last_refs p bs = filter (\<lambda>b. 0 < b \<and> rc p b = 1) bs"

definition freeable :: "BlockPool \<Rightarrow> nat list \<Rightarrow> bool" where
  "freeable p bs \<longleftrightarrow>
     distinct (filter (\<lambda>b. 0 < b) bs) \<and> (\<forall>b \<in> set bs. 0 < b \<longrightarrow> in_pool p b \<and> rc p b \<ge> 1)"

lemma count_list_filter: "P b \<Longrightarrow> count_list (filter P bs) b = count_list bs b"
  by (induction bs) auto

lemma free_blocks_ok:
  assumes "pool_inv p xs" "freeable p bs"
  shows "\<exists>p'. free_blocks (map Blk bs) p = Inr p' \<and> pool_inv p' (xs @ last_refs p bs) \<and>
    same_setup p p' \<and> (\<forall>c. rc p' c = rc p c - int (count_list bs c)) \<and>
    (\<forall>c. hash_of p' c = hash_of p c) \<and>
    cached_block_hash_to_block p' = cached_block_hash_to_block p"
proof -
  let ?h = "fold dec_ref (map Blk bs) (pheap p)" and ?ys = "last_refs p bs"
  let ?p1 = "set_pheap ?h p"
  have ok: "pool_ok p xs {}" using assms(1) by (simp add: pool_inv_def)
  have cnt: "count_list bs b = (if b \<in> set bs then 1 else 0)" if "0 < b" for b
    using that assms(2) count_list_distinct [of "filter (\<lambda>b. 0 < b) bs" b]
      count_list_filter [of "\<lambda>b. 0 < b" b bs] by (auto simp: freeable_def)
  have ys: "filter (\<lambda>b. ref_cnt (?h b) = 0 \<and> \<not> is_null (?h b)) (map Blk bs) = map Blk ?ys"
  proof -
    have "filter (\<lambda>x. rc p x = int (count_list bs x) \<and> 0 < x) bs =
        filter (\<lambda>b. 0 < b \<and> rc p b = 1) bs"
      using cnt by (intro filter_cong) auto
    moreover have "is_null (pheap p (Blk b)) \<longleftrightarrow> b = 0" for b using ok by (simp add: pool_ok_def)
    ultimately show ?thesis
      by (simp add: filter_map fold_dec_ref_sel last_refs_def o_def)
  qed
  have "same_links (pheap p) ?h" by (simp add: same_links_def fold_dec_ref_sel)
  then have q: "fq_repr (free_block_queue ?p1) xs"
    using ok by (simp add: fq_repr_set_pheap pool_ok_def)
  have D: "rc ?p1 b = 0 \<and> b \<notin> set ?ys \<longleftrightarrow> rc p b = 0" if "in_pool p b" for b
    using that cnt [of b] assms(2) by (auto simp: fold_dec_ref_sel last_refs_def freeable_def)
  have ge: "rc ?p1 b \<ge> 0" if "0 < b" for b
    using that cnt [of b] assms(2) ok by (auto simp: fold_dec_ref_sel freeable_def pool_ok_def)
  have ok1: "pool_ok ?p1 xs (set ?ys)"
    using ok q D ge by (auto simp: pool_ok_def fold_dec_ref_sel(2-) ids_ok_def)
  have "distinct ?ys" "set xs \<inter> set ?ys = {}"
    using assms(2) ok distinct_filter [of "filter (\<lambda>b. 0 < b) bs" "\<lambda>b. rc p b = 1"]
    by (auto simp: last_refs_def freeable_def pool_ok_def conj_commute)
  then obtain q' where q': "append_n (map Blk ?ys) (free_block_queue ?p1) = Inr q'"
    "fq_repr q' (xs @ ?ys)" "same_payload (pheap ?p1) (heap q')"
    using append_n_append [OF q] by blast
  have in_ys: "in_pool p b \<and> rc ?p1 b = 0" if "b \<in> set ?ys" for b
    using that cnt [of b] assms(2) by (auto simp: last_refs_def freeable_def fold_dec_ref_sel)
  have "pool_ok (?p1\<lparr>free_block_queue := q'\<rparr>) (xs @ ?ys) {}"
    using ok1 in_ys by (intro pool_ok_queue [OF ok1 q'(2,3)]) (auto simp: pool_ok_def)
  moreover have "free_blocks (map Blk bs) p = Inr (?p1\<lparr>free_block_queue := q'\<rparr>)"
    unfolding free_blocks_def Let_def ys using q'(1) by simp
  ultimately show ?thesis
    using same_payload_sel [OF q'(3)]
    by (auto simp: pool_inv_def fold_dec_ref_sel same_setup_def)
qed

end
