(* ===== verification/PoolOps.thy ===== *)
theory PoolOps
  imports PoolInvariant
begin

text \<open>
  The remaining pool operations against the invariant (construction, caching of full
  blocks, eviction, reset) and the properties of the pool.
\<close>

section \<open>Construction\<close>

lemma BlockPool_init_ok:
  assumes "n > 0"
  shows "\<exists>p. BlockPool_init n caching hbs ev = Inr p \<and> pool_inv p [1..<nat n] \<and>
    num_gpu_blocks p = n \<and> enable_caching p = caching \<and> hash_block_size p = hbs \<and>
    enable_kv_cache_events p = ev \<and> (\<forall>b. rc p b = 0 \<and> hash_of p b = None)"
proof -
  let ?h = "\<lambda>r. case r of Blk i \<Rightarrow> new_KVCacheBlock (int i) | _ \<Rightarrow> new_KVCacheBlock (- 1)"
  let ?q = "FreeKVCacheBlockQueue_init (map Blk [0..<nat n]) ?h"
  have u: "unlinked ?h b" for b by (simp add: unlinked_def new_KVCacheBlock_def)
  have "[0..<nat n] = 0 # [1..<nat n]" using assms by (simp add: upt_conv_Cons)
  then have "fq_repr ?q (0 # [1..<nat n])"
    using FreeKVCacheBlockQueue_init_repr(1) [of ?h "nat n"] u by metis
  then obtain q where q: "popleft ?q = Inr (Blk 0, q)" "fq_repr q [1..<nat n]"
    "same_payload (heap ?q) (heap q)"
    using popleft_Cons by blast
  have pl: "same_payload ?h (heap q)"
    using FreeKVCacheBlockQueue_init_repr(2) [of ?h "nat n"] u q(3) same_payload_trans by blast
  let ?h' = "(heap q)(Blk 0 := (heap q (Blk 0))\<lparr>is_null := True\<rparr>)"
  have "same_links (heap q) ?h'" by (simp add: same_links_def)
  then have fq: "fq_repr (q\<lparr>heap := ?h'\<rparr>) [1..<nat n]"
    using q(2) by (simp add: fq_repr_cong_links)
  note sel = same_payload_sel [OF pl]
  have "bm.agrees Map.empty (\<lambda>b. block_hash (?h' (Blk b)))"
    by (simp add: bm.agrees_def bmap_wf_def bmap_listed_def sel new_KVCacheBlock_def)
  then have "pool_inv \<lparr>num_gpu_blocks = n, enable_caching = caching, hash_block_size = hbs,
      blocks = map Blk [0..<nat n], free_block_queue = q\<lparr>heap := ?h'\<rparr>,
      cached_block_hash_to_block = Map.empty, null_block = Blk 0,
      enable_kv_cache_events = ev, kv_event_queue = []\<rparr> [1..<nat n]"
    using assms fq
    by (auto simp: pool_inv_def pool_ok_def ids_ok_def sel new_KVCacheBlock_def)
  moreover have "ref_cnt (heap q (Blk b)) = 0" "block_hash (heap q (Blk b)) = None" for b
    by (simp_all add: sel new_KVCacheBlock_def)
  ultimately show ?thesis
    using assms q(1) by (auto simp: BlockPool_init_def Let_def)
qed

section \<open>Caching full blocks\<close>

definition group_key :: "bytes \<Rightarrow> int \<Rightarrow> bytes" where
  "group_key h g = projr (make_block_hash_with_group_id h g)"

lemma make_group_key:
  "0 \<le> g \<Longrightarrow> g < 2 ^ 32 \<Longrightarrow> make_block_hash_with_group_id h g = Inr (group_key h g)"
  using make_key_ok [of g h] by (auto simp: group_key_def)

definition cacheable :: "BlockPool \<Rightarrow> nat list \<Rightarrow> bool" where
  "cacheable p bs \<longleftrightarrow> distinct (filter (\<lambda>b. 0 < b) bs) \<and>
     (\<forall>b \<in> set bs. 0 < b \<longrightarrow> in_pool p b \<and> hash_of p b = None)"

lemma cache_one_block_ok:
  assumes "pool_inv p xs" "b = 0 \<or> in_pool p b \<and> hash_of p b = None" "i < length hs"
    and "0 \<le> g" "g < 2 ^ 32"
  shows "\<exists>p' nh'. cache_one_block cfg hs g (i, Blk b) (p, nh) = Inr (p', nh') \<and>
    pool_inv p' xs \<and> same_setup p p' \<and> (\<forall>c. rc p' c = rc p c) \<and>
    (\<forall>c. hash_of p' c = (if c = b \<and> 0 < b then Some (group_key (hs ! i) g) else hash_of p c))"
proof (cases "b = 0")
  case True
  then show ?thesis using assms(1)
    by (simp add: cache_one_block_def pool_inv_def pool_ok_def)
next
  case False
  let ?k = "group_key (hs ! i) g"
  have ok: "pool_ok p xs {}" using assms(1) by (simp add: pool_inv_def)
  have b: "in_pool p b" "hash_of p b = None" using assms(2) False by auto
  have n: "\<not> is_null (pheap p (Blk b))" using ok False by (simp add: pool_ok_def)
  let ?h = "(pheap p)(Blk b := (pheap p (Blk b))\<lparr>block_hash := Some ?k\<rparr>)"
  have sh: "set_block_hash (Blk b) ?k (pheap p) = Inr ?h"
    using b(2) by (simp add: set_block_hash_def)
  show ?thesis
    using pool_ok_cache [OF ok b sh] n b assms(3) sh
    by (auto simp: cache_one_block_def make_group_key [OF assms(4,5)] py_get_nonneg Let_def
        pool_inv_def same_setup_def)
qed

lemma cache_loop_ok:
  assumes "pool_inv p xs" "cacheable p bs" "i + length bs \<le> length hs" "0 \<le> g" "g < 2 ^ 32"
  shows "\<exists>p' nh'. rfold (cache_one_block cfg hs g) (enumerate i (map Blk bs)) (p, nh) = Inr (p', nh') \<and>
    pool_inv p' xs \<and> same_setup p p' \<and> (\<forall>c. rc p' c = rc p c) \<and>
    (\<forall>c. c = 0 \<or> c \<notin> set bs \<longrightarrow> hash_of p' c = hash_of p c) \<and>
    (\<forall>j < length bs. 0 < bs ! j \<longrightarrow> hash_of p' (bs ! j) = Some (group_key (hs ! (i + j)) g))"
  using assms(1-3)
proof (induction bs arbitrary: i p nh)
  case Nil
  then show ?case by simp
next
  case (Cons b bs)
  have b: "b = 0 \<or> in_pool p b \<and> hash_of p b = None"
    using Cons.prems(2) by (auto simp: cacheable_def)
  have i: "i < length hs" using Cons.prems(3) by simp
  obtain p1 nh1 where p1: "cache_one_block cfg hs g (i, Blk b) (p, nh) = Inr (p1, nh1)"
    "pool_inv p1 xs" "same_setup p p1" "\<And>c. rc p1 c = rc p c"
    "\<And>c. hash_of p1 c = (if c = b \<and> 0 < b then Some (group_key (hs ! i) g) else hash_of p c)"
    using cache_one_block_ok [OF Cons.prems(1) b i assms(4,5), of cfg nh] by blast
  have "cacheable p1 bs"
    using Cons.prems(2) p1(3,5) by (auto simp: cacheable_def same_setup_def split: if_splits)
  from Cons.IH [OF p1(2) this, of "Suc i" nh1] Cons.prems(3)
  obtain p' nh' where p': "rfold (cache_one_block cfg hs g) (enumerate (Suc i) (map Blk bs)) (p1, nh1)
      = Inr (p', nh')" "pool_inv p' xs" "same_setup p1 p'" "\<And>c. rc p' c = rc p1 c"
    "\<And>c. c = 0 \<or> c \<notin> set bs \<Longrightarrow> hash_of p' c = hash_of p1 c"
    "\<And>j. j < length bs \<Longrightarrow> 0 < bs ! j \<Longrightarrow> hash_of p' (bs ! j) = Some (group_key (hs ! (Suc i + j)) g)"
    by auto
  have nb: "b \<notin> set bs" if "0 < b" using that Cons.prems(2) by (auto simp: cacheable_def)
  have "hash_of p' ((b # bs) ! j) = Some (group_key (hs ! (i + j)) g)"
    if "j < length (b # bs)" "0 < (b # bs) ! j" for j
  proof (cases j)
    case 0
    then show ?thesis using that nb p'(5) [of b] p1(5) [of b] by auto
  next
    case (Suc j')
    then show ?thesis using that p'(6) [of j'] by auto
  qed
  then show ?case
    using p1 p'(1-5) same_setup_trans by auto
qed

lemma event_extra_keys_ok:
  assumes "mm_sorted (mm_features r)" "memo_ok cfg r" "0 < bsz" "sorted is"
    and "\<And>i. i \<in> set is \<Longrightarrow> 0 \<le> i \<and> i < len bs" "mm_idx_ok (mm_features r) mm s"
    and "\<And>i. i \<in> set is \<Longrightarrow> s \<le> i * bsz" "distinct is"
  shows "\<exists>ks m. event_extra_keys cfg h bs bsz is mm r = Inr (ks, with_memo r m) \<and>
    memo_ok cfg (with_memo r m)"
  using assms
proof (induction "is" arbitrary: r mm s)
  case Nil
  then show ?case by (intro exI [of _ "[]"] exI [of _ "prompt_embeds_per_block_hashes r"]) simp
next
  case (Cons i "is")
  have g: "py_get bs i = Inr (bs ! nat i)" using Cons.prems(5) by (simp add: py_get_nonneg)
  show ?case
  proof (cases "is_null (h (bs ! nat i))")
    case True
    then show ?thesis using g Cons.IH [OF Cons.prems(1-3) _ _ Cons.prems(6)] Cons.prems by auto
  next
    case False
    let ?s = "i * bsz" and ?e = "i * bsz + bsz"
    obtain mm' m where k: "generate_block_hash_extra_keys cfg r ?s ?e mm =
        Inr (extra_keys_spec cfg r ?s ?e, mm', with_memo r m)"
      "mm_idx_ok (mm_features r) mm' ?e" "memo_ok cfg (with_memo r m)"
      using generate_block_hash_extra_keys_spec [of r ?s ?e mm cfg] Cons.prems
        mm_idx_ok_mono [OF Cons.prems(6), of ?s] by auto
    have "?e \<le> j * bsz" if "j \<in> set is" for j
    proof -
      have "i + 1 \<le> j" using that Cons.prems(4,8) by (auto simp: le_less)
      then have "(i + 1) * bsz \<le> j * bsz" using Cons.prems(3) by (intro mult_right_mono) simp_all
      then show ?thesis by (simp add: algebra_simps)
    qed
    then obtain ks m' where "event_extra_keys cfg h bs bsz is mm' (with_memo r m) =
        Inr (ks, with_memo (with_memo r m) m')" "memo_ok cfg (with_memo (with_memo r m) m')"
      using Cons.IH [of "with_memo r m" mm' ?e] Cons.prems k(2,3) by auto
    then show ?thesis using g False k(1) by auto
  qed
qed

text \<open>The hashes of a request at the granularity of a group's block size.\<close>

definition group_hashes :: "int \<Rightarrow> int \<Rightarrow> bytes list \<Rightarrow> BlockHashList" where
  "group_hashes bsz hbs hs =
     (if bsz = hbs then PlainHashes hs
      else ScaledHashes \<lparr>bl_block_hashes = hs, scale_factor = bsz div hbs\<rparr>)"

lemma bhl_len_iter: "0 \<le> bhl_len b \<Longrightarrow> len (bhl_iter b) = bhl_len b"
  by (cases b) (simp_all add: bl_iter_def)

lemma upto_drop: "0 \<le> a \<Longrightarrow> a \<le> n \<Longrightarrow> drop (nat a) [0..n - 1] = [a..n - 1 :: int]"
proof -
  assume a: "0 \<le> a" "a \<le> n"
  show ?thesis
  proof (cases "a = n")
    case False
    then have "[0..n - 1] = [0..a - 1] @ [a..n - 1]" using a by (intro upto_split1) auto
    then show ?thesis using a by simp
  qed (use a in simp)
qed

lemma bhl_from_iter:
  "0 \<le> a \<Longrightarrow> a \<le> bhl_len b \<Longrightarrow> bhl_from b a = drop (nat a) (bhl_iter b)"
proof (cases b)
  case (ScaledHashes x)
  assume "0 \<le> a" "a \<le> bhl_len b"
  then show ?thesis using ScaledHashes
    by (simp add: bl_from_def bl_iter_def slice_bound_def drop_map upto_drop)
qed (simp add: py_from_nonneg)

lemma bhl_get_ok: "0 \<le> i \<Longrightarrow> i < bhl_len b \<Longrightarrow> \<exists>x. bhl_get b i = Inr x"
  by (cases b) (simp_all add: py_get_nonneg)

definition cache_request_ok :: "hash_cfg \<Rightarrow> Request \<Rightarrow> int \<Rightarrow> int \<Rightarrow> int \<Rightarrow> bool" where
  "cache_request_ok cfg r bsz hbs num_full \<longleftrightarrow>
     0 < bsz \<and> bsz mod hbs = 0 \<and> num_full \<le> len (block_hashes r) \<and>
     num_full \<le> bhl_len (group_hashes bsz hbs (block_hashes r)) \<and>
     mm_sorted (mm_features r) \<and> memo_ok cfg r"

lemma group_hashes_code:
  assumes "bsz mod hbs = 0"
  shows "(if bsz = hbs then Inr (PlainHashes hs)
      else py_assert (bsz mod hbs = 0)
        (rbind (BlockHashListWithBlockSize_init hs hbs bsz) (\<lambda>b. Inr (ScaledHashes b)))) =
    Inr (group_hashes bsz hbs hs)"
  using assms by (simp add: group_hashes_def BlockHashListWithBlockSize_init_def)

lemma cache_full_blocks_ok:
  assumes "pool_inv p xs" "0 \<le> nc" "nc < nf" "nf \<le> len bs"
    and "cacheable p (take (nat nf - nat nc) (drop (nat nc) bs))"
    and "cache_request_ok cfg r bsz (hash_block_size p) nf" "0 \<le> g" "g < 2 ^ 32"
  shows "\<exists>p' m. cache_full_blocks cfg r (map Blk bs) nc nf bsz g p = Inr (with_memo r m, p') \<and>
    memo_ok cfg (with_memo r m) \<and> pool_inv p' xs \<and> same_setup p p' \<and> (\<forall>c. rc p' c = rc p c) \<and>
    (\<forall>c. c = 0 \<or> c \<notin> set (take (nat nf - nat nc) (drop (nat nc) bs)) \<longrightarrow>
       hash_of p' c = hash_of p c) \<and>
    (\<forall>j < nat nf - nat nc. 0 < bs ! (nat nc + j) \<longrightarrow> hash_of p' (bs ! (nat nc + j)) =
       Some (group_key (bhl_iter (group_hashes bsz (hash_block_size p) (block_hashes r)) ! (nat nc + j)) g))"
proof -
  let ?H = "group_hashes bsz (hash_block_size p) (block_hashes r)"
  let ?nb = "take (nat nf - nat nc) (drop (nat nc) bs)"
  let ?hs = "bhl_from ?H nc"
  have r: "0 < bsz" "nf \<le> len (block_hashes r)" "nf \<le> bhl_len ?H" "mm_sorted (mm_features r)"
    "memo_ok cfg r" and gh: "bsz mod hash_block_size p = 0"
    using assms(6) by (auto simp: cache_request_ok_def)
  have hs: "?hs = drop (nat nc) (bhl_iter ?H)" using assms(2,3) r(3) by (intro bhl_from_iter) auto
  have nbl: "length ?nb = nat nf - nat nc" using assms(2-4) by auto
  have "len (bhl_iter ?H) = bhl_len ?H" using assms(2,3) r(3) by (intro bhl_len_iter) simp
  then have "nat nf \<le> length (bhl_iter ?H)" using r(3) by linarith
  then have hl: "0 + length ?nb \<le> length ?hs" unfolding hs nbl by simp
  obtain p1 nh where p1: "rfold (cache_one_block cfg ?hs g) (enumerate 0 (map Blk ?nb)) (p, []) = Inr (p1, nh)"
    "pool_inv p1 xs" "same_setup p p1" "\<And>c. rc p1 c = rc p c"
    "\<And>c. c = 0 \<or> c \<notin> set ?nb \<Longrightarrow> hash_of p1 c = hash_of p c"
    "\<And>j. j < length ?nb \<Longrightarrow> 0 < ?nb ! j \<Longrightarrow> hash_of p1 (?nb ! j) = Some (group_key (?hs ! (0 + j)) g)"
    using cache_loop_ok [OF assms(1,5) hl assms(7,8), of cfg "[]"] by blast
  have slice: "py_slice (map Blk bs) nc nf = map Blk ?nb"
    using assms(2,3) by (simp add: py_slice_nonneg take_map drop_map)
  have hash: "hash_of p1 (bs ! (nat nc + j)) = Some (group_key (bhl_iter ?H ! (nat nc + j)) g)"
    if "j < nat nf - nat nc" "0 < bs ! (nat nc + j)" for j
  proof -
    have "nat nc \<le> length bs" "nat nc \<le> length (bhl_iter ?H)"
      using assms(2-4) hl that(1) unfolding hs nbl by auto
    then have "?nb ! j = bs ! (nat nc + j)" "?hs ! (0 + j) = bhl_iter ?H ! (nat nc + j)"
      unfolding hs using that(1) by simp_all
    then show ?thesis using p1(6) [of j] that unfolding nbl by simp
  qed
  have "\<exists>p' m. cache_full_blocks cfg r (map Blk bs) nc nf bsz g p = Inr (with_memo r m, p') \<and>
      memo_ok cfg (with_memo r m) \<and> (p' = p1 \<or> (\<exists>e. p' = p1\<lparr>kv_event_queue := e\<rparr>))"
  proof (cases "enable_kv_cache_events p1")
    case False
    then show ?thesis using assms(3) r(2,5) slice p1(1)
      by (intro exI [of _ p1] exI [of _ "prompt_embeds_per_block_hashes r"])
        (simp add: cache_full_blocks_def group_hashes_code [OF gh])
  next
    case True
    have "\<exists>x. nc = 0 \<or> bhl_get ?H (nc - 1) = Inr x"
      using bhl_get_ok [of "nc - 1" ?H] assms(2,3) r(3) by (cases "nc = 0") auto
    moreover obtain ks m where m: "event_extra_keys cfg (pheap p1) (map Blk bs) bsz [nc..nf - 1] 0 r =
        Inr (ks, with_memo r m)" "memo_ok cfg (with_memo r m)"
      using assms(2-4) r event_extra_keys_ok [of r cfg bsz "[nc..nf - 1]" "map Blk bs" 0 0 "pheap p1"]
      by (auto simp: mm_idx_ok_start)
    ultimately have "\<exists>p'. cache_full_blocks cfg r (map Blk bs) nc nf bsz g p = Inr (with_memo r m, p') \<and>
        (p' = p1 \<or> (\<exists>e. p' = p1\<lparr>kv_event_queue := e\<rparr>))" using True assms(3) r(2) slice p1(1)
      by (auto simp: cache_full_blocks_def group_hashes_code [OF gh] split: if_splits)
    then show ?thesis using m(2) by blast
  qed
  then obtain p' m where p': "cache_full_blocks cfg r (map Blk bs) nc nf bsz g p = Inr (with_memo r m, p')"
    "memo_ok cfg (with_memo r m)" "p' = p1 \<or> (\<exists>e. p' = p1\<lparr>kv_event_queue := e\<rparr>)" by blast
  have "pool_inv p' xs" "same_setup p p'" "pheap p' = pheap p1"
    using p'(3) p1(2,3) pool_ok_events by (auto simp: pool_inv_def same_setup_def)
  then show ?thesis using p'(1,2) p1(4,5) hash by auto
qed

section \<open>Eviction and reset\<close>

lemma evict_blocks_ok:
  assumes "pool_inv p xs" "\<And>i. i \<in> set ids \<Longrightarrow> 0 \<le> i \<and> i < num_gpu_blocks p"
  shows "\<exists>p'. evict_blocks cfg ids p = Inr p' \<and> pool_inv p' xs \<and> same_setup p p' \<and>
    (\<forall>c. rc p' c = rc p c) \<and>
    (\<forall>c. hash_of p' c = (if int c \<in> set ids then None else hash_of p c))"
  using assms unfolding evict_blocks_def
proof (induction ids arbitrary: p)
  case Nil
  then show ?case by simp
next
  case (Cons i ids)
  have i: "0 \<le> i" "i < num_gpu_blocks p" using Cons.prems(2) by auto
  have bl: "blocks p = map Blk [0..<nat (num_gpu_blocks p)]" and ok: "pool_ok p xs {}"
    using Cons.prems(1) by (auto simp: pool_inv_def pool_ok_def)
  have g: "py_get (blocks p) i = Inr (Blk (nat i))" "i < len (blocks p)"
    using i by (simp_all add: py_get_nonneg bl)
  obtain p1 where p1: "maybe_evict_cached_block cfg (Blk (nat i)) p = (hash_of p (nat i) \<noteq> None, p1)"
    "pool_ok p1 xs {}" "same_setup p p1" "\<And>c. rc p1 c = rc p c"
    "\<And>c. hash_of p1 c = (if c = nat i then None else hash_of p c)"
    using pool_ok_evict [OF ok, of cfg "nat i"] by blast
  have "pool_inv p1 xs" "\<And>j. j \<in> set ids \<Longrightarrow> 0 \<le> j \<and> j < num_gpu_blocks p1"
    using p1(2,3) Cons.prems(2) by (auto simp: pool_inv_def same_setup_def)
  from Cons.IH [OF this] obtain p' where p': "rfold (evict_block_id cfg) ids p1 = Inr p'"
    "pool_inv p' xs" "same_setup p1 p'" "\<And>c. rc p' c = rc p1 c"
    "\<And>c. hash_of p' c = (if int c \<in> set ids then None else hash_of p1 c)" by auto
  have "evict_block_id cfg i p = Inr p1" using g p1(1) by (simp add: evict_block_id_def)
  then have "rfold (evict_block_id cfg) (i # ids) p = Inr p'" using p'(1) by simp
  moreover have "c = nat i \<longleftrightarrow> int c = i" for c using i by auto
  ultimately show ?case using p1(3-) p'(2-) same_setup_trans [of p p1 p'] by auto
qed

lemma fold_reset_hash_sel:
  "block_hash (fold reset_hash rs h r) = (if r \<in> set rs then None else block_hash (h r))"
  "ref_cnt (fold reset_hash rs h r) = ref_cnt (h r)"
  "block_id (fold reset_hash rs h r) = block_id (h r)"
  "is_null (fold reset_hash rs h r) = is_null (h r)"
  "prev_free_block (fold reset_hash rs h r) = prev_free_block (h r)"
  "next_free_block (fold reset_hash rs h r) = next_free_block (h r)"
  by (induction rs arbitrary: h) (auto simp: reset_hash_def)

lemma reset_prefix_cache_ok:
  assumes "pool_inv p xs" "len xs = num_gpu_blocks p - 1"
  shows "\<exists>p'. reset_prefix_cache p = (True, p') \<and> pool_inv p' xs \<and> same_setup p p' \<and>
    (\<forall>c. rc p' c = rc p c) \<and> (\<forall>c. hash_of p' c = None)"
proof -
  define h where "h = fold reset_hash (blocks p) (pheap p)"
  let ?p = "set_pheap h (p\<lparr>cached_block_hash_to_block := Map.empty\<rparr>)"
  have ok: "pool_ok p xs {}" using assms(1) by (simp add: pool_inv_def)
  have bl: "blocks p = map Blk [0..<nat (num_gpu_blocks p)]" using ok by (simp add: pool_ok_def)
  note sel = fold_reset_hash_sel [of "blocks p" "pheap p", folded h_def]
  have hn: "block_hash (h (Blk c)) = None" for c
  proof (cases "hash_of p c")
    case (Some k)
    then have "in_pool p c" using ok by (simp add: pool_ok_def)
    then have "Blk c \<in> set (blocks p)" by (auto simp: bl zless_nat_eq_int_zless)
    then show ?thesis by (simp add: sel)
  qed (simp add: sel)
  have "same_links (pheap p) h" by (simp add: same_links_def sel)
  then have "fq_repr (free_block_queue ?p) xs"
    using ok by (simp add: fq_repr_set_pheap pool_ok_def)
  moreover have "bm.agrees Map.empty (\<lambda>c. block_hash (h (Blk c)))"
    by (simp add: bm.agrees_def bmap_wf_def bmap_listed_def hn)
  ultimately have "pool_ok ?p xs {}"
    using ok by (simp add: pool_ok_def sel(2-) ids_ok_def hn)
  moreover have "num_gpu_blocks p - get_num_free_blocks p = 1"
    using assms by (simp add: pool_inv_free)
  ultimately show ?thesis
    by (simp add: reset_prefix_cache_def Let_def pool_inv_def pool_ok_events same_setup_def
        h_def [symmetric] hn sel(2))
qed

lemma reset_prefix_cache_busy:
  "pool_inv p xs \<Longrightarrow> len xs \<noteq> num_gpu_blocks p - 1 \<Longrightarrow> reset_prefix_cache p = (False, p)"
  by (simp add: reset_prefix_cache_def pool_inv_free)

section \<open>Lookup\<close>

lemma get_cached_block_ok:
  assumes "pool_inv p xs" "\<And>g. g \<in> set gs \<Longrightarrow> 0 \<le> g \<and> g < 2 ^ 32"
  shows "\<exists>r. get_cached_block h gs p = Inr r \<and>
    (case r of
       None \<Rightarrow> (\<exists>g \<in> set gs. \<forall>b. hash_of p b \<noteq> Some (group_key h g))
     | Some rs \<Rightarrow> \<exists>bs. rs = map Blk bs \<and>
         list_all2 (\<lambda>b g. in_pool p b \<and> hash_of p b = Some (group_key h g)) bs gs)"
  using assms(2)
proof (induction gs)
  case Nil
  then show ?case by simp
next
  case (Cons g gs)
  let ?k = "group_key h g"
  have k: "make_block_hash_with_group_id h g = Inr ?k" using Cons.prems by (simp add: make_group_key)
  have a: "bm.agrees (cached_block_hash_to_block p) (hash_of p)"
    and ip: "\<And>b k. hash_of p b = Some k \<Longrightarrow> in_pool p b"
    using assms(1) by (auto simp: pool_inv_def pool_ok_def)
  obtain r where r: "get_one_block ?k (cached_block_hash_to_block p) = Inr r"
    "case r of None \<Rightarrow> (\<forall>b. hash_of p b \<noteq> Some ?k) | Some x \<Rightarrow> \<exists>b. x = Blk b \<and> hash_of p b = Some ?k"
    using bm.agrees_get [OF a] by blast
  show ?case
  proof (cases r)
    case None
    then show ?thesis using r k by auto
  next
    case (Some x)
    then obtain b where b: "x = Blk b" "hash_of p b = Some ?k" using r(2) by auto
    obtain rs where rs: "get_cached_block h gs p = Inr rs"
      "case rs of None \<Rightarrow> (\<exists>g \<in> set gs. \<forall>b. hash_of p b \<noteq> Some (group_key h g))
        | Some rs \<Rightarrow> \<exists>bs. rs = map Blk bs \<and>
            list_all2 (\<lambda>b g. in_pool p b \<and> hash_of p b = Some (group_key h g)) bs gs"
      using Cons by auto
    show ?thesis
    proof (cases rs)
      case None
      then show ?thesis using rs r(1) Some k by auto
    next
      case (Some ys)
      then obtain bs where bs: "ys = map Blk bs"
        "list_all2 (\<lambda>b g. in_pool p b \<and> hash_of p b = Some (group_key h g)) bs gs"
        using rs(2) by auto
      then have "x # ys = map Blk (b # bs)"
        "list_all2 (\<lambda>b g. in_pool p b \<and> hash_of p b = Some (group_key h g)) (b # bs) (g # gs)"
        using b ip by auto
      moreover have "get_cached_block h (g # gs) p = Inr (Some (x # ys))"
        using rs(1) Some r(1) \<open>r = Some x\<close> k by simp
      ultimately show ?thesis by (auto intro!: exI [of _ "b # bs"])
    qed
  qed
qed

section \<open>Reachable pools\<close>

text \<open>The pool under any sequence of calls that respect the callers' side of the contract:
  touched blocks are blocks of the pool, freed blocks are referenced and given once,
  cached blocks are full and not hashed yet.\<close>

inductive pool_reach :: "hash_cfg \<Rightarrow> BlockPool \<Rightarrow> bool" for cfg where
  init: "BlockPool_init n caching hbs ev = Inr p \<Longrightarrow> pool_reach cfg p"
| alloc: "pool_reach cfg p \<Longrightarrow> 0 \<le> n \<Longrightarrow> get_new_blocks cfg n p = Inr (bs, p') \<Longrightarrow> pool_reach cfg p'"
| touch: "pool_reach cfg p \<Longrightarrow> (\<And>b. b \<in> set bs \<Longrightarrow> b = 0 \<or> in_pool p b) \<Longrightarrow>
    touch (map Blk bs) p = Inr p' \<Longrightarrow> pool_reach cfg p'"
| free: "pool_reach cfg p \<Longrightarrow> freeable p bs \<Longrightarrow> free_blocks (map Blk bs) p = Inr p' \<Longrightarrow>
    pool_reach cfg p'"
| cache: "pool_reach cfg p \<Longrightarrow> 0 \<le> nc \<Longrightarrow> nf \<le> len bs \<Longrightarrow>
    cacheable p (take (nat nf - nat nc) (drop (nat nc) bs)) \<Longrightarrow>
    cache_request_ok cfg r bsz (hash_block_size p) nf \<Longrightarrow> 0 \<le> g \<Longrightarrow> g < 2 ^ 32 \<Longrightarrow>
    cache_full_blocks cfg r (map Blk bs) nc nf bsz g p = Inr (r', p') \<Longrightarrow> pool_reach cfg p'"
| evict: "pool_reach cfg p \<Longrightarrow> (\<And>i. i \<in> set ids \<Longrightarrow> 0 \<le> i) \<Longrightarrow> evict_blocks cfg ids p = Inr p' \<Longrightarrow>
    pool_reach cfg p'"
| reset: "pool_reach cfg p \<Longrightarrow> reset_prefix_cache p = (ok, p') \<Longrightarrow> pool_reach cfg p'"
| events: "pool_reach cfg p \<Longrightarrow> take_events p = (evs, p') \<Longrightarrow> pool_reach cfg p'"

lemma evict_blocks_in_range:
  "evict_blocks cfg ids p = Inr p' \<Longrightarrow> pool_inv p xs \<Longrightarrow> i \<in> set ids \<Longrightarrow> i < num_gpu_blocks p"
  unfolding evict_blocks_def
proof (induction ids arbitrary: p)
  case (Cons j ids)
  from Cons.prems(1) obtain p1 where e: "evict_block_id cfg j p = Inr p1"
    and rest: "rfold (evict_block_id cfg) ids p1 = Inr p'"
    by (auto simp: rbind_eq_Inr)
  from e obtain b where p1: "j < len (blocks p)" "py_get (blocks p) j = Inr b"
    "p1 = snd (maybe_evict_cached_block cfg b p)"
    by (auto simp: evict_block_id_def res_Inr)
  have ok: "pool_ok p xs {}" using Cons.prems(2) by (simp add: pool_inv_def)
  then have bl: "blocks p = map Blk [0..<nat (num_gpu_blocks p)]" "num_gpu_blocks p > 0"
    by (auto simp: pool_ok_def)
  obtain c where c: "b = Blk c"
    using p1(2) by (auto simp: py_get_def bl split: if_splits)
  have "pool_inv p1 xs" "same_setup p p1"
    using pool_ok_evict [OF ok, of cfg c] p1(3) c by (auto simp: pool_inv_def)
  then show ?case
    using Cons.IH [OF rest] Cons.prems(3) p1(1) bl by (auto simp: same_setup_def)
qed simp

lemma pool_reach_inv: "pool_reach cfg p \<Longrightarrow> \<exists>xs. pool_inv p xs"
proof (induction rule: pool_reach.induct)
  case (init n caching hbs ev p)
  then have "n > 0" by (simp add: BlockPool_init_def py_assert_Inr)
  then show ?case using BlockPool_init_ok [of n caching hbs ev] init by auto
next
  case (alloc p n bs p')
  then obtain xs where xs: "pool_inv p xs" by blast
  then have "n \<le> len xs" using alloc.hyps get_new_blocks_too_many [OF xs, of n cfg] by force
  then show ?case using get_new_blocks_ok [OF xs alloc.hyps(2), of cfg] alloc.hyps by auto
next
  case (touch p bs p')
  then show ?case using touch_ok [of p _ bs] by fastforce
next
  case (free p bs p')
  then show ?case using free_blocks_ok [of p _ bs] by fastforce
next
  case (cache p nc nf bs r bsz g r' p')
  then obtain xs where xs: "pool_inv p xs" by blast
  show ?case
  proof (cases "nc < nf")
    case True
    then show ?thesis using cache_full_blocks_ok [OF xs cache.hyps(2) True cache.hyps(3-7)] cache.hyps(8)
      by auto
  next
    case False
    then show ?thesis using cache.hyps(8) xs by (auto simp: cache_full_blocks_def)
  qed
next
  case (evict p ids p')
  then obtain xs where xs: "pool_inv p xs" by blast
  have "\<And>i. i \<in> set ids \<Longrightarrow> 0 \<le> i \<and> i < num_gpu_blocks p"
    using evict.hyps(2) evict_blocks_in_range [OF evict.hyps(3) xs] by blast
  then show ?case using evict_blocks_ok [OF xs, of ids cfg] evict.hyps(3) by auto
next
  case (reset p ok p')
  then obtain xs where xs: "pool_inv p xs" by blast
  show ?case
    using reset_prefix_cache_ok [OF xs] reset_prefix_cache_busy [OF xs] reset.hyps(2) xs
    by (cases "len xs = num_gpu_blocks p - 1") auto
next
  case (events p evs p')
  then show ?case by (auto simp: take_events_def pool_inv_def pool_ok_events split: if_splits)
qed

section \<open>Properties\<close>

definition demo_pool :: BlockPool where
  "demo_pool = projr (BlockPool_init 4 True 2 False)"

lemma demo_pool_inv:
  "BlockPool_init 4 True 2 False = Inr demo_pool" "pool_inv demo_pool [1, 2, 3]"
  "num_gpu_blocks demo_pool = 4" "enable_caching demo_pool" "hash_block_size demo_pool = 2"
  "rc demo_pool b = 0" "hash_of demo_pool b = None"
proof -
  have "[1..<nat 4] = [1, 2, 3::nat]" by (simp add: upt_rec)
  then obtain p where p: "BlockPool_init 4 True 2 False = Inr p" "pool_inv p [1, 2, 3]"
    "num_gpu_blocks p = 4" "enable_caching p" "hash_block_size p = 2"
    "\<And>b. rc p b = 0 \<and> hash_of p b = None"
    using BlockPool_init_ok [of 4 True 2 False] by auto
  moreover have "demo_pool = p" using p(1) by (simp add: demo_pool_def)
  ultimately show "BlockPool_init 4 True 2 False = Inr demo_pool" "pool_inv demo_pool [1, 2, 3]"
    "num_gpu_blocks demo_pool = 4" "enable_caching demo_pool" "hash_block_size demo_pool = 2"
    "rc demo_pool b = 0" "hash_of demo_pool b = None"
    by auto
qed

text \<open>C7: under any sequence of pool operations, traversing the free queue ends and yields,
  without duplicates, exactly the blocks other than the null block whose reference count
  is zero; the counter of free blocks is its length; no count is negative; and the hash
  map lists a block under a key exactly when the block carries that hash.\<close>

theorem reachable_pool_consistent:
  assumes "pool_reach cfg p"
  shows "\<exists>xs. get_all_free_blocks (free_block_queue p) = Some (Inr (map Blk xs)) \<and> distinct xs \<and>
    (\<forall>b. b \<in> set xs \<longleftrightarrow> in_pool p b \<and> rc p b = 0) \<and> get_num_free_blocks p = len xs \<and>
    (\<forall>b. 0 < b \<longrightarrow> rc p b \<ge> 0) \<and>
    (\<forall>k b. b \<in> bmap_listed (cached_block_hash_to_block p) k \<longleftrightarrow> hash_of p b = Some k)"
proof -
  obtain xs where xs: "pool_inv p xs" using pool_reach_inv [OF assms] by blast
  then have "fq_repr (free_block_queue p) xs" by (simp add: pool_inv_def pool_ok_def)
  then show ?thesis
    using xs get_all_free_blocks_repr pool_inv_distinct [OF xs] pool_inv_free [OF xs]
    by (intro exI [of _ xs]) (simp add: pool_inv_def pool_ok_def bm.agrees_def)
qed

theorem reachable_pool_consistent_witness:
  "\<exists>xs. get_all_free_blocks (free_block_queue demo_pool) = Some (Inr (map Blk xs)) \<and> distinct xs \<and>
    get_num_free_blocks demo_pool = len xs"
  using reachable_pool_consistent [of demo_cfg demo_pool, OF pool_reach.init [OF demo_pool_inv(1)]]
  by blast

text \<open>C12: allocation.  Asking for more blocks than are free raises \<open>ValueError\<close>; otherwise
  the \<open>n\<close> least recently freed blocks are handed out, each with one reference, they leave
  the queue in order, and with caching enabled they lose their hash, so no later lookup
  finds their old content.  Nothing else changes.\<close>

theorem get_new_blocks_correct:
  assumes "pool_inv p xs" "0 \<le> n"
  shows "(n > len xs \<longrightarrow> get_new_blocks cfg n p = Inl ValueError) \<and>
    (n \<le> len xs \<longrightarrow> (\<exists>p'. get_new_blocks cfg n p = Inr (map Blk (take (nat n) xs), p') \<and>
       pool_inv p' (drop (nat n) xs) \<and>
       (\<forall>b. rc p' b = (if b \<in> set (take (nat n) xs) then 1 else rc p b)) \<and>
       (\<forall>b. hash_of p' b =
         (if enable_caching p \<and> b \<in> set (take (nat n) xs) then None else hash_of p b))))"
  using get_new_blocks_ok [OF assms] get_new_blocks_too_many [OF assms(1)] by blast

theorem get_new_blocks_correct_witness:
  "get_new_blocks demo_cfg 4 demo_pool = Inl ValueError \<and>
   (\<exists>p'. get_new_blocks demo_cfg 2 demo_pool = Inr ([Blk 1, Blk 2], p') \<and> pool_inv p' [3])"
  using get_new_blocks_correct [OF demo_pool_inv(2), of 4 demo_cfg]
    get_new_blocks_correct [OF demo_pool_inv(2), of 2 demo_cfg]
  by (auto simp: numeral_2_eq_2)

text \<open>C14: a prefix hit shares blocks.  Touching blocks of the pool takes the unreferenced
  ones out of the free queue, keeps the order of the others, adds one reference per
  occurrence, and changes neither hashes nor the hash map.\<close>

theorem touch_correct:
  assumes "pool_inv p xs" "\<forall>b \<in> set bs. b = 0 \<or> in_pool p b"
  shows "\<exists>p'. touch (map Blk bs) p = Inr p' \<and> pool_inv p' (filter (\<lambda>x. x \<notin> set bs) xs) \<and>
    (\<forall>c. rc p' c = rc p c + int (count_list bs c)) \<and> (\<forall>c. hash_of p' c = hash_of p c) \<and>
    cached_block_hash_to_block p' = cached_block_hash_to_block p"
  using touch_ok [OF assms(1), of bs] assms(2) by blast

theorem touch_correct_witness:
  "\<exists>p'. touch (map Blk [2, 0]) demo_pool = Inr p' \<and> pool_inv p' [1, 3]"
  using touch_correct [OF demo_pool_inv(2), of "[2, 0]"] by (auto simp: demo_pool_inv)

text \<open>C13: freeing.  When the references a caller gives back are held (and each block is given
  once), every count drops by one, and exactly the blocks that lose their last reference
  are appended to the free queue, in the order given, behind all blocks already there:
  the first block given is the first to be reused.  Hashes stay, so freed blocks can
  still be hit.\<close>

theorem free_blocks_correct:
  assumes "pool_inv p xs" "freeable p bs"
  shows "\<exists>p'. free_blocks (map Blk bs) p = Inr p' \<and>
    pool_inv p' (xs @ filter (\<lambda>b. 0 < b \<and> rc p b = 1) bs) \<and>
    (\<forall>c. rc p' c = rc p c - int (count_list bs c)) \<and> (\<forall>c. hash_of p' c = hash_of p c)"
  using free_blocks_ok [OF assms] unfolding last_refs_def by blast

theorem free_blocks_correct_witness:
  "\<exists>p1 p2. touch (map Blk [1, 3]) demo_pool = Inr p1 \<and> free_blocks (map Blk [3, 1, 0]) p1 = Inr p2 \<and>
    pool_inv p2 [2, 3, 1]"
proof -
  have "b \<in> set [1, 3] \<Longrightarrow> b = 0 \<or> in_pool demo_pool b" for b by (auto simp: demo_pool_inv)
  from touch_ok [OF demo_pool_inv(2) this, of "[1, 3]"]
  obtain p1 where p1: "touch (map Blk [1, 3]) demo_pool = Inr p1" "pool_inv p1 [2]"
    "same_setup demo_pool p1" "\<And>c. rc p1 c = int (count_list [1, 3] c)"
    by (auto simp: demo_pool_inv)
  have "num_gpu_blocks p1 = 4" using p1(3) by (simp add: same_setup_def demo_pool_inv)
  then have "freeable p1 [3, 1, 0]" using p1(4) by (simp add: freeable_def)
  from free_blocks_correct [OF p1(2) this] show ?thesis using p1(1,4) by auto
qed

lemma get_cached_block_hit:
  assumes "pool_inv p xs" "0 \<le> g" "g < 2 ^ 32" "hash_of p c = Some (group_key h g)"
  shows "\<exists>b. get_cached_block h [g] p = Inr (Some [Blk b]) \<and> in_pool p b \<and>
    hash_of p b = Some (group_key h g)"
proof -
  obtain r where r: "get_cached_block h [g] p = Inr r"
    "case r of
       None \<Rightarrow> (\<exists>g \<in> set [g]. \<forall>b. hash_of p b \<noteq> Some (group_key h g))
     | Some rs \<Rightarrow> \<exists>bs. rs = map Blk bs \<and>
         list_all2 (\<lambda>b g. in_pool p b \<and> hash_of p b = Some (group_key h g)) bs [g]"
    using get_cached_block_ok [OF assms(1), of "[g]" h] assms(2,3) by auto
  then show ?thesis using assms(4) by (cases r) (auto simp: list_all2_Cons2)
qed

text \<open>C15: caching full blocks makes them hittable.  Caching blocks \<open>nc\<close> to \<open>nf\<close> of a request
  raises nothing, leaves reference counts and the free queue alone, gives every block of
  the range other than the null block the key made of its hash (at the group's block
  size) and the group, and a lookup of that hash in that group then returns a block of
  the pool carrying that key.\<close>

theorem cached_blocks_are_hit:
  assumes "pool_inv p xs" "0 \<le> nc" "nc < nf" "nf \<le> len bs"
    and "cacheable p (take (nat nf - nat nc) (drop (nat nc) bs))"
    and "cache_request_ok cfg r bsz (hash_block_size p) nf" "0 \<le> g" "g < 2 ^ 32"
  shows "\<exists>p' r'. cache_full_blocks cfg r (map Blk bs) nc nf bsz g p = Inr (r', p') \<and>
    pool_inv p' xs \<and> (\<forall>c. rc p' c = rc p c) \<and>
    (\<forall>j. nat nc \<le> j \<and> j < nat nf \<and> 0 < bs ! j \<longrightarrow>
      (let h = bhl_iter (group_hashes bsz (hash_block_size p) (block_hashes r)) ! j in
       hash_of p' (bs ! j) = Some (group_key h g) \<and>
       (\<exists>b. get_cached_block h [g] p' = Inr (Some [Blk b]) \<and> in_pool p' b \<and>
            hash_of p' b = Some (group_key h g))))"
proof -
  let ?H = "bhl_iter (group_hashes bsz (hash_block_size p) (block_hashes r))"
  obtain p' m where p': "cache_full_blocks cfg r (map Blk bs) nc nf bsz g p = Inr (with_memo r m, p')"
    "pool_inv p' xs" "\<And>c. rc p' c = rc p c"
    "\<And>j. j < nat nf - nat nc \<Longrightarrow> 0 < bs ! (nat nc + j) \<Longrightarrow>
       hash_of p' (bs ! (nat nc + j)) = Some (group_key (?H ! (nat nc + j)) g)"
    using cache_full_blocks_ok [OF assms] by blast
  have "hash_of p' (bs ! j) = Some (group_key (?H ! j) g)"
    if "nat nc \<le> j" "j < nat nf" "0 < bs ! j" for j
    using p'(4) [of "j - nat nc"] that by simp
  then show ?thesis
    using p'(1-3) get_cached_block_hit [OF p'(2) assms(7,8)] unfolding Let_def by blast
qed

theorem cached_blocks_are_hit_witness:
  "\<exists>p1 p2 r' b. touch (map Blk [1, 2]) demo_pool = Inr p1 \<and>
    cache_full_blocks demo_cfg ((text_request ''a'' [5, 6, 7, 8])\<lparr>block_hashes := [[1], [2]]\<rparr>)
      (map Blk [1, 2]) 0 2 2 0 p1 = Inr (r', p2) \<and>
    get_cached_block [2] [0] p2 = Inr (Some [Blk b])"
proof -
  let ?r = "(text_request ''a'' [5, 6, 7, 8])\<lparr>block_hashes := [[1], [2]]\<rparr>"
  have "b \<in> set [1, 2] \<Longrightarrow> b = 0 \<or> in_pool demo_pool b" for b by (auto simp: demo_pool_inv)
  from touch_ok [OF demo_pool_inv(2) this, of "[1, 2]"]
  obtain p1 where p1: "touch (map Blk [1, 2]) demo_pool = Inr p1" "pool_inv p1 [3]"
    "same_setup demo_pool p1" "\<And>c. hash_of p1 c = None"
    by (auto simp: demo_pool_inv)
  have s: "num_gpu_blocks p1 = 4" "hash_block_size p1 = 2"
    using p1(3) by (simp_all add: same_setup_def demo_pool_inv)
  have c: "cacheable p1 (take (nat 2 - nat 0) (drop (nat 0) [1, 2]))"
    using p1(4) s by (simp add: cacheable_def)
  have q: "cache_request_ok demo_cfg ?r 2 (hash_block_size p1) 2"
    by (simp add: cache_request_ok_def s group_hashes_def text_request_def memo_ok_def)
  have l: "(2::int) \<le> len [1, 2::nat]" by simp
  have z: "(0::int) \<le> 0" "(0::int) < 2" "(0::int) < 2 ^ 32" by simp_all
  from cached_blocks_are_hit [OF p1(2) z(1,2) l c q z(1,3)]
  obtain p2 r' where p2: "cache_full_blocks demo_cfg ?r (map Blk [1, 2]) 0 2 2 0 p1 = Inr (r', p2)"
    and hit: "\<forall>j. nat 0 \<le> j \<and> j < nat 2 \<and> 0 < [1, 2::nat] ! j \<longrightarrow>
      (let h = bhl_iter (group_hashes 2 (hash_block_size p1) (block_hashes ?r)) ! j in
       hash_of p2 ([1, 2] ! j) = Some (group_key h 0) \<and>
       (\<exists>b. get_cached_block h [0] p2 = Inr (Some [Blk b]) \<and> in_pool p2 b \<and>
            hash_of p2 b = Some (group_key h 0)))"
    by blast
  from hit [rule_format, of 1] have "\<exists>b. get_cached_block [2] [0] p2 = Inr (Some [Blk b])"
    by (auto simp: s group_hashes_def Let_def simp del: get_cached_block.simps)
  then show ?thesis using p1(1) p2 by blast
qed

text \<open>C19: resetting the prefix cache succeeds exactly when every block but the null block is
  free, and then no lookup hits; otherwise it changes nothing.\<close>

theorem reset_prefix_cache_correct:
  assumes "pool_inv p xs"
  shows "(len xs \<noteq> num_gpu_blocks p - 1 \<longrightarrow> reset_prefix_cache p = (False, p)) \<and>
    (len xs = num_gpu_blocks p - 1 \<longrightarrow> (\<exists>p'. reset_prefix_cache p = (True, p') \<and> pool_inv p' xs \<and>
       (\<forall>h g gs. 0 \<le> g \<and> g < 2 ^ 32 \<longrightarrow> get_cached_block h (g # gs) p' = Inr None)))"
proof -
  have "get_cached_block h (g # gs) p' = Inr None"
    if "pool_inv p' xs" "\<And>c. hash_of p' c = None" "0 \<le> g" "g < 2 ^ 32" for p' h g gs
  proof -
    have "bm.agrees (cached_block_hash_to_block p') (hash_of p')"
      using that(1) by (simp add: pool_inv_def pool_ok_def)
    from bm.agrees_get [OF this, of "group_key h g"] show ?thesis
      using that(2-) by (auto simp: make_group_key split: option.splits)
  qed
  then show ?thesis
    using reset_prefix_cache_ok [OF assms] reset_prefix_cache_busy [OF assms] by blast
qed

theorem reset_prefix_cache_correct_witness:
  "\<exists>p'. reset_prefix_cache demo_pool = (True, p') \<and> get_cached_block [1] [0] p' = Inr None"
  using reset_prefix_cache_correct [OF demo_pool_inv(2)]
  by (auto simp: demo_pool_inv simp del: get_cached_block.simps)

end
