(* ===== verification/KVCacheInterface.thy ===== *)
theory KVCacheInterface
  imports Prelude
begin

text \<open>
  \<^verbatim>\<open>vllm/v1/kv_cache_interface.py\<close>: the specifications of the KV cache of a layer, the
  size of their pages, the memory a request needs at most, how the specifications of the
  layers of a group are merged, and the cache configuration made of them.  A class of the
  code is a constructor of \<open>KVCacheSpec\<close>; the fields it inherits are records.  The size in
  bytes of an element of a tensor type (\<^verbatim>\<open>get_dtype_size\<close>) is a parameter, \<open>dsz\<close>.
\<close>

section \<open>Quantization modes\<close>

datatype KVQuantMode = NONE | FP8_PER_TENSOR | INT8_PER_TOKEN_HEAD | FP8_PER_TOKEN_HEAD | NVFP4

definition is_per_token_head :: "KVQuantMode \<Rightarrow> bool" where
  "is_per_token_head q \<longleftrightarrow> q = INT8_PER_TOKEN_HEAD \<or> q = FP8_PER_TOKEN_HEAD"

definition is_nvfp4 :: "KVQuantMode \<Rightarrow> bool" where
  "is_nvfp4 q \<longleftrightarrow> q = NVFP4"

definition get_kv_quant_mode :: "string \<Rightarrow> KVQuantMode" where
  "get_kv_quant_mode s =
     (if s = ''int8_per_token_head'' then INT8_PER_TOKEN_HEAD
      else if s = ''fp8_per_token_head'' then FP8_PER_TOKEN_HEAD
      else if s = ''nvfp4'' then NVFP4
      else if take 3 s = ''fp8'' then FP8_PER_TENSOR
      else NONE)"

definition is_quantized_kv_cache :: "string \<Rightarrow> bool" where
  "is_quantized_kv_cache s \<longleftrightarrow> get_kv_quant_mode s \<noteq> NONE"

definition kv_cache_uses_per_token_head_scales :: "string \<Rightarrow> bool" where
  "kv_cache_uses_per_token_head_scales s = is_per_token_head (get_kv_quant_mode s)"

definition nvfp4_kv_cache_full_dim :: "int \<Rightarrow> int" where
  "nvfp4_kv_cache_full_dim head_size = head_size div 2 + head_size div 16"

section \<open>Specifications\<close>

type_synonym dtype = string

record AttentionSpec =
  attn_block_size :: int
  num_kv_heads :: int
  head_size :: int
  attn_dtype :: dtype
  kv_quant_mode :: KVQuantMode
  page_size_padded :: "int option"

record FullFields =
  head_size_v :: int
  full_sliding_window :: "int option"
  full_attention_chunk_size :: "int option"

record MLAFields =
  cache_dtype_str :: "string option"
  alignment :: "int option"
  compress_ratio :: int
  model_version :: "string option"

record MambaFields =
  mamba_block_size :: int
  shapes :: "int list list"
  dtypes :: "dtype list"
  mamba_page_size_padded :: "int option"
  mamba_type :: string
  mamba_cache_mode :: string
  num_speculative_blocks :: int

text \<open>\<open>SlidingWindowMLASpec\<close> overrides the initialisation that fills in \<open>head_size_v\<close>, so
  the field may stay unset there.\<close>

datatype KVCacheSpec =
    FullAttentionSpec AttentionSpec FullFields
  | TQFullAttentionSpec AttentionSpec FullFields int
  | MLAAttentionSpec AttentionSpec FullFields MLAFields
  | SinkFullAttentionSpec AttentionSpec FullFields "int option"
  | ChunkedLocalAttentionSpec AttentionSpec int
  | SlidingWindowSpec AttentionSpec int int
  | SlidingWindowMLASpec AttentionSpec int "int option" MLAFields
  | MambaSpec MambaFields
  | EncoderOnlyAttentionSpec AttentionSpec
  | CrossAttentionSpec AttentionSpec
  | UniformTypeKVCacheSpecs int "(string \<times> KVCacheSpec) list"

text \<open>\<open>isinstance\<close> tests, subclasses included.\<close>

fun is_FullAttentionSpec :: "KVCacheSpec \<Rightarrow> bool" where
  "is_FullAttentionSpec (FullAttentionSpec _ _) = True"
| "is_FullAttentionSpec (TQFullAttentionSpec _ _ _) = True"
| "is_FullAttentionSpec (MLAAttentionSpec _ _ _) = True"
| "is_FullAttentionSpec (SinkFullAttentionSpec _ _ _) = True"
| "is_FullAttentionSpec _ = False"

fun is_MLAAttentionSpec :: "KVCacheSpec \<Rightarrow> bool" where
  "is_MLAAttentionSpec (MLAAttentionSpec _ _ _) = True"
| "is_MLAAttentionSpec _ = False"

fun is_SlidingWindowSpec :: "KVCacheSpec \<Rightarrow> bool" where
  "is_SlidingWindowSpec (SlidingWindowSpec _ _ _) = True"
| "is_SlidingWindowSpec (SlidingWindowMLASpec _ _ _ _) = True"
| "is_SlidingWindowSpec _ = False"

fun is_SlidingWindowMLASpec :: "KVCacheSpec \<Rightarrow> bool" where
  "is_SlidingWindowMLASpec (SlidingWindowMLASpec _ _ _ _) = True"
| "is_SlidingWindowMLASpec _ = False"

fun is_ChunkedLocalAttentionSpec :: "KVCacheSpec \<Rightarrow> bool" where
  "is_ChunkedLocalAttentionSpec (ChunkedLocalAttentionSpec _ _) = True"
| "is_ChunkedLocalAttentionSpec _ = False"

fun is_MambaSpec :: "KVCacheSpec \<Rightarrow> bool" where
  "is_MambaSpec (MambaSpec _) = True"
| "is_MambaSpec _ = False"

fun is_CrossAttentionSpec :: "KVCacheSpec \<Rightarrow> bool" where
  "is_CrossAttentionSpec (CrossAttentionSpec _) = True"
| "is_CrossAttentionSpec _ = False"

fun attn_fields :: "KVCacheSpec \<Rightarrow> AttentionSpec option" where
  "attn_fields (FullAttentionSpec a _) = Some a"
| "attn_fields (TQFullAttentionSpec a _ _) = Some a"
| "attn_fields (MLAAttentionSpec a _ _) = Some a"
| "attn_fields (SinkFullAttentionSpec a _ _) = Some a"
| "attn_fields (ChunkedLocalAttentionSpec a _) = Some a"
| "attn_fields (SlidingWindowSpec a _ _) = Some a"
| "attn_fields (SlidingWindowMLASpec a _ _ _) = Some a"
| "attn_fields (EncoderOnlyAttentionSpec a) = Some a"
| "attn_fields (CrossAttentionSpec a) = Some a"
| "attn_fields _ = None"

fun full_fields :: "KVCacheSpec \<Rightarrow> FullFields option" where
  "full_fields (FullAttentionSpec _ f) = Some f"
| "full_fields (TQFullAttentionSpec _ f _) = Some f"
| "full_fields (MLAAttentionSpec _ f _) = Some f"
| "full_fields (SinkFullAttentionSpec _ f _) = Some f"
| "full_fields _ = None"

fun mla_fields :: "KVCacheSpec \<Rightarrow> MLAFields option" where
  "mla_fields (MLAAttentionSpec _ _ m) = Some m"
| "mla_fields (SlidingWindowMLASpec _ _ _ m) = Some m"
| "mla_fields _ = None"

fun sliding_window_of :: "KVCacheSpec \<Rightarrow> int option" where
  "sliding_window_of (SlidingWindowSpec _ w _) = Some w"
| "sliding_window_of (SlidingWindowMLASpec _ w _ _) = Some w"
| "sliding_window_of _ = None"

fun block_size :: "KVCacheSpec \<Rightarrow> int" where
  "block_size (MambaSpec m) = mamba_block_size m"
| "block_size (UniformTypeKVCacheSpecs n _) = n"
| "block_size spec = (case attn_fields spec of Some a \<Rightarrow> attn_block_size a | None \<Rightarrow> 0)"

definition storage_block_size :: "KVCacheSpec \<Rightarrow> int res" where
  "storage_block_size spec =
     (case mla_fields spec of
        Some m \<Rightarrow> py_raise_if (compress_ratio m = 0) ZeroDivisionError
                    (Inr (block_size spec div compress_ratio m))
      | None \<Rightarrow> Inr (block_size spec))"

section \<open>Page sizes\<close>

definition attention_real_page_size :: "(dtype \<Rightarrow> int) \<Rightarrow> AttentionSpec \<Rightarrow> int" where
  "attention_real_page_size dsz a =
     2 * attn_block_size a * num_kv_heads a * head_size a * dsz (attn_dtype a)"

definition full_real_page_size :: "(dtype \<Rightarrow> int) \<Rightarrow> AttentionSpec \<Rightarrow> int \<Rightarrow> int" where
  "full_real_page_size dsz a hv =
     (if is_nvfp4 (kv_quant_mode a)
      then let last_dim = nvfp4_kv_cache_full_dim (head_size a) + nvfp4_kv_cache_full_dim hv
           in attn_block_size a * num_kv_heads a * last_dim * dsz (attn_dtype a)
      else attn_block_size a * num_kv_heads a * (head_size a + hv) * dsz (attn_dtype a))"

fun real_page_size_bytes :: "(dtype \<Rightarrow> int) \<Rightarrow> KVCacheSpec \<Rightarrow> int res" where
  "real_page_size_bytes dsz (FullAttentionSpec a f) = Inr (full_real_page_size dsz a (head_size_v f))"
| "real_page_size_bytes dsz (SinkFullAttentionSpec a f _) = Inr (full_real_page_size dsz a (head_size_v f))"
| "real_page_size_bytes dsz (TQFullAttentionSpec a f tq_slot_size) =
     Inr (if tq_slot_size > 0 then attn_block_size a * num_kv_heads a * tq_slot_size
          else full_real_page_size dsz a (head_size_v f))"
| "real_page_size_bytes dsz (MLAAttentionSpec a f m) =
     (if cache_dtype_str m = Some ''fp8_ds_mla''
      then if model_version m = Some ''deepseek_v4''
           then rbind (storage_block_size (MLAAttentionSpec a f m)) (\<lambda>sbs. Inr (sbs * 584))
           else Inr (attn_block_size a * 656)
      else rbind (storage_block_size (MLAAttentionSpec a f m)) (\<lambda>sbs.
           Inr (sbs * num_kv_heads a * head_size a * dsz (attn_dtype a))))"
| "real_page_size_bytes dsz (SlidingWindowSpec a _ hv) =
     Inr (attn_block_size a * num_kv_heads a * (head_size a + hv) * dsz (attn_dtype a))"
| "real_page_size_bytes dsz (SlidingWindowMLASpec a w hv m) =
     (if model_version m = Some ''deepseek_v4''
      then rbind (storage_block_size (SlidingWindowMLASpec a w hv m)) (\<lambda>sbs. Inr (sbs * 584))
      else py_assert (model_version m = None)
        (rbind (storage_block_size (SlidingWindowMLASpec a w hv m)) (\<lambda>sbs.
         Inr (sbs * num_kv_heads a * head_size a * dsz (attn_dtype a)))))"
| "real_page_size_bytes dsz (ChunkedLocalAttentionSpec a _) = Inr (attention_real_page_size dsz a)"
| "real_page_size_bytes dsz (EncoderOnlyAttentionSpec a) = Inr (attention_real_page_size dsz a)"
| "real_page_size_bytes dsz (CrossAttentionSpec a) = Inr (attention_real_page_size dsz a)"
| "real_page_size_bytes dsz (MambaSpec _) = Inl AttributeError"
| "real_page_size_bytes dsz (UniformTypeKVCacheSpecs _ _) = Inl AttributeError"

definition attention_page_size :: "(dtype \<Rightarrow> int) \<Rightarrow> AttentionSpec \<Rightarrow> int res \<Rightarrow> int res" where
  "attention_page_size dsz a psize =
     rbind psize (\<lambda>r.
       let real_page_size = (if is_per_token_head (kv_quant_mode a)
             then r + 2 * attn_block_size a * num_kv_heads a * dsz ''float32'' else r)
       in case page_size_padded a of
            Some padded \<Rightarrow> py_assert (padded \<ge> real_page_size) (Inr padded)
          | None \<Rightarrow> Inr real_page_size)"

definition mamba_page_size :: "(dtype \<Rightarrow> int) \<Rightarrow> MambaFields \<Rightarrow> int res" where
  "mamba_page_size dsz m =
     (let page_size = sum_list (map (\<lambda>(shape, d). prod_list shape * dsz d) (zip (shapes m) (dtypes m)))
      in case mamba_page_size_padded m of
           Some padded \<Rightarrow> py_assert (padded \<ge> page_size) (Inr padded)
         | None \<Rightarrow> Inr page_size)"

fun page_size_bytes :: "(dtype \<Rightarrow> int) \<Rightarrow> KVCacheSpec \<Rightarrow> int res" where
  "page_size_bytes dsz (MambaSpec m) = mamba_page_size dsz m"
| "page_size_bytes dsz (UniformTypeKVCacheSpecs _ specs) =
     rbind (rmap (\<lambda>x. page_size_bytes dsz (snd x)) specs) (\<lambda>xs. Inr (sum_list xs))"
| "page_size_bytes dsz spec =
     (case attn_fields spec of
        Some a \<Rightarrow> attention_page_size dsz a (real_page_size_bytes dsz spec)
      | None \<Rightarrow> Inl NotImplementedError)"

section \<open>Construction\<close>

text \<open>The dataclass initialisers: \<open>head_size_v\<close> defaults to \<open>head_size\<close>, and a page of an
  aligned MLA layer is padded to a multiple of the alignment.\<close>

definition default_head_size_v :: "AttentionSpec \<Rightarrow> int option \<Rightarrow> int" where
  "default_head_size_v a hv = (case hv of None \<Rightarrow> head_size a | Some v \<Rightarrow> v)"

definition new_FullAttentionSpec ::
    "AttentionSpec \<Rightarrow> int option \<Rightarrow> int option \<Rightarrow> int option \<Rightarrow> KVCacheSpec" where
  "new_FullAttentionSpec a hv sw ck =
     FullAttentionSpec a \<lparr>head_size_v = default_head_size_v a hv, full_sliding_window = sw,
                          full_attention_chunk_size = ck\<rparr>"

definition new_SlidingWindowSpec :: "AttentionSpec \<Rightarrow> int \<Rightarrow> int option \<Rightarrow> KVCacheSpec" where
  "new_SlidingWindowSpec a w hv = SlidingWindowSpec a w (default_head_size_v a hv)"

definition apply_alignment_padding :: "(dtype \<Rightarrow> int) \<Rightarrow> KVCacheSpec \<Rightarrow> KVCacheSpec res" where
  "apply_alignment_padding dsz spec =
     (case mla_fields spec of
        None \<Rightarrow> Inl AttributeError
      | Some m \<Rightarrow>
         (case alignment m of
            None \<Rightarrow> Inr spec
          | Some al \<Rightarrow>
              rbind (real_page_size_bytes dsz spec) (\<lambda>actual_page_size.
              py_raise_if (al = 0) ZeroDivisionError
               (let padded_page_size = round_up actual_page_size al in
                if padded_page_size = actual_page_size then Inr spec
                else Inr (case spec of
                   MLAAttentionSpec a f m' \<Rightarrow>
                     MLAAttentionSpec (a\<lparr>page_size_padded := Some padded_page_size\<rparr>) f m'
                 | SlidingWindowMLASpec a w hv m' \<Rightarrow>
                     SlidingWindowMLASpec (a\<lparr>page_size_padded := Some padded_page_size\<rparr>) w hv m'
                 | _ \<Rightarrow> spec)))))"

definition new_MLAAttentionSpec ::
    "(dtype \<Rightarrow> int) \<Rightarrow> AttentionSpec \<Rightarrow> int option \<Rightarrow> int option \<Rightarrow> int option \<Rightarrow> MLAFields
     \<Rightarrow> KVCacheSpec res" where
  "new_MLAAttentionSpec dsz a hv sw ck m =
     apply_alignment_padding dsz
       (MLAAttentionSpec a \<lparr>head_size_v = default_head_size_v a hv, full_sliding_window = sw,
                            full_attention_chunk_size = ck\<rparr> m)"

definition new_SlidingWindowMLASpec ::
    "(dtype \<Rightarrow> int) \<Rightarrow> AttentionSpec \<Rightarrow> int \<Rightarrow> int option \<Rightarrow> MLAFields \<Rightarrow> KVCacheSpec res" where
  "new_SlidingWindowMLASpec dsz a w hv m = apply_alignment_padding dsz (SlidingWindowMLASpec a w hv m)"

text \<open>\<open>dataclasses.replace\<close> with a new block size runs the initialiser again.\<close>

fun copy_with_new_block_size :: "(dtype \<Rightarrow> int) \<Rightarrow> int \<Rightarrow> KVCacheSpec \<Rightarrow> KVCacheSpec res" where
  "copy_with_new_block_size dsz n (FullAttentionSpec a f) =
     Inr (FullAttentionSpec (a\<lparr>attn_block_size := n\<rparr>) f)"
| "copy_with_new_block_size dsz n (TQFullAttentionSpec a f t) =
     Inr (TQFullAttentionSpec (a\<lparr>attn_block_size := n\<rparr>) f t)"
| "copy_with_new_block_size dsz n (MLAAttentionSpec a f m) =
     apply_alignment_padding dsz (MLAAttentionSpec (a\<lparr>attn_block_size := n\<rparr>) f m)"
| "copy_with_new_block_size dsz n (SinkFullAttentionSpec a f l) =
     Inr (SinkFullAttentionSpec (a\<lparr>attn_block_size := n\<rparr>) f l)"
| "copy_with_new_block_size dsz n (ChunkedLocalAttentionSpec a c) =
     Inr (ChunkedLocalAttentionSpec (a\<lparr>attn_block_size := n\<rparr>) c)"
| "copy_with_new_block_size dsz n (SlidingWindowSpec a w hv) =
     Inr (SlidingWindowSpec (a\<lparr>attn_block_size := n\<rparr>) w hv)"
| "copy_with_new_block_size dsz n (SlidingWindowMLASpec a w hv m) =
     apply_alignment_padding dsz (SlidingWindowMLASpec (a\<lparr>attn_block_size := n\<rparr>) w hv m)"
| "copy_with_new_block_size dsz n (MambaSpec m) = Inr (MambaSpec (m\<lparr>mamba_block_size := n\<rparr>))"
| "copy_with_new_block_size dsz n (EncoderOnlyAttentionSpec a) =
     Inr (EncoderOnlyAttentionSpec (a\<lparr>attn_block_size := n\<rparr>))"
| "copy_with_new_block_size dsz n (CrossAttentionSpec a) =
     Inr (CrossAttentionSpec (a\<lparr>attn_block_size := n\<rparr>))"
| "copy_with_new_block_size dsz n (UniformTypeKVCacheSpecs _ specs) =
     Inr (UniformTypeKVCacheSpecs n specs)"

section \<open>Memory a request needs\<close>

text \<open>The settings of \<^verbatim>\<open>VllmConfig\<close> the KV cache code reads.\<close>

record VllmConfig =
  max_model_len :: int
  decode_context_parallel_size :: int
  prefill_context_parallel_size :: int
  max_num_batched_tokens :: int
  max_num_encoder_input_tokens :: int
  cfg_mamba_cache_mode :: string
  num_gpu_blocks_override :: "int option"
  cfg_block_size :: int
  cfg_hash_block_size :: "int option"
  enable_prefix_caching :: bool
  has_kv_transfer_config :: bool
  disable_hybrid_kv_cache_manager :: bool

fun max_admission_blocks_per_request :: "KVCacheSpec \<Rightarrow> int \<Rightarrow> int \<Rightarrow> int res" where
  "max_admission_blocks_per_request (ChunkedLocalAttentionSpec a chunk) batched mml =
     py_cdiv (min (chunk + batched) mml) (attn_block_size a)"
| "max_admission_blocks_per_request (SlidingWindowSpec a w _) batched mml =
     rbind (py_cdiv (min (w - 1 + batched) mml) (attn_block_size a)) (\<lambda>n. Inr (n + 1))"
| "max_admission_blocks_per_request (SlidingWindowMLASpec a w _ _) batched mml =
     rbind (py_cdiv (min (w - 1 + batched) mml) (attn_block_size a)) (\<lambda>n. Inr (n + 1))"
| "max_admission_blocks_per_request _ _ _ = Inl AttributeError"

definition full_max_memory :: "(dtype \<Rightarrow> int) \<Rightarrow> VllmConfig \<Rightarrow> KVCacheSpec \<Rightarrow> int res" where
  "full_max_memory dsz cfg spec =
     (let dcp = decode_context_parallel_size cfg; pcp = prefill_context_parallel_size cfg;
          mml = (if dcp * pcp > 1 then cdiv (max_model_len cfg) (dcp * pcp) else max_model_len cfg)
      in rbind (py_cdiv mml (block_size spec)) (\<lambda>n.
         rbind (page_size_bytes dsz spec) (\<lambda>page. Inr (n * page))))"

definition admission_max_memory :: "(dtype \<Rightarrow> int) \<Rightarrow> VllmConfig \<Rightarrow> KVCacheSpec \<Rightarrow> int res" where
  "admission_max_memory dsz cfg spec =
     rbind (max_admission_blocks_per_request spec (max_num_batched_tokens cfg) (max_model_len cfg))
       (\<lambda>n. rbind (page_size_bytes dsz spec) (\<lambda>page. Inr (n * page)))"

definition mamba_max_memory :: "(dtype \<Rightarrow> int) \<Rightarrow> VllmConfig \<Rightarrow> MambaFields \<Rightarrow> int res" where
  "mamba_max_memory dsz cfg m =
     (if cfg_mamba_cache_mode cfg = ''all''
      then rbind (py_cdiv (max_model_len cfg) (mamba_block_size m)) (\<lambda>n.
           rbind (mamba_page_size dsz m) (\<lambda>page. Inr (n * page)))
      else if cfg_mamba_cache_mode cfg = ''align''
      then rbind (mamba_page_size dsz m) (\<lambda>page. Inr (page * (2 + num_speculative_blocks m)))
      else rbind (mamba_page_size dsz m) (\<lambda>page. Inr (page * (1 + num_speculative_blocks m))))"

fun spec_max_memory_usage_bytes :: "(dtype \<Rightarrow> int) \<Rightarrow> VllmConfig \<Rightarrow> KVCacheSpec \<Rightarrow> int res" where
  "spec_max_memory_usage_bytes dsz cfg (MambaSpec m) = mamba_max_memory dsz cfg m"
| "spec_max_memory_usage_bytes dsz cfg (EncoderOnlyAttentionSpec _) = Inr 0"
| "spec_max_memory_usage_bytes dsz cfg (CrossAttentionSpec a) =
     rbind (py_cdiv (max_num_encoder_input_tokens cfg) (attn_block_size a)) (\<lambda>n.
     rbind (page_size_bytes dsz (CrossAttentionSpec a)) (\<lambda>page. Inr (n * page)))"
| "spec_max_memory_usage_bytes dsz cfg (ChunkedLocalAttentionSpec a c) =
     admission_max_memory dsz cfg (ChunkedLocalAttentionSpec a c)"
| "spec_max_memory_usage_bytes dsz cfg (SlidingWindowSpec a w hv) =
     py_assert (decode_context_parallel_size cfg = 1)
       (admission_max_memory dsz cfg (SlidingWindowSpec a w hv))"
| "spec_max_memory_usage_bytes dsz cfg (SlidingWindowMLASpec a w hv m) =
     py_assert (decode_context_parallel_size cfg = 1)
       (admission_max_memory dsz cfg (SlidingWindowMLASpec a w hv m))"
| "spec_max_memory_usage_bytes dsz cfg (UniformTypeKVCacheSpecs n specs) =
     rbind (rmap (\<lambda>x. rbind (spec_max_memory_usage_bytes dsz cfg (snd x)) (\<lambda>mem.
                      rbind (page_size_bytes dsz (snd x)) (\<lambda>page. py_cdiv mem page))) specs)
       (\<lambda>pages. rbind (py_max pages) (\<lambda>max_num_pages.
        rbind (page_size_bytes dsz (UniformTypeKVCacheSpecs n specs)) (\<lambda>page.
        Inr (max_num_pages * page))))"
| "spec_max_memory_usage_bytes dsz cfg spec = full_max_memory dsz cfg spec"

definition max_memory_usage_pages ::
    "(dtype \<Rightarrow> int) \<Rightarrow> VllmConfig \<Rightarrow> (string \<times> KVCacheSpec) list \<Rightarrow> int res" where
  "max_memory_usage_pages dsz cfg specs =
     rbind (rmap (\<lambda>x. rbind (spec_max_memory_usage_bytes dsz cfg (snd x)) (\<lambda>mem.
                      rbind (page_size_bytes dsz (snd x)) (\<lambda>page. py_cdiv mem page))) specs) py_max"

section \<open>Merging the layers of a group\<close>

text \<open>A set of values is the list of its members without repetition.\<close>

definition merge_window_sizes :: "int list \<Rightarrow> int option res" where
  "merge_window_sizes window_sizes =
     (case remdups window_sizes of
        [] \<Rightarrow> Inr None
      | [w] \<Rightarrow> Inr (Some w)
      | _ \<Rightarrow> Inl ValueError)"

definition window_set :: "(FullFields \<Rightarrow> int option) \<Rightarrow> KVCacheSpec list \<Rightarrow> int list" where
  "window_set field specs =
     List.map_filter (\<lambda>s. case full_fields s of Some f \<Rightarrow> field f | None \<Rightarrow> None) specs"

text \<open>The fields of \<open>FullAttentionSpec.merge\<close> and \<open>SinkFullAttentionSpec.merge\<close>: those of the
  first layer, with the window sizes of all, after checking the attention fields.\<close>

definition merged_full_fields :: "KVCacheSpec list \<Rightarrow> (AttentionSpec \<times> FullFields) res" where
  "merged_full_fields specs =
     py_assert (\<forall>s \<in> set specs. is_FullAttentionSpec s)
     (py_assert (\<not> (\<exists>s \<in> set specs. is_MLAAttentionSpec s))
      (case specs of
         [] \<Rightarrow> Inl IndexError
       | s0 # _ \<Rightarrow>
         (case (attn_fields s0, full_fields s0) of
            (Some a, Some f) \<Rightarrow>
              rbind (merge_window_sizes (window_set full_sliding_window specs)) (\<lambda>sw.
              rbind (merge_window_sizes (window_set full_attention_chunk_size specs)) (\<lambda>ck.
              py_assert (\<forall>s \<in> set specs. attn_fields s = Some a)
              (py_assert (\<not> (sw \<noteq> None \<and> ck \<noteq> None))
                (Inr (a, \<lparr>head_size_v = head_size_v f, full_sliding_window = sw,
                         full_attention_chunk_size = ck\<rparr>)))))
          | _ \<Rightarrow> Inl AssertionError)))"

fun tq_slot_size_of :: "KVCacheSpec \<Rightarrow> int res" where
  "tq_slot_size_of (TQFullAttentionSpec _ _ t) = Inr t"
| "tq_slot_size_of _ = Inl AttributeError"

definition mla_merge :: "KVCacheSpec list \<Rightarrow> AttentionSpec \<Rightarrow> KVCacheSpec res" where
  "mla_merge specs a =
     py_assert (\<forall>s \<in> set specs. is_MLAAttentionSpec s)
      (let ms = List.map_filter mla_fields specs in
       py_assert (length (remdups (map cache_dtype_str ms)) = 1 \<and>
                  length (remdups (map compress_ratio ms)) = 1 \<and>
                  length (remdups (map model_version ms)) = 1)
        (Inr (MLAAttentionSpec a
           \<lparr>head_size_v = head_size a, full_sliding_window = None, full_attention_chunk_size = None\<rparr>
           \<lparr>cache_dtype_str = cache_dtype_str (hd ms), alignment = None,
            compress_ratio = compress_ratio (hd ms), model_version = model_version (hd ms)\<rparr>)))"

definition sliding_window_mla_merge :: "KVCacheSpec list \<Rightarrow> AttentionSpec \<Rightarrow> int \<Rightarrow> KVCacheSpec res" where
  "sliding_window_mla_merge specs a w =
     py_assert (\<forall>s \<in> set specs. is_SlidingWindowMLASpec s)
      (let ms = List.map_filter mla_fields specs in
       py_assert (length (remdups (map cache_dtype_str ms)) = 1 \<and>
                  length (remdups (map compress_ratio ms)) = 1 \<and>
                  length (remdups (map model_version ms)) = 1 \<and>
                  length (remdups (map sliding_window_of specs)) = 1)
        (Inr (SlidingWindowMLASpec (a\<lparr>kv_quant_mode := NONE\<rparr>) w None
           \<lparr>cache_dtype_str = cache_dtype_str (hd ms), alignment = None,
            compress_ratio = compress_ratio (hd ms), model_version = model_version (hd ms)\<rparr>)))"

text \<open>\<open>specs[0].merge(specs)\<close>: the class of the first layer decides.\<close>

definition merge :: "KVCacheSpec list \<Rightarrow> KVCacheSpec res" where
  "merge specs =
     (case specs of
        [] \<Rightarrow> Inl IndexError
      | FullAttentionSpec _ _ # _ \<Rightarrow>
          rbind (merged_full_fields specs) (\<lambda>(a, f). Inr (FullAttentionSpec a f))
      | TQFullAttentionSpec _ _ t # _ \<Rightarrow>
          rbind (merged_full_fields specs) (\<lambda>(a, f).
          rbind (rall (\<lambda>s. rbind (tq_slot_size_of s) (\<lambda>t'. Inr (t' = t))) specs) (\<lambda>same.
          py_assert same (Inr (TQFullAttentionSpec a f t))))
      | SinkFullAttentionSpec _ _ l # _ \<Rightarrow>
          rbind (merged_full_fields specs) (\<lambda>(a, f). Inr (SinkFullAttentionSpec a f l))
      | MLAAttentionSpec a _ _ # _ \<Rightarrow> mla_merge specs a
      | SlidingWindowMLASpec a w _ _ # _ \<Rightarrow> sliding_window_mla_merge specs a w
      | s # rest \<Rightarrow> py_assert (\<forall>x \<in> set rest. x = s) (Inr s))"

section \<open>Layers of one type\<close>

fun chunk_size_of :: "KVCacheSpec \<Rightarrow> int option" where
  "chunk_size_of (ChunkedLocalAttentionSpec _ c) = Some c"
| "chunk_size_of _ = None"

fun speculative_blocks_of :: "KVCacheSpec \<Rightarrow> int option" where
  "speculative_blocks_of (MambaSpec m) = Some (num_speculative_blocks m)"
| "speculative_blocks_of _ = None"

definition is_uniform_type :: "(string \<times> KVCacheSpec) list \<Rightarrow> bool res" where
  "is_uniform_type kv_cache_specs =
     (let specs = map snd kv_cache_specs in
      if length (remdups (map block_size specs)) > 1 then Inr False
      else case specs of
        [] \<Rightarrow> Inl StopIteration
      | one_spec # _ \<Rightarrow>
          if is_SlidingWindowMLASpec one_spec
          then Inr (\<forall>s \<in> set specs. is_SlidingWindowMLASpec s \<and>
                      sliding_window_of s = sliding_window_of one_spec)
          else if is_FullAttentionSpec one_spec
          then Inr (\<forall>s \<in> set specs. is_FullAttentionSpec s)
          else if is_CrossAttentionSpec one_spec
          then Inr (\<forall>s \<in> set specs. is_CrossAttentionSpec s)
          else if is_SlidingWindowSpec one_spec
          then Inr (\<forall>s \<in> set specs. is_SlidingWindowSpec s \<and>
                      sliding_window_of s = sliding_window_of one_spec)
          else if is_ChunkedLocalAttentionSpec one_spec
          then Inr (\<forall>s \<in> set specs. is_ChunkedLocalAttentionSpec s \<and>
                      chunk_size_of s = chunk_size_of one_spec)
          else if is_MambaSpec one_spec
          then Inr (\<forall>s \<in> set specs. is_MambaSpec s \<and>
                      speculative_blocks_of s = speculative_blocks_of one_spec)
          else Inl NotImplementedError)"

definition from_specs :: "(string \<times> KVCacheSpec) list \<Rightarrow> KVCacheSpec option res" where
  "from_specs kv_cache_specs =
     rbind (is_uniform_type kv_cache_specs) (\<lambda>uniform.
       if uniform
       then Inr (Some (UniformTypeKVCacheSpecs (block_size (snd (hd kv_cache_specs))) kv_cache_specs))
       else Inr None)"

text \<open>The order of a list made from a set is not specified; here it is that of the first
  occurrences from the right.\<close>

definition get_page_sizes :: "(dtype \<Rightarrow> int) \<Rightarrow> (string \<times> KVCacheSpec) list \<Rightarrow> int list res" where
  "get_page_sizes dsz specs =
     rbind (rmap (\<lambda>x. page_size_bytes dsz (snd x)) specs) (\<lambda>xs. Inr (remdups xs))"

definition get_num_layer_tuples :: "(dtype \<Rightarrow> int) \<Rightarrow> (string \<times> KVCacheSpec) list \<Rightarrow> int res" where
  "get_num_layer_tuples dsz specs =
     rbind (rmap (\<lambda>x. page_size_bytes dsz (snd x)) specs) (\<lambda>xs.
       case xs of
         [] \<Rightarrow> Inl IndexError
       | _ \<Rightarrow> py_max (map (\<lambda>x. int (count_list xs x)) xs))"

section \<open>Configurations\<close>

record KVCacheTensor =
  tensor_size :: int
  shared_by :: "string list"

record KVCacheGroupSpec =
  layer_names :: "string list"
  group_spec :: KVCacheSpec
  is_eagle_group :: bool

record KVCacheConfig =
  num_blocks :: int
  kv_cache_tensors :: "KVCacheTensor list"
  kv_cache_groups :: "KVCacheGroupSpec list"

definition has_mamba_layers :: "KVCacheConfig \<Rightarrow> bool" where
  "has_mamba_layers c \<longleftrightarrow> (\<exists>g \<in> set (kv_cache_groups c). is_MambaSpec (group_spec g))"

definition needs_kv_cache_zeroing :: "KVCacheConfig \<Rightarrow> bool" where
  "needs_kv_cache_zeroing c = has_mamba_layers c"

section \<open>Lemmas\<close>

lemma merged_full_fields_Inr:
  assumes "merged_full_fields specs = Inr (a, f)" "s \<in> set specs"
  shows "attn_fields s = Some a" "is_FullAttentionSpec s" "\<not> is_MLAAttentionSpec s"
  using assms
  by (auto simp: merged_full_fields_def res_Inr split: list.splits option.splits prod.splits)

lemma merged_full_fields_first:
  "merged_full_fields (FullAttentionSpec a0 f0 # rest) = Inr (a, f) \<Longrightarrow>
     a = a0 \<and> head_size_v f = head_size_v f0"
  by (auto simp: merged_full_fields_def res_Inr)



end
