(* ===== verification/SingleType.thy ===== *)
theory SingleType
  imports PoolOps KVCacheInterface
begin

text \<open>
  \<^verbatim>\<open>vllm/v1/core/single_type_kv_cache_manager.py\<close>: the managers that keep, for one group of
  layers, the blocks of every request.  The state of a manager is one record for all classes
  (the fields of a subclass are unused in the others); the block pool, which all managers
  share, is passed along.  \<open>req_to_blocks\<close>, a \<^verbatim>\<open>defaultdict(list)\<close>, is an association list:
  reading an absent key inserts an empty list.  Blocks compare equal exactly when they are
  the same block, since their ids differ.
\<close>

section \<open>State\<close>

datatype manager_class =
    FullAttentionManager | SlidingWindowManager | ChunkedLocalAttentionManager | MambaManager
  | CrossAttentionManager | SinkFullAttentionManager

record SingleTypeKVCacheManager =
  mgr_class :: manager_class
  mgr_block_size :: int
  dcp_world_size :: int
  pcp_world_size :: int
  kv_cache_spec :: KVCacheSpec
  mgr_enable_caching :: bool
  max_admission_blocks :: "int option"
  new_block_ids :: "int list"
  req_to_blocks :: "(string \<times> bref list) list"
  num_cached_block :: "string \<Rightarrow> int option"
  kv_cache_group_id :: int
  mgr_null_block :: bref
  sliding_window :: int
  attention_chunk_size :: int
  cached_blocks_this_step :: "bytes list"
  mgr_mamba_cache_mode :: string
  mgr_num_speculative_blocks :: int
  last_state_block_idx :: "string \<Rightarrow> int option"
  allocated_block_reqs :: "string list"
  sink_blocks :: "bref list"

definition get_req_blocks :: "string \<Rightarrow> SingleTypeKVCacheManager \<Rightarrow> bref list" where
  "get_req_blocks rid m = (case map_of (req_to_blocks m) rid of Some bs \<Rightarrow> bs | None \<Rightarrow> [])"

definition set_req_blocks ::
    "string \<Rightarrow> bref list \<Rightarrow> SingleTypeKVCacheManager \<Rightarrow> SingleTypeKVCacheManager" where
  "set_req_blocks rid bs m = m\<lparr>req_to_blocks := AList.update rid bs (req_to_blocks m)\<rparr>"

text \<open>\<open>self.req_to_blocks[request_id]\<close>, which inserts the empty list for a new key.\<close>

definition touch_req :: "string \<Rightarrow> SingleTypeKVCacheManager \<Rightarrow> SingleTypeKVCacheManager" where
  "touch_req rid m = set_req_blocks rid (get_req_blocks rid m) m"

definition zeroed_spec :: "KVCacheSpec \<Rightarrow> bool" where
  "zeroed_spec spec =
     (case spec of FullAttentionSpec _ _ \<Rightarrow> True | TQFullAttentionSpec _ _ _ \<Rightarrow> True | _ \<Rightarrow> False)"

section \<open>Construction\<close>

definition base_manager_init ::
    "manager_class \<Rightarrow> KVCacheSpec \<Rightarrow> bref \<Rightarrow> bool \<Rightarrow> int \<Rightarrow> int \<Rightarrow> int \<Rightarrow> int option
     \<Rightarrow> SingleTypeKVCacheManager" where
  "base_manager_init cls spec nb caching gid dcp pcp cap =
     \<lparr>mgr_class = cls,
      mgr_block_size = (if dcp * pcp > 1 then block_size spec * (dcp * pcp) else block_size spec),
      dcp_world_size = dcp, pcp_world_size = pcp, kv_cache_spec = spec,
      mgr_enable_caching = caching, max_admission_blocks = cap, new_block_ids = [],
      req_to_blocks = [], num_cached_block = Map.empty, kv_cache_group_id = gid,
      mgr_null_block = nb,
      sliding_window = (case sliding_window_of spec of Some w \<Rightarrow> w | None \<Rightarrow> 0),
      attention_chunk_size = (case chunk_size_of spec of Some c \<Rightarrow> c | None \<Rightarrow> 0),
      cached_blocks_this_step = [],
      mgr_mamba_cache_mode = (case spec of MambaSpec f \<Rightarrow> mamba_cache_mode f | _ \<Rightarrow> ''''),
      mgr_num_speculative_blocks = (case spec of MambaSpec f \<Rightarrow> num_speculative_blocks f | _ \<Rightarrow> 0),
      last_state_block_idx = Map.empty, allocated_block_reqs = [], sink_blocks = []\<rparr>"

fun spec_manager_map :: "KVCacheSpec \<Rightarrow> manager_class res" where
  "spec_manager_map (FullAttentionSpec _ _) = Inr FullAttentionManager"
| "spec_manager_map (TQFullAttentionSpec _ _ _) = Inr FullAttentionManager"
| "spec_manager_map (MLAAttentionSpec _ _ _) = Inr FullAttentionManager"
| "spec_manager_map (SlidingWindowSpec _ _ _) = Inr SlidingWindowManager"
| "spec_manager_map (SlidingWindowMLASpec _ _ _ _) = Inr SlidingWindowManager"
| "spec_manager_map (ChunkedLocalAttentionSpec _ _) = Inr ChunkedLocalAttentionManager"
| "spec_manager_map (MambaSpec _) = Inr MambaManager"
| "spec_manager_map (CrossAttentionSpec _) = Inr CrossAttentionManager"
| "spec_manager_map (SinkFullAttentionSpec _ _ _) = Inr SinkFullAttentionManager"
| "spec_manager_map (EncoderOnlyAttentionSpec _) = Inl KeyError"
| "spec_manager_map (UniformTypeKVCacheSpecs _ _) = Inl KeyError"

definition sink_manager_init ::
    "int option \<Rightarrow> SingleTypeKVCacheManager \<Rightarrow> BlockPool \<Rightarrow> (SingleTypeKVCacheManager \<times> BlockPool) res" where
  "sink_manager_init sink_len m p =
     (case sink_len of
        None \<Rightarrow> Inl AssertionError
      | Some n \<Rightarrow>
          py_assert (n > 0) (py_raise_if (mgr_block_size m = 0) ZeroDivisionError
          (py_assert (n mod mgr_block_size m = 0)
            (rbind (popleft_n (n div mgr_block_size m) (free_block_queue p)) (\<lambda>(bs, q).
             Inr (m\<lparr>sink_blocks := bs\<rparr>, p\<lparr>free_block_queue := q\<rparr>))))))"

definition get_manager_for_kv_cache_spec ::
    "KVCacheSpec \<Rightarrow> int \<Rightarrow> int \<Rightarrow> bool \<Rightarrow> int \<Rightarrow> int \<Rightarrow> int \<Rightarrow> BlockPool
     \<Rightarrow> (SingleTypeKVCacheManager \<times> BlockPool) res" where
  "get_manager_for_kv_cache_spec spec batched mml caching gid dcp pcp p =
     rbind (spec_manager_map spec) (\<lambda>cls.
     rbind (if is_SlidingWindowSpec spec \<or> is_ChunkedLocalAttentionSpec spec
            then rbind (max_admission_blocks_per_request spec batched mml) (\<lambda>n. Inr (Some n))
            else Inr None) (\<lambda>cap.
     let m = base_manager_init cls spec (null_block p) caching gid dcp pcp cap in
     case spec of
       SinkFullAttentionSpec _ _ sink_len \<Rightarrow> sink_manager_init sink_len m p
     | _ \<Rightarrow> Inr (m, p)))"

section \<open>Tokens outside the attention window\<close>

definition get_num_skipped_tokens :: "SingleTypeKVCacheManager \<Rightarrow> int \<Rightarrow> int res" where
  "get_num_skipped_tokens m num_computed =
     (case mgr_class m of
        SlidingWindowManager \<Rightarrow> Inr (max 0 (num_computed - sliding_window m + 1))
      | ChunkedLocalAttentionManager \<Rightarrow>
          py_raise_if (attention_chunk_size m = 0) ZeroDivisionError
            (Inr ((num_computed div attention_chunk_size m) * attention_chunk_size m))
      | MambaManager \<Rightarrow> Inr (num_computed - 1)
      | _ \<Rightarrow> Inr 0)"

fun null_out_loop :: "bref \<Rightarrow> nat \<Rightarrow> bref list \<Rightarrow> bref list \<times> bref list" where
  "null_out_loop nb 0 bs = ([], bs)"
| "null_out_loop nb (Suc i) bs =
     (if bs ! i = nb then ([], bs)
      else case null_out_loop nb i (bs[i := nb]) of (removed, bs') \<Rightarrow> (bs ! i # removed, bs'))"

definition base_remove_skipped_blocks ::
    "string \<Rightarrow> int \<Rightarrow> SingleTypeKVCacheManager \<Rightarrow> BlockPool
     \<Rightarrow> (SingleTypeKVCacheManager \<times> BlockPool) res" where
  "base_remove_skipped_blocks rid total_computed_tokens m p =
     rbind (get_num_skipped_tokens m total_computed_tokens) (\<lambda>num_skipped_tokens.
       if num_skipped_tokens \<le> 0 then Inr (m, p)
       else
         let bs = get_req_blocks rid m;
             num_skipped_blocks = min (num_skipped_tokens div mgr_block_size m) (len bs)
         in case null_out_loop (mgr_null_block m) (nat num_skipped_blocks) bs of (removed, bs') \<Rightarrow>
            rbind (free_blocks removed p) (\<lambda>p'. Inr (set_req_blocks rid bs' m, p')))"

definition mamba_remove_skipped_blocks ::
    "string \<Rightarrow> int \<Rightarrow> SingleTypeKVCacheManager \<Rightarrow> BlockPool
     \<Rightarrow> (SingleTypeKVCacheManager \<times> BlockPool) res" where
  "mamba_remove_skipped_blocks rid num_computed0 m p =
     py_assert (is_MambaSpec (kv_cache_spec m))
      (let num_computed = max 0 (num_computed0 - mgr_num_speculative_blocks m) in
       rbind (base_remove_skipped_blocks rid num_computed m p) (\<lambda>(m1, p1).
       if mgr_mamba_cache_mode m1 \<noteq> ''align'' then Inr (m1, p1)
       else case last_state_block_idx m1 rid of
         None \<Rightarrow> Inr (m1, p1)
       | Some idx \<Rightarrow>
           if idx < cdiv num_computed (mgr_block_size m1) - 1
           then rbind (py_get (get_req_blocks rid m1) idx) (\<lambda>b.
                if b = mgr_null_block m1 then Inr (touch_req rid m1, p1)
                else rbind (free_blocks [b] p1) (\<lambda>p2.
                     let bs = get_req_blocks rid m1 in
                     Inr (set_req_blocks rid (bs[nat (py_pos (len bs) idx) := mgr_null_block m1]) m1, p2)))
           else Inr (m1, p1)))"

definition mgr_remove_skipped_blocks ::
    "string \<Rightarrow> int \<Rightarrow> SingleTypeKVCacheManager \<Rightarrow> BlockPool
     \<Rightarrow> (SingleTypeKVCacheManager \<times> BlockPool) res" where
  "mgr_remove_skipped_blocks rid n m p =
     (if mgr_class m = MambaManager then mamba_remove_skipped_blocks rid n m p
      else base_remove_skipped_blocks rid n m p)"

section \<open>Allocation\<close>

definition get_num_evictable_blocks :: "bref list \<Rightarrow> BlockPool \<Rightarrow> int" where
  "get_num_evictable_blocks bs p =
     len (filter (\<lambda>b. ref_cnt (pheap p b) = 0 \<and> \<not> is_null (pheap p b)) bs)"

definition base_get_num_blocks_to_allocate ::
    "string \<Rightarrow> int \<Rightarrow> bref list \<Rightarrow> int \<Rightarrow> bool \<Rightarrow> SingleTypeKVCacheManager \<Rightarrow> BlockPool \<Rightarrow> int res" where
  "base_get_num_blocks_to_allocate rid num_toks new_computed total_computed apply_cap m p =
     (let required0 = cdiv num_toks (mgr_block_size m);
          num_required_blocks = (case max_admission_blocks m of
              Some cap \<Rightarrow> if apply_cap then min required0 cap else required0
            | None \<Rightarrow> required0);
          num_req_blocks = len (get_req_blocks rid m)
      in if num_cached_block m rid \<noteq> None
         then py_assert (len new_computed = 0) (Inr (max (num_required_blocks - num_req_blocks) 0))
         else rbind (get_num_skipped_tokens m total_computed) (\<lambda>num_skipped_tokens.
           let num_local_computed_blocks = len new_computed + num_req_blocks;
               num_skipped_blocks = num_skipped_tokens div mgr_block_size m;
               num_new_blocks =
                 max (num_required_blocks - max num_skipped_blocks num_local_computed_blocks) 0;
               num_skipped_new_computed_blocks = max 0 (num_skipped_blocks - num_req_blocks)
           in Inr (num_new_blocks + get_num_evictable_blocks
                     (py_from new_computed num_skipped_new_computed_blocks) p)))"

definition mamba_get_num_blocks_to_allocate ::
    "string \<Rightarrow> int \<Rightarrow> bref list \<Rightarrow> int \<Rightarrow> int \<Rightarrow> bool \<Rightarrow> SingleTypeKVCacheManager \<Rightarrow> BlockPool
     \<Rightarrow> (int \<times> SingleTypeKVCacheManager) res" where
  "mamba_get_num_blocks_to_allocate rid num_toks new_computed total_computed main apply_cap m p =
     py_assert (is_MambaSpec (kv_cache_spec m))
      (if len new_computed > 0 \<and>
          (case block_hash (pheap p (last new_computed)) of
             Some h \<Rightarrow> h \<in> set (cached_blocks_this_step m) | None \<Rightarrow> False)
       then Inr (num_gpu_blocks p + 1, m)
       else if mgr_mamba_cache_mode m \<noteq> ''align''
       then rbind (base_get_num_blocks_to_allocate rid
              (if mgr_num_speculative_blocks m > 0
               then num_toks + block_size (kv_cache_spec m) * mgr_num_speculative_blocks m
               else num_toks) new_computed total_computed apply_cap m p) (\<lambda>n. Inr (n, m))
       else
         let num_required_blocks = cdiv main (mgr_block_size m) + mgr_num_speculative_blocks m;
             m1 = touch_req rid m;
             new0 = num_required_blocks - len new_computed - len (get_req_blocks rid m1);
             num_new_blocks = (if new0 > 0
               then if rid \<in> set (allocated_block_reqs m1) then 1
                    else 1 + mgr_num_speculative_blocks m1
               else new0)
         in Inr (num_new_blocks + get_num_evictable_blocks new_computed p, m1))"

definition mgr_get_num_blocks_to_allocate ::
    "string \<Rightarrow> int \<Rightarrow> bref list \<Rightarrow> int \<Rightarrow> int \<Rightarrow> bool \<Rightarrow> SingleTypeKVCacheManager \<Rightarrow> BlockPool
     \<Rightarrow> (int \<times> SingleTypeKVCacheManager) res" where
  "mgr_get_num_blocks_to_allocate rid num_toks new_computed total_computed main apply_cap m p =
     (if mgr_class m = MambaManager
      then mamba_get_num_blocks_to_allocate rid num_toks new_computed total_computed main apply_cap m p
      else rbind (base_get_num_blocks_to_allocate rid num_toks new_computed total_computed apply_cap m p)
             (\<lambda>n. Inr (n, m)))"

definition note_new_blocks ::
    "bref list \<Rightarrow> BlockPool \<Rightarrow> SingleTypeKVCacheManager \<Rightarrow> SingleTypeKVCacheManager" where
  "note_new_blocks bs p m =
     (if zeroed_spec (kv_cache_spec m)
      then m\<lparr>new_block_ids := new_block_ids m @ map (\<lambda>b. block_id (pheap p b)) bs\<rparr>
      else m)"

definition base_allocate_new_computed_blocks ::
    "hash_cfg \<Rightarrow> string \<Rightarrow> bref list \<Rightarrow> int \<Rightarrow> int \<Rightarrow> SingleTypeKVCacheManager \<Rightarrow> BlockPool
     \<Rightarrow> (SingleTypeKVCacheManager \<times> BlockPool) res" where
  "base_allocate_new_computed_blocks cfg rid new_computed0 num_local num_external0 m p =
     (if num_cached_block m rid \<noteq> None
      then py_assert (len new_computed0 = 0) (Inr (m, p))
      else
       py_assert (len (get_req_blocks rid m) = 0)
       (let num_total = num_local + num_external0 in
        rbind (get_num_skipped_tokens m num_total) (\<lambda>num_skipped_tokens.
        let num_skipped_blocks = num_skipped_tokens div mgr_block_size m;
            new_computed = (if num_skipped_blocks > 0
              then py_from new_computed0 num_skipped_blocks else new_computed0);
            num_external = (if num_skipped_blocks > 0
              then min (num_total - num_skipped_tokens) num_external0 else num_external0)
        in rbind (if mgr_enable_caching m then touch new_computed p
                  else py_assert (new_computed = []) (Inr p)) (\<lambda>p1.
           let req_blocks = py_repeat (mgr_null_block m) num_skipped_blocks @ new_computed;
               m1 = (set_req_blocks rid req_blocks m)
                      \<lparr>num_cached_block := (num_cached_block m)(rid \<mapsto> len req_blocks)\<rparr>
           in if num_external > 0
              then rbind (get_new_blocks cfg
                     (cdiv num_total (mgr_block_size m) - len req_blocks) p1) (\<lambda>(bs, p2).
                   Inr (note_new_blocks bs p2 (set_req_blocks rid (req_blocks @ bs) m1), p2))
              else Inr (m1, p1)))))"

definition mgr_allocate_new_computed_blocks ::
    "hash_cfg \<Rightarrow> string \<Rightarrow> bref list \<Rightarrow> int \<Rightarrow> int \<Rightarrow> SingleTypeKVCacheManager \<Rightarrow> BlockPool
     \<Rightarrow> (SingleTypeKVCacheManager \<times> BlockPool) res" where
  "mgr_allocate_new_computed_blocks cfg rid new_computed num_local num_external m p =
     (if mgr_class m = CrossAttentionManager
      then py_assert (len new_computed = 0) (Inr (m, p))
      else base_allocate_new_computed_blocks cfg rid new_computed num_local num_external m p)"

definition base_allocate_new_blocks ::
    "hash_cfg \<Rightarrow> string \<Rightarrow> int \<Rightarrow> SingleTypeKVCacheManager \<Rightarrow> BlockPool
     \<Rightarrow> (bref list \<times> SingleTypeKVCacheManager \<times> BlockPool) res" where
  "base_allocate_new_blocks cfg rid num_toks m p =
     (let req_blocks = get_req_blocks rid m;
          num_new_blocks = cdiv num_toks (mgr_block_size m) - len req_blocks
      in if num_new_blocks \<le> 0 then Inr ([], touch_req rid m, p)
         else rbind (get_new_blocks cfg num_new_blocks p) (\<lambda>(bs, p1).
              Inr (bs, note_new_blocks bs p1 (set_req_blocks rid (req_blocks @ bs) m), p1)))"

text \<open>Mamba with aligned states reuses the speculative blocks of the previous step: each
  of them moves to the end and leaves the null block behind.\<close>

fun reuse_loop :: "bref \<Rightarrow> int \<Rightarrow> int list \<Rightarrow> bref list \<Rightarrow> bref list res" where
  "reuse_loop nb num_skipped [] bs = Inr bs"
| "reuse_loop nb num_skipped (i # rest) bs =
     (if i < num_skipped
      then rbind (py_get bs i) (\<lambda>b.
           reuse_loop nb num_skipped rest ((bs @ [b])[nat (py_pos (len bs + 1) i) := nb]))
      else Inr bs)"

definition mamba_allocate_new_blocks ::
    "hash_cfg \<Rightarrow> string \<Rightarrow> int \<Rightarrow> int \<Rightarrow> SingleTypeKVCacheManager \<Rightarrow> BlockPool
     \<Rightarrow> (bref list \<times> SingleTypeKVCacheManager \<times> BlockPool) res" where
  "mamba_allocate_new_blocks cfg rid num_toks main m p =
     py_assert (is_MambaSpec (kv_cache_spec m))
      (let spec_blocks = mgr_num_speculative_blocks m in
       if mgr_mamba_cache_mode m \<noteq> ''align''
       then base_allocate_new_blocks cfg rid
              (if spec_blocks > 0 then num_toks + mgr_block_size m * spec_blocks else num_toks) m p
       else
        let req_blocks = get_req_blocks rid m;
            num_required_blocks = cdiv main (mgr_block_size m) + spec_blocks;
            prev_block_len = len req_blocks
        in if num_required_blocks = prev_block_len then Inr ([], touch_req rid m, p)
           else py_assert (num_required_blocks > prev_block_len)
            (let blocks_allocated = rid \<in> set (allocated_block_reqs m);
                 m1 = (if blocks_allocated
                       then m\<lparr>last_state_block_idx := (last_state_block_idx m)
                              (rid \<mapsto> prev_block_len - 1 - spec_blocks)\<rparr>
                       else if prev_block_len > 0
                       then m\<lparr>last_state_block_idx := (last_state_block_idx m)
                              (rid \<mapsto> prev_block_len - 1)\<rparr>
                       else m);
                 num_skipped_blocks = num_required_blocks - spec_blocks - 1;
                 bs1 = req_blocks @ py_repeat (mgr_null_block m) (num_skipped_blocks - prev_block_len)
             in rbind (if blocks_allocated
                       then reuse_loop (mgr_null_block m) num_skipped_blocks
                              [prev_block_len - spec_blocks .. prev_block_len - 1] bs1
                       else Inr bs1) (\<lambda>bs2.
                let num_new_blocks = num_required_blocks - len bs2 in
                py_assert (if blocks_allocated then num_new_blocks \<le> 1
                           else num_new_blocks \<le> spec_blocks + 1)
                 (rbind (get_new_blocks cfg num_new_blocks p) (\<lambda>(bs, p1).
                  let m2 = (set_req_blocks rid (bs2 @ bs) m1)
                             \<lparr>allocated_block_reqs := List.insert rid (allocated_block_reqs m1)\<rparr>
                  in Inr (py_from (bs2 @ bs) prev_block_len, m2, p1))))))"

definition mgr_allocate_new_blocks ::
    "hash_cfg \<Rightarrow> string \<Rightarrow> int \<Rightarrow> int \<Rightarrow> SingleTypeKVCacheManager \<Rightarrow> BlockPool
     \<Rightarrow> (bref list \<times> SingleTypeKVCacheManager \<times> BlockPool) res" where
  "mgr_allocate_new_blocks cfg rid num_toks main m p =
     (if mgr_class m = MambaManager then mamba_allocate_new_blocks cfg rid num_toks main m p
      else base_allocate_new_blocks cfg rid num_toks m p)"

definition take_new_block_ids :: "SingleTypeKVCacheManager \<Rightarrow> int list \<times> SingleTypeKVCacheManager" where
  "take_new_block_ids m = (new_block_ids m, m\<lparr>new_block_ids := []\<rparr>)"

section \<open>Caching and freeing\<close>

definition base_cache_blocks ::
    "hash_cfg \<Rightarrow> Request \<Rightarrow> int \<Rightarrow> SingleTypeKVCacheManager \<Rightarrow> BlockPool
     \<Rightarrow> (Request \<times> SingleTypeKVCacheManager \<times> BlockPool) res" where
  "base_cache_blocks cfg r num_toks m p =
     (let rid = request_id r;
          num_cached = (case num_cached_block m rid of Some n \<Rightarrow> n | None \<Rightarrow> 0);
          num_full = num_toks div mgr_block_size m
      in if num_cached \<ge> num_full then Inr (r, m, p)
         else rbind (cache_full_blocks cfg r (get_req_blocks rid m) num_cached num_full
                (mgr_block_size m) (kv_cache_group_id m) p) (\<lambda>(r', p').
              Inr (r', (touch_req rid m)
                \<lparr>num_cached_block := (num_cached_block m)(rid \<mapsto> num_full)\<rparr>, p')))"

fun note_cached :: "bheap \<Rightarrow> bref list \<Rightarrow> bytes list \<Rightarrow> bytes list res" where
  "note_cached h [] acc = Inr acc"
| "note_cached h (b # bs) acc =
     (if is_null (h b) then note_cached h bs acc
      else case block_hash (h b) of
             None \<Rightarrow> Inl AssertionError
           | Some k \<Rightarrow> note_cached h bs (List.insert k acc))"

definition mamba_cache_blocks ::
    "hash_cfg \<Rightarrow> Request \<Rightarrow> int \<Rightarrow> SingleTypeKVCacheManager \<Rightarrow> BlockPool
     \<Rightarrow> (Request \<times> SingleTypeKVCacheManager \<times> BlockPool) res" where
  "mamba_cache_blocks cfg r num_toks m p =
     (let rid = request_id r;
          before = (case num_cached_block m rid of Some n \<Rightarrow> n | None \<Rightarrow> 0)
      in rbind (base_cache_blocks cfg r num_toks m p) (\<lambda>(r1, m1, p1).
         let after = (case num_cached_block m1 rid of Some n \<Rightarrow> n | None \<Rightarrow> 0) in
         if after > before
         then rbind (note_cached (pheap p1) (py_slice (get_req_blocks rid m1) before after)
                (cached_blocks_this_step m1)) (\<lambda>c.
              Inr (r1, m1\<lparr>cached_blocks_this_step := c\<rparr>, p1))
         else Inr (r1, m1, p1)))"

definition mgr_cache_blocks ::
    "hash_cfg \<Rightarrow> Request \<Rightarrow> int \<Rightarrow> SingleTypeKVCacheManager \<Rightarrow> BlockPool
     \<Rightarrow> (Request \<times> SingleTypeKVCacheManager \<times> BlockPool) res" where
  "mgr_cache_blocks cfg r num_toks m p =
     (case mgr_class m of
        MambaManager \<Rightarrow> mamba_cache_blocks cfg r num_toks m p
      | CrossAttentionManager \<Rightarrow> Inl ValueError
      | _ \<Rightarrow> base_cache_blocks cfg r num_toks m p)"

definition base_free ::
    "string \<Rightarrow> SingleTypeKVCacheManager \<Rightarrow> BlockPool \<Rightarrow> (SingleTypeKVCacheManager \<times> BlockPool) res" where
  "base_free rid m p =
     rbind (free_blocks (rev (get_req_blocks rid m)) p) (\<lambda>p'.
     Inr (m\<lparr>req_to_blocks := AList.delete rid (req_to_blocks m),
            num_cached_block := (num_cached_block m)(rid := None)\<rparr>, p'))"

definition mgr_free ::
    "string \<Rightarrow> SingleTypeKVCacheManager \<Rightarrow> BlockPool \<Rightarrow> (SingleTypeKVCacheManager \<times> BlockPool) res" where
  "mgr_free rid m p =
     (if mgr_class m = MambaManager \<and> mgr_mamba_cache_mode m = ''align''
      then base_free rid (m\<lparr>allocated_block_reqs := removeAll rid (allocated_block_reqs m),
             last_state_block_idx := (last_state_block_idx m)(rid := None)\<rparr>) p
      else base_free rid m p)"

definition mgr_new_step_starts :: "SingleTypeKVCacheManager \<Rightarrow> SingleTypeKVCacheManager" where
  "mgr_new_step_starts m =
     (if mgr_class m = MambaManager then m\<lparr>cached_blocks_this_step := []\<rparr> else m)"

definition mgr_get_num_common_prefix_blocks ::
    "string \<Rightarrow> SingleTypeKVCacheManager \<Rightarrow> BlockPool \<Rightarrow> int \<times> SingleTypeKVCacheManager" where
  "mgr_get_num_common_prefix_blocks rid m p =
     (if mgr_class m = FullAttentionManager \<or> mgr_class m = SinkFullAttentionManager
      then let m1 = touch_req rid m
           in (len (takeWhile (\<lambda>b. ref_cnt (pheap p b) = len (req_to_blocks m1)) (get_req_blocks rid m1)), m1)
      else (0, m))"

end
