(* ===== verification/CacheHit.thy ===== *)
theory CacheHit
  imports SingleType
begin

text \<open>
  The class methods \<open>find_longest_cache_hit\<close> of
  \<^verbatim>\<open>vllm/v1/core/single_type_kv_cache_manager.py\<close>: for each class of manager, the longest
  prefix of a request whose blocks are cached as far as its attention needs them, as one list
  of blocks per KV cache group, with null blocks where none is needed.
\<close>

section \<open>Helpers\<close>

definition py_mod :: "int \<Rightarrow> int \<Rightarrow> int res" where
  "py_mod a b = py_raise_if (b = 0) ZeroDivisionError (Inr (a mod b))"

text \<open>The loops over the lists of the groups in step with the blocks found for them.\<close>

fun append_each :: "'a list list \<Rightarrow> 'a list \<Rightarrow> 'a list list" where
  "append_each (c # cs) (x # xs) = (c @ [x]) # append_each cs xs"
| "append_each cs _ = cs"

fun set_each :: "nat \<Rightarrow> 'a list list \<Rightarrow> 'a list \<Rightarrow> 'a list list" where
  "set_each i (c # cs) (x # xs) = c[i := x] # set_each i cs xs"
| "set_each i cs _ = cs"

definition pop_each :: "'a list list \<Rightarrow> 'a list list res" where
  "pop_each cs = rmap (\<lambda>c. py_raise_if (c = []) IndexError (Inr (butlast c))) cs"

lemma pop_each_Inr: "pop_each cs = Inr cs' \<longleftrightarrow> [] \<notin> set cs \<and> cs' = map butlast cs"
  unfolding pop_each_def
  by (induction cs arbitrary: cs') (auto simp: rbind_eq_Inr py_raise_if_Inr)

text \<open>Popping the last blocks until the length is a multiple of the alignment.\<close>

function align_loop :: "int \<Rightarrow> int \<Rightarrow> 'a list list \<Rightarrow> 'a list list res" where
  "align_loop bs al cs =
     (if bs = al then Inr cs
      else case cs of
        [] \<Rightarrow> Inl IndexError
      | c # _ \<Rightarrow>
          rbind (py_mod (len c * bs) al) (\<lambda>r.
            if r = 0 then Inr cs else rbind (pop_each cs) (align_loop bs al)))"
  by pat_completeness auto
termination
proof (relation "measure (\<lambda>(bs, al, cs). length (hd cs))", goal_cases)
  case 1
  then show ?case by simp
next
  case (2 bs al cs c cs' r x)
  then show ?case by (auto simp: pop_each_Inr)
qed

declare align_loop.simps [simp del]

definition falsy :: "'a list option \<Rightarrow> bool" where
  "falsy cb \<longleftrightarrow> (case cb of None \<Rightarrow> True | Some cs \<Rightarrow> cs = [])"

section \<open>Full attention\<close>

fun full_scan :: "BlockPool \<Rightarrow> int list \<Rightarrow> bytes list \<Rightarrow> bref list list \<Rightarrow> bref list list res" where
  "full_scan p gids [] computed = Inr computed"
| "full_scan p gids (h # hs) computed =
     rbind (get_cached_block h gids p) (\<lambda>cb.
       case cb of
         Some (c # cs) \<Rightarrow> full_scan p gids hs (append_each computed (c # cs))
       | _ \<Rightarrow> Inr computed)"

definition full_find_longest_cache_hit ::
    "BlockHashList \<Rightarrow> int \<Rightarrow> int list \<Rightarrow> BlockPool \<Rightarrow> KVCacheSpec \<Rightarrow> bool \<Rightarrow> int \<Rightarrow> int \<Rightarrow> int
     \<Rightarrow> bref list list res" where
  "full_find_longest_cache_hit hashes max_length gids p spec use_eagle al dcp pcp =
     py_assert (is_FullAttentionSpec spec \<or> is_ChunkedLocalAttentionSpec spec)
      (let bs = (if dcp * pcp > 1 then block_size spec * (dcp * pcp) else block_size spec) in
       py_raise_if (bs = 0) ZeroDivisionError
       (py_raise_if (max_length div bs < 0) ValueError
        (rbind (full_scan p gids (take (nat (max_length div bs)) (bhl_iter hashes))
                 (replicate (length gids) [])) (\<lambda>computed.
         rbind (if use_eagle
                then case computed of
                       [] \<Rightarrow> Inl IndexError
                     | c # _ \<Rightarrow> if c = [] then Inr computed else pop_each computed
                else Inr computed) (align_loop bs al)))))"

section \<open>Sliding window\<close>

text \<open>The search from right to left: the blocks found so far, the number of contiguous hits,
  and at the end whether a long enough run was found.\<close>

fun sliding_window_loop ::
    "BlockPool \<Rightarrow> BlockHashList \<Rightarrow> int list \<Rightarrow> bool \<Rightarrow> int \<Rightarrow> int \<Rightarrow> int \<Rightarrow> nat \<Rightarrow> bref list list \<Rightarrow> int
     \<Rightarrow> (bref list list \<times> int \<times> bool) res" where
  "sliding_window_loop p hashes gids use_eagle bs al needed 0 computed ncont =
     Inr (computed, ncont, False)"
| "sliding_window_loop p hashes gids use_eagle bs al needed (Suc i) computed ncont =
     rbind (bhl_get hashes (int i)) (\<lambda>h.
     rbind (get_cached_block h gids p) (\<lambda>cb.
       if falsy cb then sliding_window_loop p hashes gids use_eagle bs al needed i computed 0
       else
         rbind (if ncont = 0 \<and> bs \<noteq> al
                then rbind (py_mod ((if use_eagle then int i else int i + 1) * bs) al)
                       (\<lambda>r. Inr (r \<noteq> 0))
                else Inr False) (\<lambda>unaligned.
         if unaligned then sliding_window_loop p hashes gids use_eagle bs al needed i computed ncont
         else
           let computed' = set_each i computed (the cb); ncont' = ncont + 1 in
           if ncont' \<ge> needed
           then Inr (map (take (nat (int i + ncont'))) computed', ncont', True)
           else sliding_window_loop p hashes gids use_eagle bs al needed i computed' ncont')))"

definition sliding_window_find_longest_cache_hit ::
    "BlockHashList \<Rightarrow> int \<Rightarrow> int list \<Rightarrow> BlockPool \<Rightarrow> KVCacheSpec \<Rightarrow> bool \<Rightarrow> int \<Rightarrow> int \<Rightarrow> int
     \<Rightarrow> bref list list res" where
  "sliding_window_find_longest_cache_hit hashes max_length gids p spec use_eagle al dcp pcp =
     (case sliding_window_of spec of
        None \<Rightarrow> Inl AssertionError
      | Some w \<Rightarrow>
        py_assert (dcp = 1) (py_assert (pcp = 1)
        (let bs = block_size spec in
         rbind (py_cdiv (w - 1) bs) (\<lambda>contiguous.
         let needed = (if use_eagle then contiguous + 1 else contiguous);
             max_num_blocks = max_length div bs
         in rbind (sliding_window_loop p hashes gids use_eagle bs al needed (nat max_num_blocks)
                     (map (\<lambda>_. py_repeat (null_block p) max_num_blocks) gids) 0)
              (\<lambda>(computed, ncont, match_found).
            rbind (if match_found then Inr computed
                   else align_loop bs al (map (take (nat ncont)) computed)) (\<lambda>computed1.
            if use_eagle
            then case computed1 of
                   [] \<Rightarrow> Inl IndexError
                 | c # _ \<Rightarrow> if c = [] then Inr computed1
                            else rbind (pop_each computed1) (align_loop bs al)
            else Inr computed1))))))"

section \<open>Chunked local attention\<close>

fun chunked_scan ::
    "BlockPool \<Rightarrow> BlockHashList \<Rightarrow> int list \<Rightarrow> int list \<Rightarrow> bref list list \<Rightarrow> bref list list res" where
  "chunked_scan p hashes gids [] computed = Inr computed"
| "chunked_scan p hashes gids (i # rest) computed =
     rbind (bhl_get hashes i) (\<lambda>h.
     rbind (get_cached_block h gids p) (\<lambda>cb.
       case cb of
         Some (c # cs) \<Rightarrow> chunked_scan p hashes gids rest (append_each computed (c # cs))
       | _ \<Rightarrow> Inr computed))"

definition chunked_find_longest_cache_hit ::
    "BlockHashList \<Rightarrow> int \<Rightarrow> int list \<Rightarrow> BlockPool \<Rightarrow> KVCacheSpec \<Rightarrow> bool \<Rightarrow> int \<Rightarrow> int \<Rightarrow> int
     \<Rightarrow> bref list list res" where
  "chunked_find_longest_cache_hit hashes max_length gids p spec use_eagle al dcp pcp =
     (case chunk_size_of spec of
        None \<Rightarrow> Inl AssertionError
      | Some chunk \<Rightarrow>
        py_assert (\<not> use_eagle) (py_assert (dcp = 1) (py_assert (pcp = 1)
        (py_assert (block_size spec = al)
         (let bs = block_size spec in
          py_raise_if (bs = 0 \<or> (max_length > 0 \<and> chunk = 0)) ZeroDivisionError
          (let max_num_blocks = max_length div bs;
               start_idx = (if max_length > 0 then max_length div chunk * chunk else 0);
               start_block_idx = start_idx div bs
           in chunked_scan p hashes gids [start_block_idx .. max_num_blocks - 1]
                (map (\<lambda>_. py_repeat (null_block p) start_block_idx) gids)))))))"

section \<open>Mamba\<close>

fun mamba_scan ::
    "BlockPool \<Rightarrow> BlockHashList \<Rightarrow> int list \<Rightarrow> int \<Rightarrow> int \<Rightarrow> nat \<Rightarrow> bref list list res" where
  "mamba_scan p hashes gids bs al 0 = Inr (map (\<lambda>_. []) gids)"
| "mamba_scan p hashes gids bs al (Suc i) =
     rbind (bhl_get hashes (int i)) (\<lambda>h.
     rbind (get_cached_block h gids p) (\<lambda>cb.
       if falsy cb then mamba_scan p hashes gids bs al i
       else rbind (if bs = al then Inr 0 else py_mod ((int i + 1) * bs) al) (\<lambda>r.
            if r \<noteq> 0 then mamba_scan p hashes gids bs al i
            else Inr (append_each (map (\<lambda>_. py_repeat (null_block p) (int i)) gids) (the cb)))))"

definition mamba_find_longest_cache_hit ::
    "BlockHashList \<Rightarrow> int \<Rightarrow> int list \<Rightarrow> BlockPool \<Rightarrow> KVCacheSpec \<Rightarrow> bool \<Rightarrow> int \<Rightarrow> int \<Rightarrow> int
     \<Rightarrow> bref list list res" where
  "mamba_find_longest_cache_hit hashes max_length gids p spec use_eagle al dcp pcp =
     py_assert (is_MambaSpec spec) (py_assert (dcp = 1) (py_assert (pcp = 1)
      (py_raise_if (block_size spec = 0) ZeroDivisionError
        (mamba_scan p hashes gids (block_size spec) al (nat (max_length div block_size spec))))))"

section \<open>All classes\<close>

definition find_longest_cache_hit ::
    "manager_class \<Rightarrow> BlockHashList \<Rightarrow> int \<Rightarrow> int list \<Rightarrow> BlockPool \<Rightarrow> KVCacheSpec \<Rightarrow> bool \<Rightarrow> int
     \<Rightarrow> int \<Rightarrow> int \<Rightarrow> bref list list res" where
  "find_longest_cache_hit cls hashes max_length gids p spec use_eagle al dcp pcp =
     (case cls of
        FullAttentionManager \<Rightarrow>
          full_find_longest_cache_hit hashes max_length gids p spec use_eagle al dcp pcp
      | SinkFullAttentionManager \<Rightarrow>
          full_find_longest_cache_hit hashes max_length gids p spec use_eagle al dcp pcp
      | SlidingWindowManager \<Rightarrow>
          sliding_window_find_longest_cache_hit hashes max_length gids p spec use_eagle al dcp pcp
      | ChunkedLocalAttentionManager \<Rightarrow>
          chunked_find_longest_cache_hit hashes max_length gids p spec use_eagle al dcp pcp
      | MambaManager \<Rightarrow>
          mamba_find_longest_cache_hit hashes max_length gids p spec use_eagle al dcp pcp
      | CrossAttentionManager \<Rightarrow>
          py_assert (is_CrossAttentionSpec spec) (Inl NotImplementedError))"

end
