(* ===== verification/Coordinator.thy ===== *)
theory Coordinator
  imports CacheHit
begin

text \<open>
  \<^verbatim>\<open>vllm/v1/core/kv_cache_coordinator.py\<close>: the coordinator owns the block pool and one
  manager per KV cache group and forwards every operation to all managers.  The three classes
  (no prefix caching, one group, several types of groups) are one record with a class tag.
\<close>

section \<open>State\<close>

datatype coordinator_class =
  KVCacheCoordinatorNoPrefixCache | UnitaryKVCacheCoordinator | HybridKVCacheCoordinator

record KVCacheCoordinator =
  coord_class :: coordinator_class
  coord_config :: KVCacheConfig
  coord_max_model_len :: int
  coord_enable_caching :: bool
  eagle_group_ids :: "int list"
  single_type_managers :: "SingleTypeKVCacheManager list"
  block_pool :: BlockPool
  coord_block_size :: int
  coord_dcp :: int
  coord_pcp :: int
  coord_hash_block_size :: int
  attention_groups :: "(KVCacheSpec \<times> int list \<times> manager_class) list"
  lcm_block_size :: int
  eagle_attn_group_indices :: "nat list"

text \<open>A loop over the managers; \<open>e\<close> is what the body threads from one manager to the next.\<close>

fun each_manager ::
    "(nat \<Rightarrow> 'e \<Rightarrow> SingleTypeKVCacheManager \<Rightarrow> BlockPool \<Rightarrow> ('e \<times> SingleTypeKVCacheManager \<times> BlockPool) res)
     \<Rightarrow> nat \<Rightarrow> SingleTypeKVCacheManager list \<Rightarrow> 'e \<Rightarrow> BlockPool
     \<Rightarrow> ('e \<times> SingleTypeKVCacheManager list \<times> BlockPool) res" where
  "each_manager f i [] e p = Inr (e, [], p)"
| "each_manager f i (m # ms) e p =
     rbind (f i e m p) (\<lambda>(e1, m1, p1).
     rbind (each_manager f (Suc i) ms e1 p1) (\<lambda>(e2, ms2, p2). Inr (e2, m1 # ms2, p2)))"

definition on_managers ::
    "(nat \<Rightarrow> 'e \<Rightarrow> SingleTypeKVCacheManager \<Rightarrow> BlockPool \<Rightarrow> ('e \<times> SingleTypeKVCacheManager \<times> BlockPool) res)
     \<Rightarrow> 'e \<Rightarrow> KVCacheCoordinator \<Rightarrow> ('e \<times> KVCacheCoordinator) res" where
  "on_managers f e c =
     rbind (each_manager f 0 (single_type_managers c) e (block_pool c)) (\<lambda>(e1, ms, p).
     Inr (e1, c\<lparr>single_type_managers := ms, block_pool := p\<rparr>))"

section \<open>Construction\<close>

fun make_managers ::
    "int \<Rightarrow> int \<Rightarrow> bool \<Rightarrow> int \<Rightarrow> int \<Rightarrow> int \<Rightarrow> KVCacheGroupSpec list \<Rightarrow> BlockPool
     \<Rightarrow> (SingleTypeKVCacheManager list \<times> BlockPool) res" where
  "make_managers batched mml caching dcp pcp i [] p = Inr ([], p)"
| "make_managers batched mml caching dcp pcp i (g # gs) p =
     rbind (get_manager_for_kv_cache_spec (group_spec g) batched mml caching i dcp pcp p) (\<lambda>(m, p1).
     rbind (make_managers batched mml caching dcp pcp (i + 1) gs p1) (\<lambda>(ms, p2). Inr (m # ms, p2)))"

definition eagle_groups :: "bool \<Rightarrow> KVCacheGroupSpec list \<Rightarrow> int list" where
  "eagle_groups use_eagle groups =
     (let flagged = map (\<lambda>(i, _). int i) (filter (\<lambda>(i, g). is_eagle_group g) (enumerate 0 groups))
      in if use_eagle \<and> flagged = [] then [0 .. len groups - 1] else flagged)"

definition KVCacheCoordinator_init ::
    "coordinator_class \<Rightarrow> KVCacheConfig \<Rightarrow> int \<Rightarrow> int \<Rightarrow> bool \<Rightarrow> bool \<Rightarrow> bool \<Rightarrow> int \<Rightarrow> int \<Rightarrow> int
     \<Rightarrow> KVCacheCoordinator res" where
  "KVCacheCoordinator_init cls config mml batched use_eagle caching events dcp pcp hbs =
     rbind (BlockPool_init (num_blocks config) caching hbs events) (\<lambda>p0.
     rbind (make_managers batched mml caching dcp pcp 0 (kv_cache_groups config) p0) (\<lambda>(ms, p).
     Inr \<lparr>coord_class = cls, coord_config = config, coord_max_model_len = mml,
          coord_enable_caching = caching,
          eagle_group_ids = eagle_groups use_eagle (kv_cache_groups config),
          single_type_managers = ms, block_pool = p, coord_block_size = 0,
          coord_dcp = dcp, coord_pcp = pcp, coord_hash_block_size = hbs,
          attention_groups = [], lcm_block_size = 0, eagle_attn_group_indices = []\<rparr>))"

definition NoPrefixCache_init ::
    "KVCacheConfig \<Rightarrow> int \<Rightarrow> int \<Rightarrow> bool \<Rightarrow> bool \<Rightarrow> int \<Rightarrow> int \<Rightarrow> int \<Rightarrow> KVCacheCoordinator res" where
  "NoPrefixCache_init config mml batched use_eagle events dcp pcp hbs =
     KVCacheCoordinator_init KVCacheCoordinatorNoPrefixCache config mml batched use_eagle False
       events dcp pcp hbs"

definition Unitary_init ::
    "KVCacheConfig \<Rightarrow> int \<Rightarrow> int \<Rightarrow> bool \<Rightarrow> bool \<Rightarrow> bool \<Rightarrow> int \<Rightarrow> int \<Rightarrow> int \<Rightarrow> KVCacheCoordinator res" where
  "Unitary_init config mml batched use_eagle caching events dcp pcp hbs =
     rbind (KVCacheCoordinator_init UnitaryKVCacheCoordinator config mml batched use_eagle caching
              events dcp pcp hbs) (\<lambda>c.
     rbind (py_get (kv_cache_groups config) 0) (\<lambda>g.
     let bs0 = block_size (group_spec g);
         bs1 = (if dcp > 1 then bs0 * dcp else bs0);
         bs = (if pcp > 1 then bs1 * pcp else bs1)
     in py_assert (\<not> caching \<or> hbs = bs)
        (py_assert (len (kv_cache_groups config) = 1) (Inr (c\<lparr>coord_block_size := bs\<rparr>)))))"

fun add_to_group ::
    "int \<Rightarrow> KVCacheSpec \<Rightarrow> manager_class \<Rightarrow> (KVCacheSpec \<times> int list \<times> manager_class) list
     \<Rightarrow> (KVCacheSpec \<times> int list \<times> manager_class) list res" where
  "add_to_group i spec cls [] = Inr [(spec, [i], cls)]"
| "add_to_group i spec cls ((spec', ids, cls') # rest) =
     (if spec' = spec then py_assert (cls = cls') (Inr ((spec', ids @ [i], cls') # rest))
      else rbind (add_to_group i spec cls rest) (\<lambda>r. Inr ((spec', ids, cls') # r)))"

definition verify_and_split_kv_cache_groups :: "KVCacheCoordinator \<Rightarrow> KVCacheCoordinator res" where
  "verify_and_split_kv_cache_groups c =
     rbind (rfold (\<lambda>(i, g) groups.
              rbind (py_get (single_type_managers c) (int i)) (\<lambda>m.
              add_to_group (int i) (group_spec g) (mgr_class m) groups))
            (enumerate 0 (kv_cache_groups (coord_config c))) []) (\<lambda>groups.
     py_assert (length groups > 1)
      (let sorted_groups = filter (\<lambda>x. is_FullAttentionSpec (fst x)) groups @
                           filter (\<lambda>x. \<not> is_FullAttentionSpec (fst x)) groups
       in Inr (c\<lparr>attention_groups := sorted_groups,
                 lcm_block_size := foldr lcm (map (\<lambda>x. block_size (fst x)) groups) 1,
                 eagle_attn_group_indices := map fst (filter (\<lambda>(i, (_, ids, _)).
                   \<exists>g \<in> set ids. g \<in> set (eagle_group_ids c)) (enumerate 0 sorted_groups))\<rparr>)))"

definition Hybrid_init ::
    "KVCacheConfig \<Rightarrow> int \<Rightarrow> int \<Rightarrow> bool \<Rightarrow> bool \<Rightarrow> bool \<Rightarrow> int \<Rightarrow> int \<Rightarrow> int \<Rightarrow> KVCacheCoordinator res" where
  "Hybrid_init config mml batched use_eagle caching events dcp pcp hbs =
     rbind (KVCacheCoordinator_init HybridKVCacheCoordinator config mml batched use_eagle caching
              events dcp pcp hbs) (\<lambda>c.
     py_raise_if (hbs = 0 \<and> kv_cache_groups config \<noteq> []) ZeroDivisionError
      (py_assert (\<forall>g \<in> set (kv_cache_groups config). block_size (group_spec g) mod hbs = 0)
       (py_assert (dcp = 1) (py_assert (pcp = 1) (verify_and_split_kv_cache_groups c)))))"

definition get_kv_cache_coordinator ::
    "KVCacheConfig \<Rightarrow> int \<Rightarrow> int \<Rightarrow> bool \<Rightarrow> bool \<Rightarrow> bool \<Rightarrow> int \<Rightarrow> int \<Rightarrow> int \<Rightarrow> KVCacheCoordinator res" where
  "get_kv_cache_coordinator config mml batched use_eagle caching events dcp pcp hbs =
     (if \<not> caching then NoPrefixCache_init config mml batched use_eagle events dcp pcp hbs
      else if length (kv_cache_groups config) = 1
      then Unitary_init config mml batched use_eagle caching events dcp pcp hbs
      else Hybrid_init config mml batched use_eagle caching events dcp pcp hbs)"

section \<open>Operations forwarded to the managers\<close>

text \<open>The bodies of the loops over the managers.\<close>

definition need_step ::
    "string \<Rightarrow> int \<Rightarrow> bref list list \<Rightarrow> int \<Rightarrow> int \<Rightarrow> int \<Rightarrow> bool \<Rightarrow> nat \<Rightarrow> int
     \<Rightarrow> SingleTypeKVCacheManager \<Rightarrow> BlockPool \<Rightarrow> (int \<times> SingleTypeKVCacheManager \<times> BlockPool) res" where
  "need_step rid num_toks new_computed num_encoder total_computed main apply_cap i acc m p =
     rbind (if mgr_class m = CrossAttentionManager
            then mgr_get_num_blocks_to_allocate rid num_encoder [] 0 num_encoder apply_cap m p
            else rbind (py_get new_computed (int i)) (\<lambda>nc.
                 mgr_get_num_blocks_to_allocate rid num_toks nc total_computed main apply_cap m p))
       (\<lambda>(n, m'). Inr (acc + n, m', p))"

definition computed_step ::
    "hash_cfg \<Rightarrow> string \<Rightarrow> bref list list \<Rightarrow> int \<Rightarrow> int \<Rightarrow> nat \<Rightarrow> unit
     \<Rightarrow> SingleTypeKVCacheManager \<Rightarrow> BlockPool \<Rightarrow> (unit \<times> SingleTypeKVCacheManager \<times> BlockPool) res" where
  "computed_step cfg rid new_computed num_local num_external i u m p =
     rbind (py_get new_computed (int i)) (\<lambda>nc.
     rbind (mgr_allocate_new_computed_blocks cfg rid nc num_local num_external m p) (\<lambda>(m', p').
     Inr (u, m', p')))"

definition new_blocks_step ::
    "hash_cfg \<Rightarrow> string \<Rightarrow> int \<Rightarrow> int \<Rightarrow> int \<Rightarrow> nat \<Rightarrow> bref list list
     \<Rightarrow> SingleTypeKVCacheManager \<Rightarrow> BlockPool \<Rightarrow> (bref list list \<times> SingleTypeKVCacheManager \<times> BlockPool) res" where
  "new_blocks_step cfg rid num_toks main num_encoder i acc m p =
     rbind (mgr_allocate_new_blocks cfg rid
              (if mgr_class m = CrossAttentionManager then num_encoder else num_toks) main m p)
       (\<lambda>(bs, m', p'). Inr (acc @ [bs], m', p'))"

definition cache_step ::
    "hash_cfg \<Rightarrow> int \<Rightarrow> nat \<Rightarrow> Request \<Rightarrow> SingleTypeKVCacheManager \<Rightarrow> BlockPool
     \<Rightarrow> (Request \<times> SingleTypeKVCacheManager \<times> BlockPool) res" where
  "cache_step cfg n i r m p = mgr_cache_blocks cfg r n m p"

definition free_step ::
    "string \<Rightarrow> nat \<Rightarrow> unit \<Rightarrow> SingleTypeKVCacheManager \<Rightarrow> BlockPool
     \<Rightarrow> (unit \<times> SingleTypeKVCacheManager \<times> BlockPool) res" where
  "free_step rid i u m p = rbind (mgr_free rid m p) (\<lambda>(m', p'). Inr (u, m', p'))"

definition skip_step ::
    "string \<Rightarrow> int \<Rightarrow> nat \<Rightarrow> unit \<Rightarrow> SingleTypeKVCacheManager \<Rightarrow> BlockPool
     \<Rightarrow> (unit \<times> SingleTypeKVCacheManager \<times> BlockPool) res" where
  "skip_step rid n i u m p = rbind (mgr_remove_skipped_blocks rid n m p) (\<lambda>(m', p'). Inr (u, m', p'))"

definition coord_get_num_blocks_to_allocate ::
    "string \<Rightarrow> int \<Rightarrow> bref list list \<Rightarrow> int \<Rightarrow> int \<Rightarrow> int \<Rightarrow> bool \<Rightarrow> KVCacheCoordinator
     \<Rightarrow> (int \<times> KVCacheCoordinator) res" where
  "coord_get_num_blocks_to_allocate rid num_toks new_computed num_encoder total_computed main apply_cap c =
     on_managers (need_step rid num_toks new_computed num_encoder total_computed main apply_cap) 0 c"

definition coord_allocate_new_computed_blocks ::
    "hash_cfg \<Rightarrow> string \<Rightarrow> bref list list \<Rightarrow> int \<Rightarrow> int \<Rightarrow> KVCacheCoordinator
     \<Rightarrow> (unit \<times> KVCacheCoordinator) res" where
  "coord_allocate_new_computed_blocks cfg rid new_computed num_local num_external c =
     on_managers (computed_step cfg rid new_computed num_local num_external) () c"

definition coord_allocate_new_blocks ::
    "hash_cfg \<Rightarrow> string \<Rightarrow> int \<Rightarrow> int \<Rightarrow> int \<Rightarrow> KVCacheCoordinator
     \<Rightarrow> (bref list list \<times> KVCacheCoordinator) res" where
  "coord_allocate_new_blocks cfg rid num_toks main num_encoder c =
     on_managers (new_blocks_step cfg rid num_toks main num_encoder) [] c"

definition coord_cache_blocks ::
    "hash_cfg \<Rightarrow> Request \<Rightarrow> int \<Rightarrow> KVCacheCoordinator \<Rightarrow> (Request \<times> KVCacheCoordinator) res" where
  "coord_cache_blocks cfg r n c = on_managers (cache_step cfg n) r c"

definition coord_free :: "string \<Rightarrow> KVCacheCoordinator \<Rightarrow> (unit \<times> KVCacheCoordinator) res" where
  "coord_free rid c = on_managers (free_step rid) () c"

definition coord_remove_skipped_blocks ::
    "string \<Rightarrow> int \<Rightarrow> KVCacheCoordinator \<Rightarrow> (unit \<times> KVCacheCoordinator) res" where
  "coord_remove_skipped_blocks rid n c = on_managers (skip_step rid n) () c"

definition coord_get_num_common_prefix_blocks ::
    "string \<Rightarrow> KVCacheCoordinator \<Rightarrow> (int list \<times> KVCacheCoordinator) res" where
  "coord_get_num_common_prefix_blocks rid c =
     (if coord_class c = KVCacheCoordinatorNoPrefixCache
      then Inr (map (\<lambda>_. 0) (single_type_managers c), c)
      else on_managers (\<lambda>i acc m p.
             case mgr_get_num_common_prefix_blocks rid m p of (n, m') \<Rightarrow> Inr (acc @ [n], m', p)) [] c)"

definition coord_get_blocks :: "string \<Rightarrow> KVCacheCoordinator \<Rightarrow> bref list list" where
  "coord_get_blocks rid c = map (get_req_blocks rid) (single_type_managers c)"

definition coord_new_step_starts :: "KVCacheCoordinator \<Rightarrow> KVCacheCoordinator" where
  "coord_new_step_starts c =
     c\<lparr>single_type_managers := map mgr_new_step_starts (single_type_managers c)\<rparr>"

section \<open>The longest cache hit\<close>

definition spec_hashes :: "int \<Rightarrow> bytes list \<Rightarrow> KVCacheSpec \<Rightarrow> BlockHashList res" where
  "spec_hashes hbs hs spec =
     (if block_size spec = hbs then Inr (PlainHashes hs)
      else rbind (BlockHashListWithBlockSize_init hs hbs (block_size spec)) (\<lambda>b. Inr (ScaledHashes b)))"

definition py_set :: "'a list \<Rightarrow> int \<Rightarrow> 'a \<Rightarrow> 'a list res" where
  "py_set xs k v =
     (if py_pos (len xs) k < 0 \<or> py_pos (len xs) k \<ge> len xs then Inl IndexError
      else Inr (xs[nat (py_pos (len xs) k) := v]))"

definition set_group_blocks ::
    "int list \<Rightarrow> bref list list \<Rightarrow> bref list option list \<Rightarrow> bref list option list res" where
  "set_group_blocks gids hits hb = rfold (\<lambda>(g, b) hb'. py_set hb' g (Some b)) (zip gids hits) hb"

text \<open>One attention group in one pass: the current hit length, the blocks found so far and the
  attention groups whose EAGLE drop has been verified.\<close>

definition hybrid_group_step ::
    "KVCacheCoordinator \<Rightarrow> bytes list \<Rightarrow> int \<Rightarrow> nat \<times> KVCacheSpec \<times> int list \<times> manager_class
     \<Rightarrow> int \<times> bref list option list \<times> nat list \<Rightarrow> (int \<times> bref list option list \<times> nat list) res" where
  "hybrid_group_step c hs max_len grp st =
     (case grp of (idx, spec, gids, cls) \<Rightarrow> case st of (cur, hb, verified) \<Rightarrow>
      rbind (py_get gids 0) (\<lambda>g0.
      rbind (py_get hb g0) (\<lambda>cached.
        if is_FullAttentionSpec spec \<and> cached \<noteq> None
        then Inr (cur div block_size spec * block_size spec, hb, verified)
        else
          let use_eagle = (idx \<in> set (eagle_attn_group_indices c) \<and> idx \<notin> set verified);
              max_length = (if use_eagle then min (cur + block_size spec) max_len else cur)
          in rbind (spec_hashes (coord_hash_block_size c) hs spec) (\<lambda>hashes.
             rbind (find_longest_cache_hit cls hashes max_length gids (block_pool c) spec use_eagle
                      (lcm_block_size c) 1 1) (\<lambda>hits.
             rbind (py_get hits 0) (\<lambda>h0.
             let new_len = len h0 * block_size spec;
                 verified' = (if use_eagle then List.insert idx verified
                              else if new_len < cur then [] else verified)
             in rbind (set_group_blocks gids hits hb) (\<lambda>hb1. Inr (new_len, hb1, verified'))))))))"

fun hybrid_loop ::
    "nat \<Rightarrow> KVCacheCoordinator \<Rightarrow> bytes list \<Rightarrow> int \<Rightarrow> bool \<Rightarrow> int \<Rightarrow> bref list option list \<Rightarrow> nat list
     \<Rightarrow> (int \<times> bref list option list) res" where
  "hybrid_loop 0 c hs max_len simple hit_length hb verified = Inl Diverge"
| "hybrid_loop (Suc fuel) c hs max_len simple hit_length hb verified =
     rbind (rfold (hybrid_group_step c hs max_len) (enumerate 0 (attention_groups c))
              (hit_length, hb, verified)) (\<lambda>(cur, hb1, verified1).
       if cur \<ge> hit_length then Inr (hit_length, hb1)
       else if simple then Inr (cur, hb1)
       else hybrid_loop fuel c hs max_len simple cur hb1 verified1)"

definition trim_full ::
    "(KVCacheSpec \<times> int list \<times> manager_class) list \<Rightarrow> int \<Rightarrow> bref list option list
     \<Rightarrow> bref list option list res" where
  "trim_full groups hit_length hb =
     rbind (py_get groups 0) (\<lambda>(spec, gids, _).
       if is_FullAttentionSpec spec
       then rfold (\<lambda>g hb'. rbind (py_get hb' g) (\<lambda>b.
              py_set hb' g (map_option (\<lambda>bs. py_upto bs (hit_length div block_size spec)) b))) gids hb
       else Inr hb)"

definition hybrid_find_longest_cache_hit ::
    "KVCacheCoordinator \<Rightarrow> bytes list \<Rightarrow> int \<Rightarrow> (bref list list \<times> int) res" where
  "hybrid_find_longest_cache_hit c hs max_len =
     (let num_groups = length (kv_cache_groups (coord_config c)) in
      rbind (py_get (attention_groups c) 0) (\<lambda>first.
      let simple = (length (attention_groups c) = 2 \<and> is_FullAttentionSpec (fst first)) in
      rbind (hybrid_loop (nat max_len + 2) c hs max_len simple max_len (replicate num_groups None) [])
        (\<lambda>(hit_length, hb).
      rbind (trim_full (attention_groups c) hit_length hb) (\<lambda>hb1.
      Inr (map (\<lambda>b. case b of None \<Rightarrow> [] | Some bs \<Rightarrow> bs) hb1, hit_length)))))"

definition coord_find_longest_cache_hit ::
    "KVCacheCoordinator \<Rightarrow> bytes list \<Rightarrow> int \<Rightarrow> (bref list list \<times> int) res" where
  "coord_find_longest_cache_hit c hs max_len =
     (case coord_class c of
        KVCacheCoordinatorNoPrefixCache \<Rightarrow> Inr (map (\<lambda>_. []) (single_type_managers c), 0)
      | UnitaryKVCacheCoordinator \<Rightarrow>
          rbind (py_get (single_type_managers c) 0) (\<lambda>m.
          rbind (py_get (kv_cache_groups (coord_config c)) 0) (\<lambda>g.
          rbind (find_longest_cache_hit (mgr_class m) (PlainHashes hs) max_len [0] (block_pool c)
                   (group_spec g) (0 \<in> set (eagle_group_ids c)) (coord_block_size c)
                   (coord_dcp c) (coord_pcp c)) (\<lambda>hits.
          rbind (py_get hits 0) (\<lambda>h0. Inr (hits, len h0 * coord_block_size c)))))
      | HybridKVCacheCoordinator \<Rightarrow> hybrid_find_longest_cache_hit c hs max_len)"

end
