(* ===== verification/ManagerInv.thy ===== *)
theory ManagerInv
  imports SingleType
begin

text \<open>
  The invariant of a manager together with the block pool: the reference count of a block is
  the number of times the managers list it, a request never lists a block twice, and the
  blocks of a request beyond those already cached carry no hash and belong to it alone.
  Every operation of a manager is shown to change the reference counts by exactly what it
  changes in its own lists, which is what the coordinator needs to compose them.
\<close>

section \<open>References held by a manager\<close>

definition list_refs :: "(string \<times> bref list) list \<Rightarrow> nat \<Rightarrow> nat" where
  "list_refs al b = sum_list (map (\<lambda>x. count_list (snd x) (Blk b)) al)"

abbreviation mgr_refs :: "SingleTypeKVCacheManager \<Rightarrow> nat \<Rightarrow> nat" where
  "mgr_refs m b \<equiv> list_refs (req_to_blocks m) b"

abbreviation held :: "(string \<times> bref list) list \<Rightarrow> string \<Rightarrow> bref list" where
  "held al rid \<equiv> (case map_of al rid of Some bs \<Rightarrow> bs | None \<Rightarrow> [])"

lemma list_refs_simps [simp]:
  "list_refs [] b = 0"
  "list_refs (x # al) b = count_list (snd x) (Blk b) + list_refs al b"
  by (simp_all add: list_refs_def)

lemma list_refs_update:
  "distinct (map fst al) \<Longrightarrow>
     list_refs (AList.update rid bs al) b + count_list (held al rid) (Blk b) =
     list_refs al b + count_list bs (Blk b)"
proof (induction al)
  case (Cons x al)
  then show ?case
    by (cases x) (auto simp: map_of_eq_None_iff dom_map_of_conv_image_fst split: option.splits)
qed simp

lemma list_refs_delete:
  "distinct (map fst al) \<Longrightarrow>
     list_refs (AList.delete rid al) b + count_list (held al rid) (Blk b) = list_refs al b"
proof (induction al)
  case (Cons x al)
  obtain k bs where x: "x = (k, bs)" by (cases x)
  show ?case
  proof (cases "k = rid")
    case True
    then have "map_of al rid = None" using Cons.prems x by (simp add: map_of_eq_None_iff)
    then have "AList.delete rid al = al" by (simp add: delete_id map_of_eq_None_iff)
    then show ?thesis using x True by (simp add: AList.delete_eq)
  next
    case False
    then show ?thesis using Cons x by (simp add: AList.delete_eq)
  qed
qed (simp add: AList.delete_eq)

lemma list_refs_ge: "count_list (held al rid) (Blk b) \<le> list_refs al b"
proof (induction al)
  case (Cons x al)
  then show ?case by (cases x) (auto split: option.splits)
qed simp

text \<open>A block two requests of a manager list is counted twice.\<close>

lemma list_refs_two:
  assumes "distinct (map fst al)" "rid \<noteq> rid'"
  shows "count_list (held al rid) (Blk b) + count_list (held al rid') (Blk b) \<le> list_refs al b"
proof -
  have "count_list (held (AList.delete rid al) rid') (Blk b) \<le> list_refs (AList.delete rid al) b"
    by (rule list_refs_ge)
  moreover have "held (AList.delete rid al) rid' = held al rid'"
    using assms(2) by (simp add: delete_conv)
  ultimately show ?thesis using list_refs_delete [OF assms(1), of rid b] by simp
qed

lemma get_req_blocks_held: "get_req_blocks rid m = held (req_to_blocks m) rid"
  by (simp add: get_req_blocks_def)

lemma get_set_req_blocks [simp]:
  "get_req_blocks rid' (set_req_blocks rid bs m) = (if rid' = rid then bs else get_req_blocks rid' m)"
  by (simp add: get_req_blocks_def set_req_blocks_def update_conv)

lemma get_touch_req [simp]: "get_req_blocks rid' (touch_req rid m) = get_req_blocks rid' m"
  by (simp add: touch_req_def)

section \<open>The invariant of a manager\<close>

definition blocks_ok :: "BlockPool \<Rightarrow> nat list \<Rightarrow> bool" where
  "blocks_ok p ns \<longleftrightarrow> distinct (filter (\<lambda>b. 0 < b) ns) \<and> (\<forall>b \<in> set ns. 0 < b \<longrightarrow> in_pool p b)"

definition cached_upto :: "SingleTypeKVCacheManager \<Rightarrow> string \<Rightarrow> int" where
  "cached_upto m rid = (case num_cached_block m rid of Some n \<Rightarrow> n | None \<Rightarrow> 0)"

definition own_block :: "BlockPool \<Rightarrow> nat \<Rightarrow> bool" where
  "own_block p b \<longleftrightarrow> rc p b = 1 \<and> hash_of p b = None"

definition req_ok :: "SingleTypeKVCacheManager \<Rightarrow> BlockPool \<Rightarrow> string \<Rightarrow> bool" where
  "req_ok m p rid \<longleftrightarrow>
     (\<exists>ns. get_req_blocks rid m = map Blk ns \<and> blocks_ok p ns \<and>
       0 \<le> cached_upto m rid \<and> cached_upto m rid \<le> len ns \<and>
       (\<forall>b \<in> set (drop (nat (cached_upto m rid)) ns). 0 < b \<longrightarrow> own_block p b))"

lemma req_okI:
  assumes "get_req_blocks rid m = map Blk ns" "blocks_ok p ns"
    and "0 \<le> cached_upto m rid" "cached_upto m rid \<le> len ns"
    and "\<And>b. b \<in> set (drop (nat (cached_upto m rid)) ns) \<Longrightarrow> 0 < b \<Longrightarrow> own_block p b"
  shows "req_ok m p rid"
  using assms by (auto simp: req_ok_def)

definition mgr_ok :: "SingleTypeKVCacheManager \<Rightarrow> BlockPool \<Rightarrow> bool" where
  "mgr_ok m p \<longleftrightarrow>
     mgr_null_block m = Blk 0 \<and> 0 < mgr_block_size m \<and> distinct (map fst (req_to_blocks m)) \<and>
     (\<forall>rid. req_ok m p rid)"

text \<open>The fields no operation changes.\<close>

definition same_mgr :: "SingleTypeKVCacheManager \<Rightarrow> SingleTypeKVCacheManager \<Rightarrow> bool" where
  "same_mgr m m' \<longleftrightarrow>
     mgr_class m' = mgr_class m \<and> mgr_block_size m' = mgr_block_size m \<and>
     kv_cache_spec m' = kv_cache_spec m \<and> mgr_enable_caching m' = mgr_enable_caching m \<and>
     max_admission_blocks m' = max_admission_blocks m \<and> kv_cache_group_id m' = kv_cache_group_id m \<and>
     mgr_null_block m' = mgr_null_block m \<and> sliding_window m' = sliding_window m \<and>
     attention_chunk_size m' = attention_chunk_size m \<and>
     mgr_mamba_cache_mode m' = mgr_mamba_cache_mode m \<and>
     mgr_num_speculative_blocks m' = mgr_num_speculative_blocks m"

text \<open>\<open>spares m p p'\<close>: the blocks that belong to a single holder other than \<open>m\<close> are left alone.\<close>

definition spares :: "SingleTypeKVCacheManager \<Rightarrow> BlockPool \<Rightarrow> BlockPool \<Rightarrow> bool" where
  "spares m p p' \<longleftrightarrow> (\<forall>b. 0 < b \<and> mgr_refs m b = 0 \<and> own_block p b \<longrightarrow> own_block p' b)"

definition balanced ::
    "SingleTypeKVCacheManager \<Rightarrow> BlockPool \<Rightarrow> SingleTypeKVCacheManager \<Rightarrow> BlockPool \<Rightarrow> bool" where
  "balanced m p m' p' \<longleftrightarrow>
     (\<forall>b. 0 < b \<longrightarrow> rc p' b + int (mgr_refs m b) = rc p b + int (mgr_refs m' b))"

text \<open>Without prefix caching no block ever carries a hash.\<close>

definition hash_ok :: "BlockPool \<Rightarrow> bool" where
  "hash_ok p \<longleftrightarrow> enable_caching p \<or> (\<forall>b. hash_of p b = None)"

text \<open>The contract of a step of a manager on the pool.\<close>

definition mgr_step ::
    "SingleTypeKVCacheManager \<Rightarrow> BlockPool \<Rightarrow> nat list \<Rightarrow>
     SingleTypeKVCacheManager \<Rightarrow> BlockPool \<Rightarrow> nat list \<Rightarrow> bool" where
  "mgr_step m p xs m' p' xs' \<longleftrightarrow>
     pool_inv p' xs' \<and> same_setup p p' \<and> hash_ok p' \<and> mgr_ok m' p' \<and> same_mgr m m' \<and>
     balanced m p m' p' \<and> spares m p p'"

text \<open>The situation in which a manager steps: the pool is sound and counts at least its
  references.\<close>

definition mgr_ready :: "SingleTypeKVCacheManager \<Rightarrow> BlockPool \<Rightarrow> nat list \<Rightarrow> bool" where
  "mgr_ready m p xs \<longleftrightarrow>
     pool_inv p xs \<and> hash_ok p \<and> mgr_ok m p \<and> (\<forall>b. 0 < b \<longrightarrow> int (mgr_refs m b) \<le> rc p b)"

lemma same_mgr_refl [simp]: "same_mgr m m"
  by (simp add: same_mgr_def)

lemma same_mgr_trans: "same_mgr m m' \<Longrightarrow> same_mgr m' m'' \<Longrightarrow> same_mgr m m''"
  by (simp add: same_mgr_def)

lemma same_mgr_updates [simp]:
  "same_mgr m (set_req_blocks rid bs m)" "same_mgr m (touch_req rid m)"
  "same_mgr m (m\<lparr>req_to_blocks := al, num_cached_block := f\<rparr>)"
  "same_mgr m (m\<lparr>num_cached_block := f\<rparr>)" "same_mgr m (note_new_blocks bs p m)"
  by (simp_all add: same_mgr_def set_req_blocks_def touch_req_def note_new_blocks_def)

lemma hash_ok_same:
  "mgr_ready m p xs \<Longrightarrow> same_setup p p' \<Longrightarrow> (\<And>b. hash_of p' b = hash_of p b) \<Longrightarrow> hash_ok p'"
  by (simp add: mgr_ready_def hash_ok_def same_setup_def)

lemma own_block_listed:
  assumes "mgr_ready m p xs" "0 < b" "own_block p b"
  shows "mgr_refs m b \<le> 1"
proof -
  have "int (mgr_refs m b) \<le> rc p b" using assms(1,2) by (simp add: mgr_ready_def)
  then show ?thesis using assms(3) by (simp add: own_block_def)
qed

lemma in_held_count: "Blk b \<in> set (get_req_blocks rid m) \<Longrightarrow> 1 \<le> mgr_refs m b"
  using list_refs_ge [of "req_to_blocks m" rid b]
  by (metis get_req_blocks_held count_list_0_iff le_trans less_one not_le)

lemma count_list_map_Blk [simp]: "count_list (map Blk ns) (Blk b) = count_list ns b"
  by (induction ns) auto

text \<open>\<open>replaced rid ns ns' m m'\<close>: \<open>m'\<close> is \<open>m\<close> with the blocks \<open>ns\<close> of one request changed to \<open>ns'\<close>.\<close>

definition replaced ::
    "string \<Rightarrow> nat list \<Rightarrow> nat list \<Rightarrow> SingleTypeKVCacheManager \<Rightarrow> SingleTypeKVCacheManager \<Rightarrow> bool" where
  "replaced rid ns ns' m m' \<longleftrightarrow>
     get_req_blocks rid m = map Blk ns \<and>
     (req_to_blocks m' = AList.update rid (map Blk ns') (req_to_blocks m) \<or>
      ns' = [] \<and> req_to_blocks m' = AList.delete rid (req_to_blocks m) \<or>
      ns' = ns \<and> req_to_blocks m' = req_to_blocks m) \<and>
     (\<forall>rid'. rid' \<noteq> rid \<longrightarrow> num_cached_block m' rid' = num_cached_block m rid') \<and> same_mgr m m'"

lemma replaced_held:
  assumes "replaced rid ns ns' m m'"
  shows "get_req_blocks rid' m' = (if rid' = rid then map Blk ns' else get_req_blocks rid' m)"
  using assms by (auto simp: replaced_def get_req_blocks_def AList.update_conv AList.delete_conv)

lemma replaced_refs:
  assumes "replaced rid ns ns' m m'" "distinct (map fst (req_to_blocks m))"
  shows "mgr_refs m' b + count_list ns b = mgr_refs m b + count_list ns' b"
    "distinct (map fst (req_to_blocks m'))"
proof -
  have h: "count_list (held (req_to_blocks m) rid) (Blk b) = count_list ns b"
    using assms(1) by (simp add: replaced_def get_req_blocks_held)
  show "mgr_refs m' b + count_list ns b = mgr_refs m b + count_list ns' b"
    using assms(1) list_refs_update [OF assms(2), of rid "map Blk ns'" b]
      list_refs_delete [OF assms(2), of rid b]
    unfolding h replaced_def by auto
  show "distinct (map fst (req_to_blocks m'))"
    using assms by (auto simp: replaced_def AList.distinct_update AList.distinct_delete)
qed

lemma mgr_step_replace:
  assumes ready: "mgr_ready m p xs" and rep: "replaced rid ns ns' m m'"
    and pool: "pool_inv p' xs'" "same_setup p p'" "hash_ok p'"
    and bal: "\<And>b. 0 < b \<Longrightarrow> rc p' b + int (count_list ns b) = rc p b + int (count_list ns' b)"
    and own: "\<And>b. 0 < b \<Longrightarrow> own_block p b \<Longrightarrow> b \<notin> set ns \<Longrightarrow> own_block p' b"
    and req: "req_ok m' p' rid"
  shows "mgr_step m p xs m' p' xs'"
proof -
  have ok: "mgr_ok m p" and d: "distinct (map fst (req_to_blocks m))"
    using ready by (auto simp: mgr_ready_def mgr_ok_def)
  note refs = replaced_refs [OF rep d]
  have cnt: "count_list (get_req_blocks rid m) (Blk b) = count_list ns b" for b
    using rep by (simp add: replaced_def)
  have other: "req_ok m' p' rid'" if ne: "rid' \<noteq> rid" for rid'
  proof -
    obtain ns1 where n: "get_req_blocks rid' m = map Blk ns1" "blocks_ok p ns1"
      "0 \<le> cached_upto m rid'" "cached_upto m rid' \<le> len ns1"
      "\<forall>b \<in> set (drop (nat (cached_upto m rid')) ns1). 0 < b \<longrightarrow> own_block p b"
      using ok unfolding mgr_ok_def req_ok_def by meson
    have "b \<notin> set ns" if b: "b \<in> set ns1" "0 < b" "own_block p b" for b
    proof
      assume "b \<in> set ns"
      then have "1 \<le> count_list ns b" "1 \<le> count_list ns1 b"
        using b(1) by (simp_all add: Suc_le_eq count_list_0_iff neq0_conv [symmetric])
      moreover have "count_list ns b + count_list ns1 b \<le> mgr_refs m b"
        using list_refs_two [OF d ne [symmetric], of b] cnt [of b] n(1)
        by (simp add: get_req_blocks_held)
      ultimately show False using own_block_listed [OF ready b(2,3)] by simp
    qed
    then have "\<forall>b \<in> set (drop (nat (cached_upto m rid')) ns1). 0 < b \<longrightarrow> own_block p' b"
      using n(5) own by (meson in_set_dropD)
    moreover have "blocks_ok p' ns1" using n(2) pool(2) by (simp add: blocks_ok_def same_setup_def)
    moreover have "cached_upto m' rid' = cached_upto m rid'" "get_req_blocks rid' m' = map Blk ns1"
      using rep ne n(1) replaced_held [OF rep] by (simp_all add: cached_upto_def replaced_def)
    ultimately show ?thesis using n(3,4) by (auto simp: req_ok_def)
  qed
  have "mgr_ok m' p'"
    using other req ok refs(2) rep unfolding mgr_ok_def replaced_def same_mgr_def by metis
  moreover have "balanced m p m' p'"
    unfolding balanced_def
  proof (intro allI impI)
    fix b :: nat
    assume "0 < b"
    then show "rc p' b + int (mgr_refs m b) = rc p b + int (mgr_refs m' b)"
      using bal [of b] refs(1) [of b] by linarith
  qed
  moreover have "spares m p p'"
    unfolding spares_def
  proof (intro allI impI, elim conjE)
    fix b :: nat
    assume b: "0 < b" "mgr_refs m b = 0" "own_block p b"
    have "b \<notin> set ns"
      using in_held_count [of b rid m] b(2) rep by (auto simp: replaced_def)
    then show "own_block p' b" using own b by simp
  qed
  ultimately show ?thesis
    using pool rep by (simp add: mgr_step_def replaced_def)
qed

lemma req_okE:
  assumes "mgr_ready m p xs"
  obtains ns where "get_req_blocks rid m = map Blk ns" "blocks_ok p ns"
    "0 \<le> cached_upto m rid" "cached_upto m rid \<le> len ns"
    "\<And>b. b \<in> set (drop (nat (cached_upto m rid)) ns) \<Longrightarrow> 0 < b \<Longrightarrow> own_block p b"
    "\<And>b. 0 < b \<Longrightarrow> int (count_list ns b) \<le> rc p b"
proof -
  obtain ns where ns: "get_req_blocks rid m = map Blk ns" "blocks_ok p ns"
    "0 \<le> cached_upto m rid" "cached_upto m rid \<le> len ns"
    "\<forall>b \<in> set (drop (nat (cached_upto m rid)) ns). 0 < b \<longrightarrow> own_block p b"
    using assms unfolding mgr_ready_def mgr_ok_def req_ok_def by meson
  have "int (count_list ns b) \<le> rc p b" if "0 < b" for b
  proof -
    have "count_list ns b \<le> mgr_refs m b"
      using list_refs_ge [of "req_to_blocks m" rid b] ns(1) by (simp add: get_req_blocks_held)
    moreover have "int (mgr_refs m b) \<le> rc p b" using assms that by (simp add: mgr_ready_def)
    ultimately show ?thesis by linarith
  qed
  then show ?thesis using that ns by blast
qed

lemma req_ok_blocks:
  assumes "mgr_ready m p xs" "get_req_blocks rid m = map Blk ns"
  shows "blocks_ok p ns" "0 \<le> cached_upto m rid" "cached_upto m rid \<le> len ns"
    "b \<in> set (drop (nat (cached_upto m rid)) ns) \<Longrightarrow> 0 < b \<Longrightarrow> own_block p b"
    "0 < b \<Longrightarrow> int (count_list ns b) \<le> rc p b"
proof -
  obtain ns0 where n: "get_req_blocks rid m = map Blk ns0" "blocks_ok p ns0"
    "0 \<le> cached_upto m rid" "cached_upto m rid \<le> len ns0"
    "\<And>b. b \<in> set (drop (nat (cached_upto m rid)) ns0) \<Longrightarrow> 0 < b \<Longrightarrow> own_block p b"
    "\<And>b. 0 < b \<Longrightarrow> int (count_list ns0 b) \<le> rc p b"
    using req_okE [OF assms(1), of rid] by metis
  have "ns = ns0" using assms(2) n(1) by (simp add: inj_map_eq_map inj_def)
  then show "blocks_ok p ns" "0 \<le> cached_upto m rid" "cached_upto m rid \<le> len ns"
    "b \<in> set (drop (nat (cached_upto m rid)) ns) \<Longrightarrow> 0 < b \<Longrightarrow> own_block p b"
    "0 < b \<Longrightarrow> int (count_list ns b) \<le> rc p b"
    using n(2-) by simp_all
qed

section \<open>Freeing\<close>

lemma count_list_le_set: "1 \<le> count_list ns b \<longleftrightarrow> b \<in> set ns"
  by (simp add: Suc_le_eq neq0_conv [symmetric] count_list_0_iff)

lemma blocks_ok_freeable:
  assumes "blocks_ok p ns" "\<And>b. 0 < b \<Longrightarrow> int (count_list ns b) \<le> rc p b"
    and "set ms \<subseteq> set ns" "distinct (filter (\<lambda>b. 0 < b) ms)"
  shows "freeable p ms"
proof -
  have "1 \<le> rc p b" if "b \<in> set ns" "0 < b" for b
  proof -
    have "1 \<le> count_list ns b" using that count_list_le_set [of ns b] by simp
    then show ?thesis using assms(2) [OF that(2)] by linarith
  qed
  then show ?thesis using assms by (auto simp: freeable_def blocks_ok_def)
qed

lemma count_list_rev [simp]: "count_list (rev ns) b = count_list ns b"
  by (induction ns) auto

text \<open>Dropping references to blocks of \<open>ns\<close> leaves the single-holder blocks of others alone.\<close>

lemma own_block_after_free:
  assumes "\<And>c. rc p' c = rc p c - int (count_list ms c)" "\<And>c. hash_of p' c = hash_of p c"
    and "set ms \<subseteq> set ns" "own_block p b" "b \<notin> set ns"
  shows "own_block p' b"
proof -
  have "count_list ms b = 0" using assms(3,5) by (auto simp: count_list_0_iff)
  then show ?thesis using assms(1,2,4) by (simp add: own_block_def)
qed

lemma base_free_ok:
  assumes "mgr_ready m p xs" "get_req_blocks rid m = map Blk ns"
  shows "\<exists>m' p'. base_free rid m p = Inr (m', p') \<and> mgr_step m p xs m' p' (xs @ last_refs p (rev ns)) \<and>
    get_req_blocks rid m' = [] \<and> num_cached_block m' rid = None"
proof -
  note ns = req_ok_blocks(1) [OF assms] req_ok_blocks(5) [OF assms]
  have "freeable p (rev ns)"
    using blocks_ok_freeable [OF ns] ns(1) by (simp add: blocks_ok_def rev_filter [symmetric])
  then obtain p' where p': "free_blocks (map Blk (rev ns)) p = Inr p'"
    "pool_inv p' (xs @ last_refs p (rev ns))" "same_setup p p'"
    "\<And>c. rc p' c = rc p c - int (count_list (rev ns) c)" "\<And>c. hash_of p' c = hash_of p c"
    using free_blocks_ok [of p xs "rev ns"] assms(1) by (auto simp: mgr_ready_def)
  let ?m = "m\<lparr>req_to_blocks := AList.delete rid (req_to_blocks m),
      num_cached_block := (num_cached_block m)(rid := None)\<rparr>"
  have rep: "replaced rid ns [] m ?m" using assms(2) by (simp add: replaced_def)
  have "req_ok ?m p' rid"
    using replaced_held [OF rep, of rid] by (simp add: req_ok_def blocks_ok_def cached_upto_def)
  moreover have "own_block p' b" if "own_block p b" "b \<notin> set ns" for b
    using own_block_after_free [OF p'(4,5) _ that] by simp
  ultimately have "mgr_step m p xs ?m p' (xs @ last_refs p (rev ns))"
    using p'(4) by (intro mgr_step_replace [OF assms(1) rep p'(2,3) hash_ok_same [OF assms(1) p'(3,5)]]) auto
  then show ?thesis
    using p'(1) assms(2) replaced_held [OF rep, of rid] by (auto simp: base_free_def rev_map)
qed

section \<open>Removing blocks outside the window\<close>

lemma null_out_loop_spec:
  assumes "k \<le> length ns"
  shows "\<exists>j ms. j \<le> k \<and> null_out_loop (Blk 0) k (map Blk ns) =
      (map Blk ms, map Blk (take j ns @ replicate (k - j) 0 @ drop k ns)) \<and>
    ms = rev (take (k - j) (drop j ns)) \<and> 0 \<notin> set ms \<and> (j = 0 \<or> ns ! (j - 1) = 0)"
  using assms
proof (induction k arbitrary: ns)
  case 0
  then show ?case by simp
next
  case (Suc i)
  then have i: "i < length ns" by simp
  show ?case
  proof (cases "ns ! i = 0")
    case True
    then have "null_out_loop (Blk 0) (Suc i) (map Blk ns) = ([], map Blk ns)" using i by simp
    then show ?thesis using True i by (intro exI [of _ "Suc i"] exI [of _ "[]"]) simp
  next
    case False
    let ?ns = "ns[i := 0]"
    obtain j ms where j: "j \<le> i" "null_out_loop (Blk 0) i (map Blk ?ns) =
        (map Blk ms, map Blk (take j ?ns @ replicate (i - j) 0 @ drop i ?ns))"
      "ms = rev (take (i - j) (drop j ?ns))" "0 \<notin> set ms" "j = 0 \<or> ?ns ! (j - 1) = 0"
      using Suc.IH [of ?ns] i unfolding length_list_update by (metis less_imp_le)
    have d: "drop i ?ns = 0 # drop (Suc i) ns"
      using i by (simp add: drop_update_cancel Cons_nth_drop_Suc [symmetric])
    have t: "take j ?ns = take j ns" using j(1) by (simp add: take_update_cancel)
    have t2: "take (i - j) (drop j ?ns) = take (i - j) (drop j ns)"
      using j(1) by (simp add: drop_update_swap)
    have sn: "take (Suc i - j) (drop j ns) = take (i - j) (drop j ns) @ [ns ! i]"
      using i j(1) by (simp add: Suc_diff_le take_Suc_conv_app_nth)
    have "replicate (Suc i - j) x = replicate (i - j) x @ [x]" for x :: bref
      using j(1) by (simp add: Suc_diff_le replicate_append_same)
    then have "null_out_loop (Blk 0) (Suc i) (map Blk ns) =
        (map Blk (ns ! i # ms), map Blk (take j ns @ replicate (Suc i - j) 0 @ drop (Suc i) ns))"
      using False i j(2) unfolding t d by (simp add: map_update [symmetric])
    moreover have "j = 0 \<or> ns ! (j - 1) = 0" using j(1,5) by (cases j) auto
    ultimately show ?thesis
      using j(1,3,4) False unfolding t2 sn
      by (intro exI [of _ j] exI [of _ "ns ! i # ms"]) (auto simp: sn)
  qed
qed

lemma nth_in_drop: "i \<le> n \<Longrightarrow> n < length xs \<Longrightarrow> xs ! n \<in> set (drop i xs)"
  using nth_mem [of "n - i" "drop i xs"] by simp

text \<open>The blocks of a request after the first \<open>k\<close> positions have been cleared.\<close>

lemma cleared_blocks:
  fixes ns :: "nat list"
  assumes "j \<le> k" "k \<le> length ns" "ms = rev (take (k - j) (drop j ns))"
    and "ns' = take j ns @ replicate (k - j) 0 @ drop k ns"
  shows "length ns' = length ns" "set ms \<subseteq> set ns" "set ns' \<subseteq> insert 0 (set ns)"
    "0 < b \<Longrightarrow> count_list ns b = count_list ns' b + count_list ms b"
    "set (drop i ns') \<subseteq> insert 0 (set (drop i ns))"
    "distinct (filter (\<lambda>b. 0 < b) ns) \<Longrightarrow>
       distinct (filter (\<lambda>b. 0 < b) ms) \<and> distinct (filter (\<lambda>b. 0 < b) ns')"
proof -
  have split: "ns = take j ns @ take (k - j) (drop j ns) @ drop k ns"
    using assms(1) by (metis append_take_drop_id drop_drop le_add_diff_inverse2)
  show "length ns' = length ns" using assms by simp
  show "set ms \<subseteq> set ns" using assms(3) by (auto dest!: in_set_takeD in_set_dropD)
  show "set ns' \<subseteq> insert 0 (set ns)"
    using assms(4) by (auto dest!: in_set_takeD in_set_dropD)
  show "count_list ns b = count_list ns' b + count_list ms b" if "0 < b"
  proof -
    have "count_list (replicate (k - j) 0) b = 0"
      using that by (subst count_list_0_iff) (simp add: set_replicate_conv_if)
    then show ?thesis unfolding assms(3,4) by (subst split) simp
  qed
  have "x \<in> insert 0 (set (drop i ns))" if x: "x \<in> set (drop i ns')" for x
  proof -
    obtain n where n: "i \<le> n" "n < length ns'" "x = ns' ! n"
      using x by (auto simp: in_set_conv_nth) (metis add.commute le_add1 less_diff_conv)
    have "ns' ! n = ns ! n \<or> ns' ! n = 0"
      using assms(1,2) n(2) unfolding assms(4) by (auto simp: nth_append)
    moreover have "ns ! n \<in> set (drop i ns)"
      using n(1,2) \<open>length ns' = length ns\<close> by (simp add: nth_in_drop)
    ultimately show ?thesis using n(3) by auto
  qed
  then show "set (drop i ns') \<subseteq> insert 0 (set (drop i ns))" by blast
  show "distinct (filter (\<lambda>b. 0 < b) ms) \<and> distinct (filter (\<lambda>b. 0 < b) ns')"
    if "distinct (filter (\<lambda>b. 0 < b) ns)"
  proof -
    have "distinct (filter (\<lambda>b. 0 < b) (take j ns @ take (k - j) (drop j ns) @ drop k ns))"
      using that split by simp
    then show ?thesis unfolding assms(3,4) by (auto simp: rev_filter [symmetric])
  qed
qed

lemma base_remove_skipped_blocks_ok:
  assumes "mgr_ready m p xs" "get_num_skipped_tokens m n = Inr sk"
    and "get_req_blocks rid m = map Blk ns"
  shows "\<exists>m' p' ns' ms. base_remove_skipped_blocks rid n m p = Inr (m', p') \<and>
    mgr_step m p xs m' p' (xs @ last_refs p ms) \<and>
    get_req_blocks rid m' = map Blk ns' \<and> length ns' = length ns \<and>
    num_cached_block m' = num_cached_block m \<and> (\<forall>b. hash_of p' b = hash_of p b) \<and>
    (\<forall>rid'. rid' \<noteq> rid \<longrightarrow> get_req_blocks rid' m' = get_req_blocks rid' m) \<and>
    (\<forall>i < length ns. i < nat (sk div mgr_block_size m) \<or> ns' ! i = ns ! i)"
proof (cases "sk \<le> 0")
  case True
  have "mgr_step m p xs m p xs"
    using assms(1) by (auto simp: mgr_step_def mgr_ready_def balanced_def spares_def)
  then show ?thesis
    using True assms(2,3)
    by (intro exI [of _ m] exI [of _ p] exI [of _ ns] exI [of _ "[]"])
      (simp add: base_remove_skipped_blocks_def last_refs_def)
next
  case False
  note ns = req_ok_blocks [OF assms(1,3)]
  have bs: "0 < mgr_block_size m" "mgr_null_block m = Blk 0"
    using assms(1) by (auto simp: mgr_ready_def mgr_ok_def)
  let ?k = "nat (min (sk div mgr_block_size m) (len ns))"
  have k: "?k \<le> length ns" by simp
  obtain j ms where j: "j \<le> ?k" "ms = rev (take (?k - j) (drop j ns))" "0 \<notin> set ms"
    "null_out_loop (Blk 0) ?k (map Blk ns) =
      (map Blk ms, map Blk (take j ns @ replicate (?k - j) 0 @ drop ?k ns))"
    using null_out_loop_spec [OF k] by blast
  define ns' where "ns' = take j ns @ replicate (?k - j) 0 @ drop ?k ns"
  note cl = cleared_blocks [OF j(1) k j(2) ns'_def]
  have "freeable p ms"
    using blocks_ok_freeable [OF ns(1,5) cl(2)] cl(6) ns(1) by (simp add: blocks_ok_def)
  then obtain p' where p': "free_blocks (map Blk ms) p = Inr p'"
    "pool_inv p' (xs @ last_refs p ms)" "same_setup p p'"
    "\<And>c. rc p' c = rc p c - int (count_list ms c)" "\<And>c. hash_of p' c = hash_of p c"
    using free_blocks_ok [of p xs ms] assms(1) by (auto simp: mgr_ready_def)
  let ?m = "set_req_blocks rid (map Blk ns') m"
  have rep: "replaced rid ns ns' m ?m"
    using assms(3) by (simp add: replaced_def) (simp add: set_req_blocks_def)
  have own: "own_block p' b" if "own_block p b" "b \<notin> set ms" for b
    using own_block_after_free [OF p'(4,5) _ that] by simp
  have "req_ok ?m p' rid"
  proof -
    have "b \<in> set ns' \<Longrightarrow> 0 < b \<Longrightarrow> in_pool p' b" for b
      using cl(3) ns(1) p'(3) by (auto simp: blocks_ok_def same_setup_def)
    then have "blocks_ok p' ns'" using cl(6) ns(1) by (simp add: blocks_ok_def)
    moreover have "own_block p' b" if b: "b \<in> set (drop (nat (cached_upto m rid)) ns')" "0 < b" for b
    proof -
      have "own_block p b" using cl(5) b ns(4) by blast
      moreover have "b \<notin> set ms"
      proof
        assume "b \<in> set ms"
        moreover have "b \<in> set ns'" using b(1) by (rule in_set_dropD)
        ultimately have "1 \<le> count_list ms b" "1 \<le> count_list ns' b"
          using count_list_le_set [of ms b] count_list_le_set [of ns' b] by blast+
        then show False using cl(4) [OF b(2)] ns(5) [OF b(2)] \<open>own_block p b\<close>
          by (simp add: own_block_def)
      qed
      ultimately show ?thesis by (rule own)
    qed
    moreover have "cached_upto ?m rid = cached_upto m rid"
      by (simp add: cached_upto_def set_req_blocks_def)
    ultimately show ?thesis using ns(2,3) cl(1) by (auto simp: req_ok_def)
  qed
  moreover have "own_block p' b" if "own_block p b" "b \<notin> set ns" for b
    using own [OF that(1)] cl(2) that(2) by blast
  moreover have "rc p' b + int (count_list ns b) = rc p b + int (count_list ns' b)" if "0 < b" for b
    using p'(4) cl(4) [OF that] by simp
  ultimately have "mgr_step m p xs ?m p' (xs @ last_refs p ms)"
    by (intro mgr_step_replace [OF assms(1) rep p'(2,3) hash_ok_same [OF assms(1) p'(3,5)]]) auto
  moreover have "base_remove_skipped_blocks rid n m p = Inr (?m, p')"
    using False assms(2,3) bs j(4) p'(1) by (simp add: base_remove_skipped_blocks_def ns'_def)
  moreover have "i < nat (sk div mgr_block_size m) \<or> ns' ! i = ns ! i" if "i < length ns" for i
  proof (cases "i < ?k")
    case False
    then have "ns' ! i = ns ! i" using that j(1) by (auto simp: ns'_def nth_append)
    then show ?thesis by simp
  qed auto
  ultimately show ?thesis
    using cl(1) p'(5) by (intro exI [of _ ?m] exI [of _ p'] exI [of _ ns'] exI [of _ ms])
      (auto simp: set_req_blocks_def get_req_blocks_def AList.update_conv)
qed

section \<open>Allocating\<close>

lemma pool_inv_free_iff: "pool_inv p xs \<Longrightarrow> b \<in> set xs \<longleftrightarrow> in_pool p b \<and> rc p b = 0"
  by (simp add: pool_inv_def pool_ok_def)

lemma req_to_blocks_note [simp]:
  "req_to_blocks (note_new_blocks bs p m) = req_to_blocks m"
  "num_cached_block (note_new_blocks bs p m) = num_cached_block m"
  "get_req_blocks rid (note_new_blocks bs p m) = get_req_blocks rid m"
  "cached_upto (note_new_blocks bs p m) = cached_upto m"
  by (simp_all add: note_new_blocks_def get_req_blocks_def cached_upto_def fun_eq_iff)

lemma set_req_blocks_sel [simp]:
  "num_cached_block (set_req_blocks rid bs m) = num_cached_block m"
  "cached_upto (set_req_blocks rid bs m) = cached_upto m"
  "req_to_blocks (set_req_blocks rid bs m) = AList.update rid bs (req_to_blocks m)"
  by (simp_all add: set_req_blocks_def cached_upto_def fun_eq_iff)

text \<open>Blocks taken from the free queue are referenced once, by their new holder, and carry
  no hash.\<close>

lemma get_new_blocks_own:
  assumes "pool_inv p xs" "hash_ok p" "0 \<le> n" "n \<le> len xs"
  shows "\<exists>p'. get_new_blocks cfg n p = Inr (map Blk (take (nat n) xs), p') \<and>
    pool_inv p' (drop (nat n) xs) \<and> same_setup p p' \<and> hash_ok p' \<and>
    (\<forall>b. rc p' b = rc p b + int (count_list (take (nat n) xs) b)) \<and>
    (\<forall>b. b \<in> set (take (nat n) xs) \<longrightarrow> own_block p' b) \<and>
    (\<forall>b. b \<notin> set (take (nat n) xs) \<longrightarrow> hash_of p' b = hash_of p b)"
proof -
  let ?t = "take (nat n) xs"
  obtain p' where p': "get_new_blocks cfg n p = Inr (map Blk ?t, p')" "pool_inv p' (drop (nat n) xs)"
    "same_setup p p'" "\<And>b. rc p' b = (if b \<in> set ?t then 1 else rc p b)"
    "\<And>b. hash_of p' b = (if enable_caching p \<and> b \<in> set ?t then None else hash_of p b)"
    using get_new_blocks_ok [OF assms(1,3,4), of cfg] by auto
  have c: "count_list ?t b = (if b \<in> set ?t then 1 else 0)" for b
    using pool_inv_distinct [OF assms(1)] by (simp add: count_list_distinct)
  have z: "rc p b = 0" if "b \<in> set ?t" for b
    using that pool_inv_free_iff [OF assms(1), of b] by (auto dest: in_set_takeD)
  have "rc p' b = rc p b + int (count_list ?t b)" for b
    using p'(4) [of b] c [of b] z [of b] by simp
  moreover have "own_block p' b" if "b \<in> set ?t" for b
    using p'(4,5) [of b] that assms(2) by (auto simp: own_block_def hash_ok_def)
  moreover have "hash_ok p'" using assms(2) p'(3,5) by (auto simp: hash_ok_def same_setup_def)
  ultimately show ?thesis using p'(1,2,3,5) by auto
qed

text \<open>The blocks of a request with fresh blocks appended.\<close>

lemma blocks_ok_append:
  assumes "blocks_ok p ns" "\<And>b. 0 < b \<Longrightarrow> int (count_list ns b) \<le> rc p b"
    and "pool_inv p xs" "set ys \<subseteq> set xs" "distinct ys"
  shows "blocks_ok p (ns @ ys)"
proof -
  have y: "in_pool p b" "rc p b = 0" if "b \<in> set ys" for b
    using subsetD [OF assms(4) that] pool_inv_free_iff [OF assms(3), of b] by simp_all
  have n: "b \<notin> set ns" if "b \<in> set ys" for b
  proof
    assume "b \<in> set ns"
    then have "1 \<le> count_list ns b" by (rule count_list_le_set [THEN iffD2])
    moreover have "int (count_list ns b) \<le> 0" using y [OF that] assms(2) [of b] by simp
    ultimately show False by linarith
  qed
  have "distinct (filter (\<lambda>b. 0 < b) ns @ filter (\<lambda>b. 0 < b) ys)"
    unfolding distinct_append using assms(1,5) n by (auto simp: blocks_ok_def)
  moreover have "in_pool p b" if "b \<in> set (ns @ ys)" "0 < b" for b
    using that y(1) assms(1) by (auto simp: blocks_ok_def)
  ultimately show ?thesis by (simp add: blocks_ok_def)
qed

lemma base_allocate_new_blocks_ok:
  assumes "mgr_ready m p xs" "get_req_blocks rid m = map Blk ns"
    and "k = nat (cdiv n (mgr_block_size m) - len ns)" "k \<le> length xs"
  shows "\<exists>m' p'. base_allocate_new_blocks cfg rid n m p = Inr (map Blk (take k xs), m', p') \<and>
    mgr_step m p xs m' p' (drop k xs) \<and> get_req_blocks rid m' = map Blk (ns @ take k xs) \<and>
    num_cached_block m' = num_cached_block m \<and>
    (\<forall>rid'. rid' \<noteq> rid \<longrightarrow> get_req_blocks rid' m' = get_req_blocks rid' m)"
proof (cases "cdiv n (mgr_block_size m) - len ns \<le> 0")
  case True
  have rep: "replaced rid ns ns m (touch_req rid m)"
    using assms(2) by (simp add: replaced_def) (simp add: touch_req_def)
  have "req_ok (touch_req rid m) p rid"
    using req_ok_blocks [OF assms(1,2)] assms(2)
    by (auto simp: req_ok_def cached_upto_def touch_req_def)
  then have "mgr_step m p xs (touch_req rid m) p xs"
    using assms(1) by (intro mgr_step_replace [OF assms(1) rep]) (auto simp: mgr_ready_def)
  then show ?thesis
    using True assms(2,3) by (auto simp: base_allocate_new_blocks_def touch_req_def)
next
  case False
  note ns = req_ok_blocks [OF assms(1,2)]
  have inv: "pool_inv p xs" "hash_ok p" using assms(1) by (auto simp: mgr_ready_def)
  let ?n = "cdiv n (mgr_block_size m) - len ns"
  have k: "nat ?n = k" "0 \<le> ?n" "?n \<le> len xs" using False assms(3,4) by auto
  obtain p' where p': "get_new_blocks cfg ?n p = Inr (map Blk (take k xs), p')"
    "pool_inv p' (drop k xs)" "same_setup p p'" "hash_ok p'"
    "\<And>b. rc p' b = rc p b + int (count_list (take k xs) b)"
    "\<And>b. b \<in> set (take k xs) \<Longrightarrow> own_block p' b"
    "\<And>b. b \<notin> set (take k xs) \<Longrightarrow> hash_of p' b = hash_of p b"
    using get_new_blocks_own [OF inv k(2,3), of cfg] unfolding k(1) by auto
  define m' where "m' = note_new_blocks (map Blk (take k xs)) p' (set_req_blocks rid (map Blk (ns @ take k xs)) m)"
  have rep: "replaced rid ns (ns @ take k xs) m m'"
    using assms(2) same_mgr_trans [OF same_mgr_updates(1) same_mgr_updates(5)]
    by (simp add: replaced_def m'_def)
  have keep: "own_block p' b" if "own_block p b" for b
  proof -
    have "b \<notin> set (take k xs)"
      using that pool_inv_free_iff [OF inv(1), of b] by (auto simp: own_block_def dest: in_set_takeD)
    then show ?thesis using that p'(5,7) [of b] by (simp add: own_block_def count_list_0_iff)
  qed
  have "blocks_ok p (ns @ take k xs)"
    using blocks_ok_append [OF ns(1,5) inv(1), of "take k xs"] pool_inv_distinct [OF inv(1)]
    by (auto dest: in_set_takeD)
  then have "blocks_ok p' (ns @ take k xs)" using p'(3) by (simp add: blocks_ok_def same_setup_def)
  moreover have "own_block p' b" if "b \<in> set (drop (nat (cached_upto m rid)) (ns @ take k xs))" "0 < b" for b
    using that ns(3) ns(4) [of b] keep [of b] p'(6) [of b] by (auto simp: nat_le_iff)
  ultimately have "req_ok m' p' rid"
    using ns(2,3) by (intro req_okI [of _ _ "ns @ take k xs"]) (simp_all add: m'_def)
  then have "mgr_step m p xs m' p' (drop k xs)"
    using p'(5) keep by (intro mgr_step_replace [OF assms(1) rep p'(2-4)]) auto
  moreover have "base_allocate_new_blocks cfg rid n m p = Inr (map Blk (take k xs), m', p')"
    using False p'(1) assms(2) by (simp add: base_allocate_new_blocks_def m'_def)
  ultimately show ?thesis by (simp add: m'_def)
qed

end
