(* ===== verification/ManagerOps.thy ===== *)
theory ManagerOps
  imports ManagerInv
begin

text \<open>
  Prefix-cache hits and caching against the invariant of \<^verbatim>\<open>ManagerInv\<close>: what a manager does
  when a new request brings computed blocks, when it caches full blocks, and how many free
  blocks it announces to need.
\<close>

section \<open>Counting evictable blocks\<close>

lemma get_num_evictable_blocks_eq:
  assumes "pool_inv p xs"
  shows "get_num_evictable_blocks (map Blk cs) p = len (filter (\<lambda>b. 0 < b \<and> rc p b = 0) cs)"
proof -
  have "is_null (pheap p (Blk b)) \<longleftrightarrow> b = 0" for b
    using assms by (simp add: pool_inv_def pool_ok_def)
  then have "filter (\<lambda>b. ref_cnt (pheap p b) = 0 \<and> \<not> is_null (pheap p b)) (map Blk cs) =
      map Blk (filter (\<lambda>b. 0 < b \<and> rc p b = 0) cs)"
    by (simp add: filter_map o_def conj_commute)
  then show ?thesis by (simp add: get_num_evictable_blocks_def)
qed

lemma touch_leaves_free:
  assumes "pool_inv p xs"
  shows "len xs \<le> len (filter (\<lambda>x. x \<notin> set cs) xs) + get_num_evictable_blocks (map Blk cs) p"
proof -
  let ?e = "filter (\<lambda>b. 0 < b \<and> rc p b = 0) cs"
  have "length (filter (\<lambda>x. x \<in> set cs) xs) = card (set (filter (\<lambda>x. x \<in> set cs) xs))"
    using distinct_filter [OF pool_inv_distinct [OF assms]] by (rule distinct_card [symmetric])
  also have "\<dots> \<le> card (set ?e)"
  proof (intro card_mono subsetI)
    fix x
    assume "x \<in> set (filter (\<lambda>x. x \<in> set cs) xs)"
    then show "x \<in> set ?e" using pool_inv_free_iff [OF assms, of x] by simp
  qed simp
  also have "\<dots> \<le> length ?e" by (rule card_length)
  finally have "length (filter (\<lambda>x. x \<in> set cs) xs) \<le> length ?e" .
  moreover have "length xs = length (filter (\<lambda>x. x \<in> set cs) xs) + length (filter (\<lambda>x. x \<notin> set cs) xs)"
    using sum_length_filter_compl [of "\<lambda>x. x \<in> set cs" xs] by simp
  ultimately show ?thesis using get_num_evictable_blocks_eq [OF assms, of cs] by simp
qed

text \<open>Evictable blocks only become fewer as references are added.\<close>

lemma get_num_evictable_blocks_mono:
  assumes "pool_inv p xs" "pool_inv p' xs'" "\<And>b. rc p b \<le> rc p' b"
  shows "get_num_evictable_blocks (map Blk cs) p' \<le> get_num_evictable_blocks (map Blk cs) p"
proof -
  have "rc p b = 0" if "rc p' b = 0" "0 < b" for b
  proof -
    have "0 \<le> rc p b" using assms(1) that(2) by (simp add: pool_inv_def pool_ok_def)
    then show ?thesis using assms(3) [of b] that(1) by simp
  qed
  then have "length (filter (\<lambda>b. 0 < b \<and> rc p' b = 0) cs) \<le> length (filter (\<lambda>b. 0 < b \<and> rc p b = 0) cs)"
    by (induction cs) auto
  then show ?thesis
    using get_num_evictable_blocks_eq [OF assms(1), of cs] get_num_evictable_blocks_eq [OF assms(2), of cs]
    by simp
qed

section \<open>Computed blocks\<close>

text \<open>What a prefix-cache hit hands to a manager: null blocks and cached blocks, each once.\<close>

definition hit_blocks :: "BlockPool \<Rightarrow> nat list \<Rightarrow> bool" where
  "hit_blocks p cs \<longleftrightarrow>
     distinct (filter (\<lambda>b. 0 < b) cs) \<and> (\<forall>b \<in> set cs. 0 < b \<longrightarrow> in_pool p b \<and> hash_of p b \<noteq> None)"

lemma hit_blocks_drop: "hit_blocks p cs \<Longrightarrow> hit_blocks p (drop k cs)"
proof -
  assume h: "hit_blocks p cs"
  have "distinct (filter (\<lambda>b. 0 < b) (take k cs @ drop k cs))" using h by (simp add: hit_blocks_def)
  then have "distinct (filter (\<lambda>b. 0 < b) (drop k cs))" unfolding filter_append by simp
  then show ?thesis using h by (auto simp: hit_blocks_def dest: in_set_dropD)
qed

text \<open>Touching hits on behalf of a manager: no block of a single holder is touched, as it has
  no hash.\<close>

lemma touch_hits:
  assumes "mgr_ready m p xs" "hit_blocks p cs"
  shows "\<exists>p'. touch (map Blk cs) p = Inr p' \<and> pool_inv p' (filter (\<lambda>x. x \<notin> set cs) xs) \<and>
    same_setup p p' \<and> hash_ok p' \<and> (\<forall>b. rc p' b = rc p b + int (count_list cs b)) \<and>
    (\<forall>b. hash_of p' b = hash_of p b) \<and> (\<forall>b. 0 < b \<and> own_block p b \<longrightarrow> b \<notin> set cs \<and> own_block p' b)"
proof -
  have "b = 0 \<or> in_pool p b" if "b \<in> set cs" for b
    using assms(2) that by (auto simp: hit_blocks_def)
  then obtain p' where p': "touch (map Blk cs) p = Inr p'" "pool_inv p' (filter (\<lambda>x. x \<notin> set cs) xs)"
    "same_setup p p'" "\<And>b. rc p' b = rc p b + int (count_list cs b)" "\<And>b. hash_of p' b = hash_of p b"
    using touch_ok [of p xs cs] assms(1) by (auto simp: mgr_ready_def)
  have n: "b \<notin> set cs" if "0 < b" "own_block p b" for b
    using assms(2) that by (auto simp: hit_blocks_def own_block_def)
  have o: "own_block p' b" if "0 < b" "own_block p b" for b
    using that n [OF that] p'(4,5) [of b] by (simp add: own_block_def count_list_0_iff)
  have "hash_ok p'" using hash_ok_same [OF assms(1) p'(3,5)] .
  then show ?thesis using p'(1-3) by (intro exI [of _ p'] conjI allI impI p'(4,5)) (simp_all add: n o)
qed

text \<open>The blocks a new request starts with: null blocks for the skipped prefix, the hits, and
  fresh blocks for externally computed tokens.\<close>

lemma hit_then_fresh:
  assumes "mgr_ready m p xs" "hit_blocks p cs" "k \<le> length (filter (\<lambda>x. x \<notin> set cs) xs)"
  shows "\<exists>p1 p'. touch (map Blk cs) p = Inr p1 \<and>
    get_new_blocks cfg (int k) p1 = Inr (map Blk (take k (filter (\<lambda>x. x \<notin> set cs) xs)), p') \<and>
    (k = 0 \<longrightarrow> p' = p1) \<and>
    pool_inv p' (drop k (filter (\<lambda>x. x \<notin> set cs) xs)) \<and> same_setup p p' \<and> hash_ok p' \<and>
    (\<forall>b. rc p' b = rc p b + int (count_list (cs @ take k (filter (\<lambda>x. x \<notin> set cs) xs)) b)) \<and>
    (k = 0 \<longrightarrow> (\<forall>b. hash_of p' b = hash_of p b)) \<and>
    (\<forall>b. 0 < b \<and> own_block p b \<longrightarrow> own_block p' b) \<and>
    (\<forall>b \<in> set (take k (filter (\<lambda>x. x \<notin> set cs) xs)). own_block p' b)"
proof -
  let ?f = "filter (\<lambda>x. x \<notin> set cs) xs"
  obtain p1 where p1: "touch (map Blk cs) p = Inr p1" "pool_inv p1 ?f" "same_setup p p1" "hash_ok p1"
    "\<And>b. rc p1 b = rc p b + int (count_list cs b)" "\<And>b. hash_of p1 b = hash_of p b"
    "\<And>b. 0 < b \<Longrightarrow> own_block p b \<Longrightarrow> b \<notin> set cs \<and> own_block p1 b"
    using touch_hits [OF assms(1,2)] by metis
  obtain p' where p': "get_new_blocks cfg (int k) p1 = Inr (map Blk (take k ?f), p')"
    "pool_inv p' (drop k ?f)" "same_setup p1 p'" "hash_ok p'"
    "\<And>b. rc p' b = rc p1 b + int (count_list (take k ?f) b)"
    "\<And>b. b \<in> set (take k ?f) \<Longrightarrow> own_block p' b"
    "\<And>b. b \<notin> set (take k ?f) \<Longrightarrow> hash_of p' b = hash_of p1 b"
    using get_new_blocks_own [OF p1(2,4), of "int k" cfg] assms(3) by auto
  have own: "own_block p' b" if "0 < b" "own_block p b" for b
  proof -
    have b: "own_block p1 b" using p1(7) [OF that] by simp
    then have "b \<notin> set ?f" using pool_inv_free_iff [OF p1(2), of b] by (simp add: own_block_def)
    then have "b \<notin> set (take k ?f)" by (meson in_set_takeD)
    then show ?thesis using b p'(5,7) [of b] by (simp add: own_block_def count_list_0_iff)
  qed
  have z: "k = 0 \<Longrightarrow> p' = p1"
    using p'(1) p1(2) by (simp add: get_new_blocks_def pool_inv_free popleft_n_def)
  have h: "k = 0 \<Longrightarrow> hash_of p' b = hash_of p b" for b using z p1(6) by simp
  show ?thesis
    using p1(1,3,5) p'(1,2,4,5,6) same_setup_trans [OF p1(3) p'(3)] own z h
    by (intro exI [of _ p1] exI [of _ p']) (simp add: algebra_simps)
qed

lemma AList_update_update: "AList.update k b (AList.update k a al) = AList.update k b al"
  by (induction al) auto

lemma count_list_replicate: "count_list (replicate n x) y = (if x = y then n else 0)"
  by (induction n) auto

text \<open>What \<open>allocate_new_computed_blocks\<close> adds for a new request: the number of skipped
  blocks, the hits kept, and the number of fresh blocks.\<close>

definition kept_hits :: "SingleTypeKVCacheManager \<Rightarrow> int \<Rightarrow> nat list \<Rightarrow> nat list" where
  "kept_hits m sk cs = drop (nat (sk div mgr_block_size m)) cs"

definition fresh_for_external :: "SingleTypeKVCacheManager \<Rightarrow> int \<Rightarrow> int \<Rightarrow> int \<Rightarrow> nat list \<Rightarrow> int" where
  "fresh_for_external m sk tot ext cs =
     (if (if sk div mgr_block_size m > 0 then min (tot - sk) ext else ext) > 0
      then cdiv tot (mgr_block_size m) - int (nat (sk div mgr_block_size m)) - len (kept_hits m sk cs)
      else 0)"

lemma base_allocate_new_computed_blocks_ok:
  assumes ready: "mgr_ready m p xs"
    and new: "num_cached_block m rid = None" "get_req_blocks rid m = []"
    and sk: "get_num_skipped_tokens m (nl + ne) = Inr sk"
    and hits: "hit_blocks p cs" "mgr_enable_caching m \<or> cs = []"
    and k: "fresh_for_external m sk (nl + ne) ne cs = int k"
    and enough: "get_num_evictable_blocks (map Blk (kept_hits m sk cs)) p + int k \<le> len xs"
  shows "\<exists>m' p' xs'. base_allocate_new_computed_blocks cfg rid (map Blk cs) nl ne m p = Inr (m', p') \<and>
    mgr_step m p xs m' p' xs' \<and>
    (\<exists>ys. length ys = k \<and> get_req_blocks rid m' =
       map Blk (replicate (nat (sk div mgr_block_size m)) 0 @ kept_hits m sk cs @ ys)) \<and>
    len xs \<le> len xs' + get_num_evictable_blocks (map Blk (kept_hits m sk cs)) p + int k \<and>
    (k = 0 \<longrightarrow> (\<forall>b. hash_of p' b = hash_of p b \<and> rc p b \<le> rc p' b)) \<and>
    num_cached_block m' = (num_cached_block m)
      (rid \<mapsto> int (nat (sk div mgr_block_size m)) + len (kept_hits m sk cs)) \<and>
    (\<forall>rid'. rid' \<noteq> rid \<longrightarrow> get_req_blocks rid' m' = get_req_blocks rid' m)"
proof -
  let ?s = "nat (sk div mgr_block_size m)"
  define cs' where "cs' = kept_hits m sk cs"
  have cs': "cs' = drop ?s cs" by (simp add: cs'_def kept_hits_def)
  define xs1 where "xs1 = filter (\<lambda>x. x \<notin> set cs') xs"
  have inv: "pool_inv p xs" and nb: "mgr_null_block m = Blk 0"
    using ready by (auto simp: mgr_ready_def mgr_ok_def)
  have free: "len xs \<le> len xs1 + get_num_evictable_blocks (map Blk cs') p"
    using touch_leaves_free [OF inv, of cs'] by (simp add: xs1_def)
  have kx: "k \<le> length xs1" using free enough by (simp add: cs'_def)
  have h': "hit_blocks p cs'" using hits(1) by (simp add: cs' hit_blocks_drop)
  obtain p1 p' where p': "touch (map Blk cs') p = Inr p1"
    "get_new_blocks cfg (int k) p1 = Inr (map Blk (take k xs1), p')" "k = 0 \<Longrightarrow> p' = p1"
    "pool_inv p' (drop k xs1)" "same_setup p p'" "hash_ok p'"
    "\<And>b. rc p' b = rc p b + int (count_list (cs' @ take k xs1) b)"
    "k = 0 \<Longrightarrow> \<forall>b. hash_of p' b = hash_of p b"
    "\<And>b. 0 < b \<Longrightarrow> own_block p b \<Longrightarrow> own_block p' b"
    "\<And>b. b \<in> set (take k xs1) \<Longrightarrow> own_block p' b"
    using hit_then_fresh [OF ready h', of k cfg] kx unfolding xs1_def by metis
  define ns where "ns = replicate ?s 0 @ cs' @ take k xs1"
  define nc where "nc = int ?s + len cs'"
  define m1 where "m1 = (set_req_blocks rid (map Blk (replicate ?s 0 @ cs')) m)
      \<lparr>num_cached_block := (num_cached_block m)(rid \<mapsto> nc)\<rparr>"
  define m' where "m' = note_new_blocks (map Blk (take k xs1)) p' (set_req_blocks rid (map Blk ns) m1)"
  have held': "get_req_blocks rid m' = map Blk ns" by (simp add: m'_def)
  have ncb: "num_cached_block m' = (num_cached_block m)(rid \<mapsto> nc)"
    by (simp add: m'_def m1_def)
  have sm: "same_mgr m m'"
    by (simp add: m'_def m1_def same_mgr_def note_new_blocks_def set_req_blocks_def)
  have rb: "req_to_blocks m' = AList.update rid (map Blk ns) (req_to_blocks m)"
    by (simp add: m'_def m1_def AList_update_update)
  have rep: "replaced rid [] ns m m'"
    using new(2) sm ncb rb by (simp add: replaced_def)
  have cnt: "count_list ns b = count_list (cs' @ take k xs1) b" if "0 < b" for b
    using that by (simp add: ns_def count_list_replicate)
  have ok: "blocks_ok p ns"
  proof -
    have "count_list cs' b = 0" if "b \<in> set (take k xs1)" for b
      using that by (auto simp: xs1_def count_list_0_iff dest: in_set_takeD)
    have d: "distinct (filter (\<lambda>b. 0 < b) (take k xs1))"
      using pool_inv_distinct [OF inv] by (simp add: xs1_def)
    have "set (filter (\<lambda>b. 0 < b) cs') \<inter> set (filter (\<lambda>b. 0 < b) (take k xs1)) = {}"
      by (auto simp: xs1_def dest: in_set_takeD)
    moreover have "in_pool p b" if "b \<in> set (take k xs1)" for b
      using that pool_inv_free_iff [OF inv, of b] by (auto simp: xs1_def dest: in_set_takeD)
    ultimately show ?thesis
      using h' d by (auto simp: blocks_ok_def ns_def hit_blocks_def)
  qed
  have "req_ok m' p' rid"
  proof (rule req_okI [OF held'])
    show "blocks_ok p' ns" using ok p'(5) by (simp add: blocks_ok_def same_setup_def)
    have c: "cached_upto m' rid = nc" by (simp add: cached_upto_def ncb)
    show "0 \<le> cached_upto m' rid" "cached_upto m' rid \<le> len ns"
      by (simp_all add: c nc_def ns_def)
    have "drop (nat nc) ns = take k xs1" by (simp add: nc_def ns_def nat_add_distrib)
    then show "own_block p' b" if "b \<in> set (drop (nat (cached_upto m' rid)) ns)" "0 < b" for b
      using that p'(10) by (simp add: c)
  qed
  moreover have "rc p' b + int (count_list [] b) = rc p b + int (count_list ns b)" if "0 < b" for b
    using p'(7) cnt [OF that] by simp
  ultimately have step: "mgr_step m p xs m' p' (drop k xs1)"
    using p'(9) by (intro mgr_step_replace [OF ready rep p'(4-6)]) auto
  have n1: "(if sk div mgr_block_size m > 0 then py_from (map Blk cs) (sk div mgr_block_size m)
      else map Blk cs) = map Blk cs'"
    by (auto simp: cs' py_from_nonneg drop_map)
  have t: "(if mgr_enable_caching m then touch (map Blk cs') p
      else py_assert (map Blk cs' = []) (Inr p)) = Inr p1"
  proof (cases "mgr_enable_caching m")
    case False
    then have "cs' = []" using hits(2) by (simp add: cs')
    then show ?thesis using False p'(1) by (simp add: touch_def)
  qed (simp add: p'(1))
  have nulls: "py_repeat (mgr_null_block m) (sk div mgr_block_size m) @ map Blk cs' =
      map Blk (replicate ?s 0 @ cs')"
    by (simp add: py_repeat_def nb)
  have op: "base_allocate_new_computed_blocks cfg rid (map Blk cs) nl ne m p = Inr (m', p')"
  proof (cases "(if sk div mgr_block_size m > 0 then min (nl + ne - sk) ne else ne) > 0")
    case True
    then have "cdiv (nl + ne) (mgr_block_size m) - len (map Blk (replicate ?s 0 @ cs')) = int k"
      using k by (simp add: fresh_for_external_def cs'_def)
    then have g: "get_new_blocks cfg (cdiv (nl + ne) (mgr_block_size m) -
        len (map Blk (replicate ?s 0 @ cs'))) p1 = Inr (map Blk (take k xs1), p')"
      using p'(2) by simp
    show ?thesis
      unfolding base_allocate_new_computed_blocks_def Let_def sk rbind_simps n1 t nulls if_P [OF True] g
      using new by (simp add: m'_def m1_def ns_def nc_def)
  next
    case False
    then have z: "k = 0" using k by (simp add: fresh_for_external_def split: if_splits)
    have "m' = m1"
      by (simp add: m'_def m1_def ns_def z note_new_blocks_def set_req_blocks_def AList_update_update)
    then show ?thesis
      unfolding base_allocate_new_computed_blocks_def Let_def sk rbind_simps n1 t nulls if_not_P [OF False]
      using new p'(3) [OF z] by (simp add: m1_def nc_def)
  qed
  have others: "get_req_blocks rid' m' = get_req_blocks rid' m" if "rid' \<noteq> rid" for rid'
    using replaced_held [OF rep, of rid'] that by simp
  have "len xs \<le> len (drop k xs1) + get_num_evictable_blocks (map Blk cs') p + int k"
    using free kx by simp
  moreover have "k = 0 \<Longrightarrow> hash_of p' b = hash_of p b \<and> rc p b \<le> rc p' b" for b
    using p'(7,8) by simp
  moreover have "length (take k xs1) = k" using kx by simp
  ultimately show ?thesis
    using op step held' ncb others unfolding cs'_def [symmetric] nc_def ns_def by blast
qed

section \<open>Caching full blocks\<close>

lemma distinct_filter_split:
  assumes "distinct (filter P xs)"
  shows "distinct (filter P (take k xs)) \<and> distinct (filter P (drop k xs)) \<and>
    (\<forall>x. P x \<and> x \<in> set (drop k xs) \<longrightarrow> x \<notin> set (take k xs))"
proof -
  have "distinct (filter P (take k xs) @ filter P (drop k xs))"
    using assms by (metis append_take_drop_id filter_append)
  then show ?thesis by auto
qed

lemmas distinct_filter_take = distinct_filter_split [THEN conjunct1]
lemmas distinct_filter_drop = distinct_filter_split [THEN conjunct2, THEN conjunct1]
lemmas distinct_filter_disjoint = distinct_filter_split [THEN conjunct2, THEN conjunct2, rule_format]

definition mgr_cache_ok :: "hash_cfg \<Rightarrow> Request \<Rightarrow> int \<Rightarrow> SingleTypeKVCacheManager \<Rightarrow> BlockPool \<Rightarrow> bool" where
  "mgr_cache_ok cfg r n m p \<longleftrightarrow>
     enable_caching p \<and> n div mgr_block_size m \<le> len (get_req_blocks (request_id r) m) \<and>
     cache_request_ok cfg r (mgr_block_size m) (hash_block_size p) (n div mgr_block_size m) \<and>
     0 \<le> kv_cache_group_id m \<and> kv_cache_group_id m < 2 ^ 32"

lemma base_cache_blocks_ok:
  assumes ready: "mgr_ready m p xs" and ok: "mgr_cache_ok cfg r n m p"
    and held: "get_req_blocks (request_id r) m = map Blk ns"
  shows "\<exists>mm m' p'. base_cache_blocks cfg r n m p = Inr (with_memo r mm, m', p') \<and>
    memo_ok cfg (with_memo r mm) \<and> mgr_step m p xs m' p' xs \<and>
    (\<forall>rid. get_req_blocks rid m' = get_req_blocks rid m) \<and>
    num_cached_block m' (request_id r) = (if cached_upto m (request_id r) \<ge> n div mgr_block_size m
      then num_cached_block m (request_id r) else Some (n div mgr_block_size m)) \<and>
    (\<forall>b \<in> set (take (nat (n div mgr_block_size m) - nat (cached_upto m (request_id r)))
                 (drop (nat (cached_upto m (request_id r))) ns)). 0 < b \<longrightarrow> hash_of p' b \<noteq> None)"
proof -
  let ?rid = "request_id r" and ?nf = "n div mgr_block_size m" and ?nc = "cached_upto m (request_id r)"
  let ?new = "take (nat ?nf - nat ?nc) (drop (nat ?nc) ns)"
  note ns = req_ok_blocks [OF ready held]
  have r: "memo_ok cfg r" using ok by (simp add: mgr_cache_ok_def cache_request_ok_def)
  have nc: "(case num_cached_block m ?rid of Some k \<Rightarrow> k | None \<Rightarrow> 0) = ?nc" by (simp add: cached_upto_def)
  show ?thesis
  proof (cases "?nc \<ge> ?nf")
    case True
    have "mgr_step m p xs m p xs"
      using ready by (auto simp: mgr_step_def mgr_ready_def balanced_def spares_def)
    moreover have "?new = []" using True by simp
    ultimately show ?thesis using True r nc
      by (intro exI [of _ "prompt_embeds_per_block_hashes r"] exI [of _ m] exI [of _ p])
        (simp add: base_cache_blocks_def)
  next
    case False
    have sub: "set ?new \<subseteq> set (drop (nat ?nc) ns)" by (rule set_take_subset)
    have d: "distinct (filter (\<lambda>b. 0 < b) ?new)"
      using ns(1) by (metis blocks_ok_def distinct_filter_drop distinct_filter_take)
    have "in_pool p b \<and> hash_of p b = None" if "b \<in> set ?new" "0 < b" for b
    proof -
      have "b \<in> set (drop (nat ?nc) ns)" using sub that(1) by blast
      then show ?thesis
        using ns(1) ns(4) [of b] that(2) by (auto simp: blocks_ok_def own_block_def dest: in_set_dropD)
    qed
    then have "cacheable p ?new" using d by (simp add: cacheable_def)
    moreover have "?nf \<le> len ns" using ok held by (simp add: mgr_cache_ok_def)
    ultimately obtain p' mm where p': "cache_full_blocks cfg r (map Blk ns) ?nc ?nf (mgr_block_size m)
          (kv_cache_group_id m) p = Inr (with_memo r mm, p')"
      "memo_ok cfg (with_memo r mm)" "pool_inv p' xs" "same_setup p p'" "\<And>c. rc p' c = rc p c"
      "\<And>c. c = 0 \<or> c \<notin> set ?new \<Longrightarrow> hash_of p' c = hash_of p c"
      "\<And>j. j < nat ?nf - nat ?nc \<Longrightarrow> 0 < ns ! (nat ?nc + j) \<Longrightarrow> hash_of p' (ns ! (nat ?nc + j)) \<noteq> None"
      using cache_full_blocks_ok [of p xs ?nc ?nf ns cfg r "mgr_block_size m" "kv_cache_group_id m"]
        ready ok ns(2) False unfolding mgr_ready_def mgr_cache_ok_def
      by (metis option.discI not_le)
    define m' where "m' = (touch_req ?rid m)\<lparr>num_cached_block := (num_cached_block m)(?rid \<mapsto> ?nf)\<rparr>"
    have op: "base_cache_blocks cfg r n m p = Inr (with_memo r mm, m', p')"
      using False p'(1) held nc by (simp add: base_cache_blocks_def m'_def Let_def)
    have sm: "same_mgr m m'" by (simp add: m'_def same_mgr_def touch_req_def set_req_blocks_def)
    have rep: "replaced ?rid ns ns m m'"
      using held sm by (simp add: replaced_def m'_def) (simp add: touch_req_def)
    have held': "get_req_blocks rid m' = get_req_blocks rid m" for rid
      using replaced_held [OF rep, of rid] held by simp
    have hk: "hash_ok p'" using ok p'(4) by (simp add: hash_ok_def mgr_cache_ok_def same_setup_def)
    have "req_ok m' p' ?rid"
    proof (rule req_okI)
      show "get_req_blocks ?rid m' = map Blk ns" using held' held by simp
      show "blocks_ok p' ns" using ns(1) p'(4) by (simp add: blocks_ok_def same_setup_def)
      have c: "cached_upto m' ?rid = ?nf" by (simp add: cached_upto_def m'_def)
      show "0 \<le> cached_upto m' ?rid" "cached_upto m' ?rid \<le> len ns"
        using c False ns(2) \<open>?nf \<le> len ns\<close> by simp_all
      fix b
      assume b: "b \<in> set (drop (nat (cached_upto m' ?rid)) ns)" "0 < b"
      have "drop (nat ?nf) ns = drop (nat ?nf - nat ?nc) (drop (nat ?nc) ns)"
        using False ns(2) by simp
      then have bd: "b \<in> set (drop (nat ?nf - nat ?nc) (drop (nat ?nc) ns))" using b(1) c by simp
      have df: "distinct (filter (\<lambda>b. 0 < b) (drop (nat ?nc) ns))"
        using ns(1) by (simp add: blocks_ok_def distinct_filter_drop)
      have "own_block p b" using ns(4) [OF in_set_dropD [OF bd] b(2)] .
      moreover have "b \<notin> set ?new" using distinct_filter_disjoint [OF df] b(2) bd by blast
      ultimately show "own_block p' b" using p'(5,6) by (simp add: own_block_def)
    qed
    moreover have "own_block p' b" if "0 < b" "own_block p b" "b \<notin> set ns" for b
    proof -
      have "b \<notin> set ?new" using that(3) by (meson in_set_dropD in_set_takeD)
      then show ?thesis using that p'(5,6) by (simp add: own_block_def)
    qed
    ultimately have step: "mgr_step m p xs m' p' xs"
      using p'(5) by (intro mgr_step_replace [OF ready rep p'(3,4) hk]) auto
    have "hash_of p' b \<noteq> None" if b: "b \<in> set ?new" "0 < b" for b
    proof -
      obtain j where "j < nat ?nf - nat ?nc" "b = ns ! (nat ?nc + j)"
        using b(1) by (auto simp: in_set_conv_nth)
      then show ?thesis using p'(7) b(2) by blast
    qed
    then show ?thesis
      using op p'(2) step held' False
      by (intro exI [of _ mm] exI [of _ m'] exI [of _ p']) (simp add: m'_def)
  qed
qed

end
