(* ===== verification/CoordinatorInv.thy ===== *)
theory CoordinatorInv
  imports Coordinator ManagerOps
begin

text \<open>
  The invariant of the coordinator: the reference count of every block is the number of times
  the managers list it, over all groups and requests.  The loop over the managers is verified
  once, in a locale that states what a manager promises for one step; each operation of the
  coordinator is an interpretation of it.
\<close>

section \<open>Several managers over one pool\<close>

text \<open>The attention managers: those that only list blocks, without the extra state of Mamba or
  the encoder blocks of cross attention.\<close>

definition plain :: "SingleTypeKVCacheManager \<Rightarrow> bool" where
  "plain m \<longleftrightarrow> mgr_class m = FullAttentionManager \<or>
     mgr_class m = SlidingWindowManager \<and> 0 < sliding_window m \<or>
     mgr_class m = ChunkedLocalAttentionManager \<and> 0 < attention_chunk_size m"

definition all_refs :: "SingleTypeKVCacheManager list \<Rightarrow> nat \<Rightarrow> nat" where
  "all_refs ms b = sum_list (map (\<lambda>m. mgr_refs m b) ms)"

definition kv_inv :: "SingleTypeKVCacheManager list \<Rightarrow> BlockPool \<Rightarrow> nat list \<Rightarrow> bool" where
  "kv_inv ms p xs \<longleftrightarrow> pool_inv p xs \<and> hash_ok p \<and> (\<forall>m \<in> set ms. mgr_ok m p \<and> plain m) \<and>
     (\<forall>b > 0. rc p b = int (all_refs ms b))"

lemma all_refs_simps [simp]:
  "all_refs [] b = 0" "all_refs (m # ms) b = mgr_refs m b + all_refs ms b"
  "all_refs (ms @ ms') b = all_refs ms b + all_refs ms' b"
  by (simp_all add: all_refs_def)

lemma all_refs_ge: "m \<in> set ms \<Longrightarrow> mgr_refs m b \<le> all_refs ms b"
  by (induction ms) auto

lemma plain_same: "same_mgr m m' \<Longrightarrow> plain m' = plain m"
  by (simp add: plain_def same_mgr_def)

lemma kv_inv_ready: "kv_inv ms p xs \<Longrightarrow> m \<in> set ms \<Longrightarrow> mgr_ready m p xs"
  using all_refs_ge [of m ms] by (simp add: kv_inv_def mgr_ready_def)

lemma kv_inv_pool: "kv_inv ms p xs \<Longrightarrow> pool_inv p xs"
  by (simp add: kv_inv_def)

text \<open>A step of one manager keeps the others sound: a block one of them owns alone is not listed
  by the manager that steps.\<close>

lemma other_mgr_ok:
  assumes "mgr_step m p xs m' p' xs'" "mgr_ok m2 p"
    and "\<And>b. 0 < b \<Longrightarrow> int (mgr_refs m b + mgr_refs m2 b) \<le> rc p b"
  shows "mgr_ok m2 p'"
  unfolding mgr_ok_def
proof (intro conjI allI)
  show "mgr_null_block m2 = Blk 0" "0 < mgr_block_size m2" "distinct (map fst (req_to_blocks m2))"
    using assms(2) by (simp_all add: mgr_ok_def)
next
  fix rid
  obtain ns where n: "get_req_blocks rid m2 = map Blk ns" "blocks_ok p ns"
    "0 \<le> cached_upto m2 rid" "cached_upto m2 rid \<le> len ns"
    "\<forall>b \<in> set (drop (nat (cached_upto m2 rid)) ns). 0 < b \<longrightarrow> own_block p b"
    using assms(2) unfolding mgr_ok_def req_ok_def by meson
  have su: "same_setup p p'" and sp: "spares m p p'" using assms(1) by (simp_all add: mgr_step_def)
  show "req_ok m2 p' rid"
  proof (rule req_okI [OF n(1) _ n(3,4)])
    show "blocks_ok p' ns" using n(2) su by (simp add: blocks_ok_def same_setup_def)
  next
    fix b
    assume b: "b \<in> set (drop (nat (cached_upto m2 rid)) ns)" "0 < b"
    then have own: "own_block p b" using n(5) by blast
    have "Blk b \<in> set (get_req_blocks rid m2)" using b(1) n(1) by (auto dest: in_set_dropD)
    then have "1 \<le> mgr_refs m2 b" by (rule in_held_count)
    then have "mgr_refs m b = 0" using assms(3) [OF b(2)] own by (simp add: own_block_def)
    then show "own_block p' b" using sp b(2) own by (simp add: spares_def)
  qed
qed

lemma kv_inv_step:
  assumes inv: "kv_inv (as @ m # bs) p xs" and step: "mgr_step m p xs m' p' xs'"
  shows "kv_inv (as @ m' # bs) p' xs'"
proof -
  have other: "mgr_ok m2 p' \<and> plain m2" if "m2 \<in> set as \<union> set bs" for m2
  proof -
    have "int (mgr_refs m b + mgr_refs m2 b) \<le> rc p b" if "0 < b" for b
      using inv \<open>m2 \<in> set as \<union> set bs\<close> all_refs_ge [of m2 as b] all_refs_ge [of m2 bs b] that
      by (auto simp: kv_inv_def)
    moreover have "mgr_ok m2 p" "plain m2" using inv that by (auto simp: kv_inv_def)
    ultimately show ?thesis using other_mgr_ok [OF step] by simp
  qed
  have st: "pool_inv p' xs'" "hash_ok p'" "mgr_ok m' p'" "same_mgr m m'" "balanced m p m' p'"
    using step by (simp_all add: mgr_step_def)
  have "plain m'" using plain_same [OF st(4)] inv by (simp add: kv_inv_def)
  moreover have "rc p' b = int (all_refs (as @ m' # bs) b)" if "0 < b" for b
  proof -
    have "rc p' b + int (mgr_refs m b) = rc p b + int (mgr_refs m' b)"
      using st(5) that by (simp add: balanced_def)
    moreover have "rc p b = int (all_refs (as @ m # bs) b)" using inv that by (simp add: kv_inv_def)
    ultimately show ?thesis by simp
  qed
  ultimately show ?thesis using st other unfolding kv_inv_def by auto
qed

section \<open>The loop over the managers\<close>

fun chained ::
    "(nat \<Rightarrow> SingleTypeKVCacheManager \<Rightarrow> SingleTypeKVCacheManager \<Rightarrow> 'e \<Rightarrow> 'e \<Rightarrow> bool)
     \<Rightarrow> nat \<Rightarrow> SingleTypeKVCacheManager list \<Rightarrow> SingleTypeKVCacheManager list \<Rightarrow> 'e \<Rightarrow> 'e \<Rightarrow> bool" where
  "chained R i [] [] e e' = (e' = e)"
| "chained R i (m # ms) (m' # ms') e e' = (\<exists>e1. R i m m' e e1 \<and> chained R (Suc i) ms ms' e1 e')"
| "chained R i _ _ e e' = False"

lemma chained_length: "chained R i ms ms' e e' \<Longrightarrow> length ms' = length ms"
  by (induction R i ms ms' e e' rule: chained.induct) auto

lemma chained_nth:
  "chained R i ms ms' e e' \<Longrightarrow> j < length ms \<Longrightarrow> \<exists>e1 e2. R (i + j) (ms ! j) (ms' ! j) e1 e2"
proof (induction R i ms ms' e e' arbitrary: j rule: chained.induct)
  case (2 R i m ms m' ms' e e')
  show ?case
  proof (cases j)
    case 0
    then show ?thesis using 2(2) by auto
  next
    case (Suc k)
    then show ?thesis using 2 by fastforce
  qed
qed auto

fun costs ::
    "(nat \<Rightarrow> SingleTypeKVCacheManager \<Rightarrow> BlockPool \<Rightarrow> int)
     \<Rightarrow> nat \<Rightarrow> SingleTypeKVCacheManager list \<Rightarrow> BlockPool \<Rightarrow> int" where
  "costs cost i [] p = 0"
| "costs cost i (m # ms) p = cost i m p + costs cost (Suc i) ms p"

text \<open>What a manager promises for one step of a loop: if it is ready, its precondition holds and
  the free blocks cover its cost, the step succeeds within the contract of a manager and takes no
  more than its cost.  Preconditions and costs of the managers still to come survive the step.\<close>

locale manager_loop =
  fixes step :: "nat \<Rightarrow> 'e \<Rightarrow> SingleTypeKVCacheManager \<Rightarrow> BlockPool \<Rightarrow> ('e \<times> SingleTypeKVCacheManager \<times> BlockPool) res"
    and pre :: "nat \<Rightarrow> 'e \<Rightarrow> SingleTypeKVCacheManager \<Rightarrow> BlockPool \<Rightarrow> bool"
    and cost :: "nat \<Rightarrow> SingleTypeKVCacheManager \<Rightarrow> BlockPool \<Rightarrow> int"
    and post :: "nat \<Rightarrow> SingleTypeKVCacheManager \<Rightarrow> SingleTypeKVCacheManager \<Rightarrow> 'e \<Rightarrow> 'e \<Rightarrow> bool"
    and rel :: "BlockPool \<Rightarrow> BlockPool \<Rightarrow> bool"
  assumes step_ok: "mgr_ready m p xs \<Longrightarrow> plain m \<Longrightarrow> pre i e m p \<Longrightarrow> cost i m p \<le> len xs \<Longrightarrow>
      \<exists>e' m' p' xs'. step i e m p = Inr (e', m', p') \<and> mgr_step m p xs m' p' xs' \<and>
        len xs \<le> len xs' + cost i m p \<and> post i m m' e e' \<and> rel p p'"
    and pre_stable: "i < j \<Longrightarrow> pre j e m2 p \<Longrightarrow> post i m m' e e' \<Longrightarrow> rel p p' \<Longrightarrow> same_setup p p' \<Longrightarrow>
      pre j e' m2 p'"
    and cost_stable: "i < j \<Longrightarrow> pre j e m2 p \<Longrightarrow> rel p p' \<Longrightarrow> pool_inv p xs \<Longrightarrow> pool_inv p' xs' \<Longrightarrow>
      cost j m2 p' \<le> cost j m2 p"
    and cost_nonneg: "0 \<le> cost i m p"
    and rel_refl: "rel p p"
    and rel_trans: "rel p p' \<Longrightarrow> rel p' p'' \<Longrightarrow> rel p p''"
begin

lemma costs_nonneg: "0 \<le> costs cost i ms p"
  using cost_nonneg by (induction ms arbitrary: i) (simp_all add: add_nonneg_nonneg)

lemma costs_stable:
  assumes "i < k" "\<forall>j < length ms. pre (k + j) e (ms ! j) p" "rel p p'" "pool_inv p xs" "pool_inv p' xs'"
  shows "costs cost k ms p' \<le> costs cost k ms p"
  using assms(1,2)
proof (induction ms arbitrary: k)
  case (Cons m ms)
  have "cost k m p' \<le> cost k m p"
    using cost_stable [OF Cons.prems(1) _ assms(3-5)] Cons.prems(2) by fastforce
  moreover have "costs cost (Suc k) ms p' \<le> costs cost (Suc k) ms p"
  proof (rule Cons.IH)
    show "\<forall>j < length ms. pre (Suc k + j) e (ms ! j) p" using Cons.prems(2) by fastforce
  qed (use Cons.prems(1) in simp)
  ultimately show ?case by simp
qed simp

lemma loop_ok:
  assumes "kv_inv (as @ ms) p xs" "\<forall>j < length ms. pre (k + j) e (ms ! j) p"
    and "costs cost k ms p \<le> len xs"
  shows "\<exists>e' ms' p' xs'. each_manager step k ms e p = Inr (e', ms', p') \<and>
    kv_inv (as @ ms') p' xs' \<and> len xs \<le> len xs' + costs cost k ms p \<and>
    chained post k ms ms' e e' \<and> same_setup p p' \<and> rel p p'"
  using assms
proof (induction ms arbitrary: as k e p xs)
  case Nil
  then show ?case using rel_refl by (auto simp: same_setup_def)
next
  case (Cons m ms)
  have ready: "mgr_ready m p xs" and pl: "plain m"
    using kv_inv_ready [OF Cons.prems(1)] Cons.prems(1) by (auto simp: kv_inv_def)
  have pre0: "pre k e m p" using Cons.prems(2) by force
  have "cost k m p \<le> len xs" using Cons.prems(3) costs_nonneg [of "Suc k" ms p] by simp
  then obtain e1 m1 p1 xs1 where s: "step k e m p = Inr (e1, m1, p1)" "mgr_step m p xs m1 p1 xs1"
    "len xs \<le> len xs1 + cost k m p" "post k m m1 e e1" "rel p p1"
    using step_ok [OF ready pl pre0] by metis
  have su: "same_setup p p1" and pi: "pool_inv p1 xs1" using s(2) by (simp_all add: mgr_step_def)
  have rest: "\<forall>j < length ms. pre (Suc k + j) e (ms ! j) p" using Cons.prems(2) by fastforce
  have inv1: "kv_inv ((as @ [m1]) @ ms) p1 xs1"
    using kv_inv_step [of as m ms, OF Cons.prems(1) s(2)] by simp
  have pre1: "\<forall>j < length ms. pre (Suc k + j) e1 (ms ! j) p1"
    using rest pre_stable [OF _ _ s(4,5) su] by simp
  have c: "costs cost (Suc k) ms p1 \<le> costs cost (Suc k) ms p"
    using costs_stable [OF lessI rest s(5) kv_inv_pool [OF Cons.prems(1)] pi] .
  have "costs cost (Suc k) ms p1 \<le> len xs1" using c s(3) Cons.prems(3) by simp
  then obtain e2 ms2 p2 xs2 where l: "each_manager step (Suc k) ms e1 p1 = Inr (e2, ms2, p2)"
    "kv_inv ((as @ [m1]) @ ms2) p2 xs2" "len xs1 \<le> len xs2 + costs cost (Suc k) ms p1"
    "chained post (Suc k) ms ms2 e1 e2" "same_setup p1 p2" "rel p1 p2"
    using Cons.IH [OF inv1 pre1] by metis
  have "each_manager step k (m # ms) e p = Inr (e2, m1 # ms2, p2)" using s(1) l(1) by simp
  moreover have "kv_inv (as @ m1 # ms2) p2 xs2" using l(2) by simp
  moreover have "len xs \<le> len xs2 + costs cost k (m # ms) p" using c s(3) l(3) by simp
  moreover have "chained post k (m # ms) (m1 # ms2) e e2" using s(4) l(4) by auto
  moreover have "same_setup p p2" using su l(5) by (simp add: same_setup_def)
  moreover have "rel p p2" using rel_trans [OF s(5) l(6)] .
  ultimately show ?case by blast
qed

text \<open>The same for the coordinator, whose loop starts at its first manager.\<close>

lemma coordinator_ok:
  assumes "kv_inv (single_type_managers c) (block_pool c) xs"
    and "\<forall>j < length (single_type_managers c). pre j e (single_type_managers c ! j) (block_pool c)"
    and "costs cost 0 (single_type_managers c) (block_pool c) \<le> len xs"
  shows "\<exists>e' ms' p' xs'. on_managers step e c = Inr (e', c\<lparr>single_type_managers := ms', block_pool := p'\<rparr>) \<and>
    kv_inv ms' p' xs' \<and> len xs \<le> len xs' + costs cost 0 (single_type_managers c) (block_pool c) \<and>
    chained post 0 (single_type_managers c) ms' e e' \<and> same_setup (block_pool c) p' \<and>
    rel (block_pool c) p'"
proof -
  obtain e' ms' p' xs' where l: "each_manager step 0 (single_type_managers c) e (block_pool c) = Inr (e', ms', p')"
    "kv_inv ([] @ ms') p' xs'" "len xs \<le> len xs' + costs cost 0 (single_type_managers c) (block_pool c)"
    "chained post 0 (single_type_managers c) ms' e e'" "same_setup (block_pool c) p'"
    "rel (block_pool c) p'"
    using loop_ok [of "[]" "single_type_managers c" "block_pool c" xs 0 e] assms by auto
  then show ?thesis by (auto simp: on_managers_def)
qed

end

section \<open>Attention managers\<close>

definition skipped :: "SingleTypeKVCacheManager \<Rightarrow> int \<Rightarrow> int" where
  "skipped m n = (case mgr_class m of
     SlidingWindowManager \<Rightarrow> max 0 (n - sliding_window m + 1)
   | ChunkedLocalAttentionManager \<Rightarrow> n div attention_chunk_size m * attention_chunk_size m
   | _ \<Rightarrow> 0)"

lemma plain_skipped: "plain m \<Longrightarrow> get_num_skipped_tokens m n = Inr (skipped m n)"
  by (auto simp: plain_def get_num_skipped_tokens_def skipped_def py_raise_if_def)

lemma skipped_bounds:
  assumes "plain m" "0 \<le> n"
  shows "0 \<le> skipped m n" "skipped m n \<le> n"
proof -
  have "0 < c \<Longrightarrow> 0 \<le> n div c * c" for c :: int
    using assms(2) by (simp add: pos_imp_zdiv_nonneg_iff)
  moreover have "0 < c \<Longrightarrow> n div c * c \<le> n" for c :: int
    by (metis div_mult_mod_eq le_add_same_cancel1 pos_mod_sign)
  ultimately show "0 \<le> skipped m n" "skipped m n \<le> n"
    using assms by (auto simp: plain_def skipped_def)
qed

lemma plain_dispatch:
  assumes "plain m"
  shows "mgr_remove_skipped_blocks rid n m p = base_remove_skipped_blocks rid n m p"
    "mgr_allocate_new_computed_blocks cfg rid nc nl ne m p = base_allocate_new_computed_blocks cfg rid nc nl ne m p"
    "mgr_allocate_new_blocks cfg rid n main m p = base_allocate_new_blocks cfg rid n m p"
    "mgr_cache_blocks cfg r n m p = base_cache_blocks cfg r n m p"
    "mgr_free rid m p = base_free rid m p"
    "mgr_get_num_blocks_to_allocate rid n nc tot main cap m p =
       rbind (base_get_num_blocks_to_allocate rid n nc tot cap m p) (\<lambda>k. Inr (k, m))"
    "mgr_class m \<noteq> CrossAttentionManager"
  using assms
  by (auto simp: plain_def mgr_remove_skipped_blocks_def mgr_allocate_new_computed_blocks_def
      mgr_allocate_new_blocks_def mgr_cache_blocks_def mgr_free_def mgr_get_num_blocks_to_allocate_def)

definition others_kept :: "string \<Rightarrow> SingleTypeKVCacheManager \<Rightarrow> SingleTypeKVCacheManager \<Rightarrow> bool" where
  "others_kept rid m m' \<longleftrightarrow> same_mgr m m' \<and>
     (\<forall>rid'. rid' \<noteq> rid \<longrightarrow> get_req_blocks rid' m' = get_req_blocks rid' m)"

lemma held_blocks: "mgr_ready m p xs \<Longrightarrow> \<exists>ns. get_req_blocks rid m = map Blk ns"
  by (meson req_okE)

section \<open>The operations of the coordinator\<close>

definition skip_post ::
    "string \<Rightarrow> int \<Rightarrow> SingleTypeKVCacheManager \<Rightarrow> SingleTypeKVCacheManager \<Rightarrow> bool" where
  "skip_post rid n m m' \<longleftrightarrow> others_kept rid m m' \<and> num_cached_block m' = num_cached_block m \<and>
     length (get_req_blocks rid m') = length (get_req_blocks rid m) \<and>
     (\<forall>i < length (get_req_blocks rid m). nat (skipped m n div mgr_block_size m) \<le> i \<longrightarrow>
        get_req_blocks rid m' ! i = get_req_blocks rid m ! i)"

interpretation skip_loop: manager_loop "skip_step rid n" "\<lambda>i u m p. True" "\<lambda>i m p. 0"
    "\<lambda>i m m' u u'. skip_post rid n m m'" "\<lambda>p p'. \<forall>b. hash_of p' b = hash_of p b" for rid n
proof unfold_locales
  fix m p xs i and e :: unit
  assume a: "mgr_ready m p xs" "plain m"
  obtain ns where ns: "get_req_blocks rid m = map Blk ns" using held_blocks [OF a(1)] by blast
  obtain m' p' ns' ms where s: "base_remove_skipped_blocks rid n m p = Inr (m', p')"
    "mgr_step m p xs m' p' (xs @ last_refs p ms)" "get_req_blocks rid m' = map Blk ns'"
    "length ns' = length ns" "num_cached_block m' = num_cached_block m" "\<forall>b. hash_of p' b = hash_of p b"
    "\<forall>rid'. rid' \<noteq> rid \<longrightarrow> get_req_blocks rid' m' = get_req_blocks rid' m"
    "\<forall>i < length ns. i < nat (skipped m n div mgr_block_size m) \<or> ns' ! i = ns ! i"
    using base_remove_skipped_blocks_ok [OF a(1) plain_skipped [OF a(2)] ns] by metis
  have "same_mgr m m'" using s(2) by (simp add: mgr_step_def)
  then have "skip_post rid n m m'"
    using s(3-5,7,8) ns by (auto simp: skip_post_def others_kept_def)
  moreover have "skip_step rid n i e m p = Inr (e, m', p')"
    using s(1) a(2) by (simp add: skip_step_def plain_dispatch)
  moreover have "len xs \<le> len (xs @ last_refs p ms) + 0" by simp
  ultimately show "\<exists>e' m' p' xs'. skip_step rid n i e m p = Inr (e', m', p') \<and>
      mgr_step m p xs m' p' xs' \<and> len xs \<le> len xs' + 0 \<and> skip_post rid n m m' \<and>
      (\<forall>b. hash_of p' b = hash_of p b)"
    using s(2,6) by blast
qed simp_all

definition free_post :: "string \<Rightarrow> SingleTypeKVCacheManager \<Rightarrow> SingleTypeKVCacheManager \<Rightarrow> bool" where
  "free_post rid m m' \<longleftrightarrow> others_kept rid m m' \<and> get_req_blocks rid m' = [] \<and>
     num_cached_block m' rid = None"

interpretation free_loop: manager_loop "free_step rid" "\<lambda>i u m p. True" "\<lambda>i m p. 0"
    "\<lambda>i m m' u u'. free_post rid m m'" "\<lambda>p p'. True" for rid
proof unfold_locales
  fix m p xs i and e :: unit
  assume a: "mgr_ready m p xs" "plain m"
  obtain ns where ns: "get_req_blocks rid m = map Blk ns" using held_blocks [OF a(1)] by blast
  obtain m' p' where s: "base_free rid m p = Inr (m', p')"
    "mgr_step m p xs m' p' (xs @ last_refs p (rev ns))" "get_req_blocks rid m' = []"
    "num_cached_block m' rid = None"
    using base_free_ok [OF a(1) ns] by metis
  have "same_mgr m m'" using s(2) by (simp add: mgr_step_def)
  moreover have "get_req_blocks rid' m' = get_req_blocks rid' m" if "rid' \<noteq> rid" for rid'
    using s(1) that by (auto simp: base_free_def rbind_eq_Inr get_req_blocks_def AList.delete_conv)
  ultimately have "free_post rid m m'" using s(3,4) by (simp add: free_post_def others_kept_def)
  moreover have "free_step rid i e m p = Inr (e, m', p')"
    using s(1) a(2) by (simp add: free_step_def plain_dispatch)
  moreover have "len xs \<le> len (xs @ last_refs p (rev ns)) + 0" by simp
  ultimately show "\<exists>e' m' p' xs'. free_step rid i e m p = Inr (e', m', p') \<and>
      mgr_step m p xs m' p' xs' \<and> len xs \<le> len xs' + 0 \<and> free_post rid m m' \<and> True"
    using s(2) by blast
qed simp_all

definition cache_post ::
    "hash_cfg \<Rightarrow> int \<Rightarrow> SingleTypeKVCacheManager \<Rightarrow> SingleTypeKVCacheManager \<Rightarrow> Request \<Rightarrow> Request \<Rightarrow> bool" where
  "cache_post cfg n m m' r r' \<longleftrightarrow> (\<exists>mm. r' = with_memo r mm) \<and> memo_ok cfg r' \<and> same_mgr m m' \<and>
     (\<forall>rid. get_req_blocks rid m' = get_req_blocks rid m) \<and>
     cached_upto m' (request_id r) = max (cached_upto m (request_id r)) (n div mgr_block_size m)"

lemma mgr_cache_ok_stable:
  assumes "mgr_cache_ok cfg r n m p" "memo_ok cfg (with_memo r mm)" "same_setup p p'"
  shows "mgr_cache_ok cfg (with_memo r mm) n m p'"
  using assms by (simp add: mgr_cache_ok_def same_setup_def cache_request_ok_def)

interpretation cache_loop: manager_loop "cache_step cfg n" "\<lambda>i r m p. mgr_cache_ok cfg r n m p \<and> 0 \<le> n"
    "\<lambda>i m p. 0" "\<lambda>i m m' r r'. cache_post cfg n m m' r r'" "\<lambda>p p'. True" for cfg n
proof unfold_locales
  fix m p xs i and e :: Request
  assume a: "mgr_ready m p xs" "plain m" "mgr_cache_ok cfg e n m p \<and> 0 \<le> n"
  obtain ns where ns: "get_req_blocks (request_id e) m = map Blk ns" using held_blocks [OF a(1)] by blast
  obtain mm m' p' where s: "base_cache_blocks cfg e n m p = Inr (with_memo e mm, m', p')"
    "memo_ok cfg (with_memo e mm)" "mgr_step m p xs m' p' xs"
    "\<forall>rid. get_req_blocks rid m' = get_req_blocks rid m"
    "num_cached_block m' (request_id e) = (if cached_upto m (request_id e) \<ge> n div mgr_block_size m
      then num_cached_block m (request_id e) else Some (n div mgr_block_size m))"
    using base_cache_blocks_ok [OF a(1) a(3) [THEN conjunct1] ns] by metis
  have "cached_upto m' (request_id e) = max (cached_upto m (request_id e)) (n div mgr_block_size m)"
    using s(5) by (simp add: cached_upto_def)
  moreover have "same_mgr m m'" using s(3) by (simp add: mgr_step_def)
  ultimately have "cache_post cfg n m m' e (with_memo e mm)"
    using s(2,4) unfolding cache_post_def by blast
  moreover have "cache_step cfg n i e m p = Inr (with_memo e mm, m', p')"
    using s(1) a(2) by (simp add: cache_step_def plain_dispatch)
  moreover have "len xs \<le> len xs + 0" by simp
  ultimately show "\<exists>e' m' p' xs'. cache_step cfg n i e m p = Inr (e', m', p') \<and>
      mgr_step m p xs m' p' xs' \<and> len xs \<le> len xs' + 0 \<and> cache_post cfg n m m' e e' \<and> True"
    using s(3) by blast
next
  fix i j e m2 p m m' e' p'
  assume "mgr_cache_ok cfg e n m2 p \<and> 0 \<le> n" "cache_post cfg n m m' e e'" "same_setup p p'"
  then show "mgr_cache_ok cfg e' n m2 p' \<and> 0 \<le> n"
    using mgr_cache_ok_stable by (auto simp: cache_post_def)
qed simp_all

text \<open>The blocks a manager needs for the hits of a new request and for its external tokens.\<close>

definition computed_cost :: "nat list list \<Rightarrow> int \<Rightarrow> int \<Rightarrow> nat \<Rightarrow> SingleTypeKVCacheManager \<Rightarrow> BlockPool \<Rightarrow> int" where
  "computed_cost css nl ne i m p =
     (let sk = skipped m (nl + ne) in
      get_num_evictable_blocks (map Blk (kept_hits m sk (css ! i))) p +
      max 0 (fresh_for_external m sk (nl + ne) ne (css ! i)))"

definition computed_pre ::
    "string \<Rightarrow> nat list list \<Rightarrow> int \<Rightarrow> int \<Rightarrow> nat \<Rightarrow> SingleTypeKVCacheManager \<Rightarrow> BlockPool \<Rightarrow> bool" where
  "computed_pre rid css nl ne i m p \<longleftrightarrow>
     i < length css \<and> num_cached_block m rid = None \<and> get_req_blocks rid m = [] \<and>
     hit_blocks p (css ! i) \<and> (mgr_enable_caching m \<or> css ! i = []) \<and>
     0 \<le> fresh_for_external m (skipped m (nl + ne)) (nl + ne) ne (css ! i) \<and> (0 < ne \<longrightarrow> i = 0)"

definition computed_post ::
    "string \<Rightarrow> nat list list \<Rightarrow> int \<Rightarrow> int \<Rightarrow> nat \<Rightarrow> SingleTypeKVCacheManager \<Rightarrow> SingleTypeKVCacheManager \<Rightarrow> bool" where
  "computed_post rid css nl ne i m m' \<longleftrightarrow>
     (let sk = skipped m (nl + ne); s = nat (sk div mgr_block_size m) in
      others_kept rid m m' \<and>
      (\<exists>ys. int (length ys) = fresh_for_external m sk (nl + ne) ne (css ! i) \<and>
         get_req_blocks rid m' = map Blk (replicate s 0 @ kept_hits m sk (css ! i) @ ys)) \<and>
      num_cached_block m' = (num_cached_block m)(rid \<mapsto> int s + len (kept_hits m sk (css ! i))))"

lemma fresh_none: "ne \<le> 0 \<Longrightarrow> fresh_for_external m sk tot ne cs = 0"
  by (simp add: fresh_for_external_def)

interpretation computed_loop: manager_loop "computed_step cfg rid (map (map Blk) css) nl ne"
    "\<lambda>i u m p. computed_pre rid css nl ne i m p" "computed_cost css nl ne"
    "\<lambda>i m m' u u'. computed_post rid css nl ne i m m'"
    "\<lambda>p p'. ne \<le> 0 \<longrightarrow> (\<forall>b. hash_of p' b = hash_of p b \<and> rc p b \<le> rc p' b)"
  for cfg rid css nl ne
proof unfold_locales
  fix m p xs i and e :: unit
  assume a: "mgr_ready m p xs" "plain m" "computed_pre rid css nl ne i m p"
    "computed_cost css nl ne i m p \<le> len xs"
  let ?sk = "skipped m (nl + ne)" and ?cs = "css ! i"
  let ?f = "fresh_for_external m ?sk (nl + ne) ne ?cs"
  let ?ev = "get_num_evictable_blocks (map Blk (kept_hits m ?sk ?cs)) p"
  have pre: "i < length css" "num_cached_block m rid = None" "get_req_blocks rid m = []" "hit_blocks p ?cs"
    "mgr_enable_caching m \<or> ?cs = []" "0 \<le> ?f"
    using a(3) by (simp_all add: computed_pre_def)
  have k: "?f = int (nat ?f)" using pre(6) by simp
  have cost: "computed_cost css nl ne i m p = ?ev + int (nat ?f)"
    using pre(6) by (simp add: computed_cost_def Let_def)
  have enough: "?ev + int (nat ?f) \<le> len xs" using a(4) cost by simp
  obtain m' p' xs' where s: "base_allocate_new_computed_blocks cfg rid (map Blk ?cs) nl ne m p = Inr (m', p')"
    "mgr_step m p xs m' p' xs'"
    "\<exists>ys. length ys = nat ?f \<and> get_req_blocks rid m' =
       map Blk (replicate (nat (?sk div mgr_block_size m)) 0 @ kept_hits m ?sk ?cs @ ys)"
    "len xs \<le> len xs' + ?ev + int (nat ?f)"
    "nat ?f = 0 \<longrightarrow> (\<forall>b. hash_of p' b = hash_of p b \<and> rc p b \<le> rc p' b)"
    "num_cached_block m' = (num_cached_block m)
      (rid \<mapsto> int (nat (?sk div mgr_block_size m)) + len (kept_hits m ?sk ?cs))"
    "\<forall>rid'. rid' \<noteq> rid \<longrightarrow> get_req_blocks rid' m' = get_req_blocks rid' m"
    using base_allocate_new_computed_blocks_ok [OF a(1) pre(2,3) plain_skipped [OF a(2)] pre(4,5) k enough]
    by metis
  have "same_mgr m m'" using s(2) by (simp add: mgr_step_def)
  then have "computed_post rid css nl ne i m m'"
    using s(3,6,7) k unfolding computed_post_def others_kept_def Let_def by metis
  moreover have "computed_step cfg rid (map (map Blk) css) nl ne i e m p = Inr (e, m', p')"
    using s(1) a(2) pre(1) by (simp add: computed_step_def plain_dispatch py_get_def py_pos_def)
  moreover have "len xs \<le> len xs' + computed_cost css nl ne i m p" using s(4) cost by simp
  moreover have "ne \<le> 0 \<longrightarrow> (\<forall>b. hash_of p' b = hash_of p b \<and> rc p b \<le> rc p' b)"
    using s(5) fresh_none by simp
  ultimately show "\<exists>e' m' p' xs'. computed_step cfg rid (map (map Blk) css) nl ne i e m p = Inr (e', m', p') \<and>
      mgr_step m p xs m' p' xs' \<and> len xs \<le> len xs' + computed_cost css nl ne i m p \<and>
      computed_post rid css nl ne i m m' \<and>
      (ne \<le> 0 \<longrightarrow> (\<forall>b. hash_of p' b = hash_of p b \<and> rc p b \<le> rc p' b))"
    using s(2) by blast
next
  fix i j :: nat and m2 p p'
  assume "i < j" "computed_pre rid css nl ne j m2 p" "same_setup p p'"
    "ne \<le> 0 \<longrightarrow> (\<forall>b. hash_of p' b = hash_of p b \<and> rc p b \<le> rc p' b)"
  then show "computed_pre rid css nl ne j m2 p'"
    by (auto simp: computed_pre_def hit_blocks_def same_setup_def)
next
  fix i j :: nat and m2 p p' and xs xs' :: "nat list"
  assume a: "i < j" "computed_pre rid css nl ne j m2 p"
    "ne \<le> 0 \<longrightarrow> (\<forall>b. hash_of p' b = hash_of p b \<and> rc p b \<le> rc p' b)" "pool_inv p xs" "pool_inv p' xs'"
  then have "\<And>b. rc p b \<le> rc p' b" by (auto simp: computed_pre_def)
  then show "computed_cost css nl ne j m2 p' \<le> computed_cost css nl ne j m2 p"
    using get_num_evictable_blocks_mono [OF a(4,5)] by (simp add: computed_cost_def Let_def)
next
  fix i m p
  show "0 \<le> computed_cost css nl ne i m p"
    by (simp add: computed_cost_def get_num_evictable_blocks_def Let_def)
qed (auto intro: order_trans)

definition blocks_cost :: "string \<Rightarrow> int \<Rightarrow> SingleTypeKVCacheManager \<Rightarrow> int" where
  "blocks_cost rid n m = max 0 (cdiv n (mgr_block_size m) - len (get_req_blocks rid m))"

definition new_blocks_post ::
    "string \<Rightarrow> int \<Rightarrow> SingleTypeKVCacheManager \<Rightarrow> SingleTypeKVCacheManager
     \<Rightarrow> bref list list \<Rightarrow> bref list list \<Rightarrow> bool" where
  "new_blocks_post rid n m m' acc acc' \<longleftrightarrow> others_kept rid m m' \<and> num_cached_block m' = num_cached_block m \<and>
     (\<exists>bs. acc' = acc @ [bs] \<and> get_req_blocks rid m' = get_req_blocks rid m @ bs \<and> len bs = blocks_cost rid n m)"

interpretation new_blocks_loop: manager_loop "new_blocks_step cfg rid n main enc" "\<lambda>i acc m p. True"
    "\<lambda>i m p. blocks_cost rid n m" "\<lambda>i m m' acc acc'. new_blocks_post rid n m m' acc acc'" "\<lambda>p p'. True"
  for cfg rid n main enc
proof unfold_locales
  fix m p xs i and e :: "bref list list"
  assume a: "mgr_ready m p xs" "plain m" "blocks_cost rid n m \<le> len xs"
  obtain ns where ns: "get_req_blocks rid m = map Blk ns" using held_blocks [OF a(1)] by blast
  define k where "k = nat (cdiv n (mgr_block_size m) - len ns)"
  have k: "k \<le> length xs" "int k = blocks_cost rid n m" using a(3) ns by (simp_all add: blocks_cost_def k_def)
  obtain m' p' where s: "base_allocate_new_blocks cfg rid n m p = Inr (map Blk (take k xs), m', p')"
    "mgr_step m p xs m' p' (drop k xs)" "get_req_blocks rid m' = map Blk (ns @ take k xs)"
    "num_cached_block m' = num_cached_block m"
    "\<forall>rid'. rid' \<noteq> rid \<longrightarrow> get_req_blocks rid' m' = get_req_blocks rid' m"
    using base_allocate_new_blocks_ok [OF a(1) ns k_def k(1)] by metis
  have "same_mgr m m'" using s(2) by (simp add: mgr_step_def)
  then have "new_blocks_post rid n m m' e (e @ [map Blk (take k xs)])"
    using s(3-5) ns k by (simp add: new_blocks_post_def others_kept_def)
  moreover have "new_blocks_step cfg rid n main enc i e m p = Inr (e @ [map Blk (take k xs)], m', p')"
    using s(1) a(2) by (simp add: new_blocks_step_def plain_dispatch)
  moreover have "len xs \<le> len (drop k xs) + blocks_cost rid n m" using k by simp
  ultimately show "\<exists>e' m' p' xs'. new_blocks_step cfg rid n main enc i e m p = Inr (e', m', p') \<and>
      mgr_step m p xs m' p' xs' \<and> len xs \<le> len xs' + blocks_cost rid n m \<and>
      new_blocks_post rid n m m' e e' \<and> True"
    using s(2) by blast
qed (simp_all add: blocks_cost_def)

end
