(* ===== verification/Stats.thy ===== *)
theory Stats
  imports Prelude
begin

text \<open>
  \<^verbatim>\<open>vllm/v1/metrics/stats.py\<close>: the prefix-cache statistics a KV cache manager collects, and the
  hit rate over the most recent requests.  The rate is an exact fraction instead of a float.
\<close>

record PrefixCacheStats =
  stats_reset :: bool
  stats_requests :: int
  stats_queries :: int
  stats_hits :: int
  preempted_requests :: int
  preempted_queries :: int
  preempted_hits :: int

definition new_PrefixCacheStats :: PrefixCacheStats where
  "new_PrefixCacheStats = \<lparr>stats_reset = False, stats_requests = 0, stats_queries = 0, stats_hits = 0,
     preempted_requests = 0, preempted_queries = 0, preempted_hits = 0\<rparr>"

definition stats_record :: "int \<Rightarrow> int \<Rightarrow> bool \<Rightarrow> PrefixCacheStats \<Rightarrow> PrefixCacheStats" where
  "stats_record num_toks num_hits preempted s =
     (if preempted
      then s\<lparr>preempted_requests := preempted_requests s + 1,
             preempted_queries := preempted_queries s + num_toks,
             preempted_hits := preempted_hits s + num_hits\<rparr>
      else s\<lparr>stats_requests := stats_requests s + 1, stats_queries := stats_queries s + num_toks,
             stats_hits := stats_hits s + num_hits\<rparr>)"

record CachingMetrics =
  max_recent_requests :: int
  aggregated_requests :: int
  aggregated_query_total :: int
  aggregated_query_hit :: int
  query_queue :: "(int \<times> int \<times> int) list"

definition CachingMetrics_init :: "int \<Rightarrow> CachingMetrics" where
  "CachingMetrics_init n = \<lparr>max_recent_requests = n, aggregated_requests = 0,
     aggregated_query_total = 0, aggregated_query_hit = 0, query_queue = []\<rparr>"

definition metrics_reset :: "CachingMetrics \<Rightarrow> CachingMetrics" where
  "metrics_reset c = c\<lparr>aggregated_requests := 0, aggregated_query_total := 0,
     aggregated_query_hit := 0, query_queue := []\<rparr>"

text \<open>Dropping the oldest entries while there are too many requests and more than one entry.\<close>

fun drop_oldest :: "(int \<times> int \<times> int) list \<Rightarrow> CachingMetrics \<Rightarrow> CachingMetrics" where
  "drop_oldest ((r, q, h) # e # rest) c =
     (if aggregated_requests c > max_recent_requests c
      then drop_oldest (e # rest)
             (c\<lparr>aggregated_requests := aggregated_requests c - r,
                aggregated_query_total := aggregated_query_total c - q,
                aggregated_query_hit := aggregated_query_hit c - h,
                query_queue := e # rest\<rparr>)
      else c)"
| "drop_oldest _ c = c"

definition metrics_observe :: "PrefixCacheStats \<Rightarrow> CachingMetrics \<Rightarrow> CachingMetrics" where
  "metrics_observe s c0 =
     (let c = (if stats_reset s then metrics_reset c0 else c0) in
      if stats_requests s = 0 then c
      else let queue = query_queue c @ [(stats_requests s, stats_queries s, stats_hits s)]
           in drop_oldest queue
                (c\<lparr>query_queue := queue,
                   aggregated_requests := aggregated_requests c + stats_requests s,
                   aggregated_query_total := aggregated_query_total c + stats_queries s,
                   aggregated_query_hit := aggregated_query_hit c + stats_hits s\<rparr>))"

definition metrics_empty :: "CachingMetrics \<Rightarrow> bool" where
  "metrics_empty c \<longleftrightarrow> aggregated_requests c = 0"

definition hit_rate :: "CachingMetrics \<Rightarrow> rat" where
  "hit_rate c = (if aggregated_query_total c = 0 then 0
     else of_int (aggregated_query_hit c) / of_int (aggregated_query_total c))"

section \<open>Correctness\<close>

text \<open>The aggregated counters are the sums over the queue, and every entry has hits among its
  queries.\<close>

definition sums_ok :: "CachingMetrics \<Rightarrow> bool" where
  "sums_ok c \<longleftrightarrow>
     aggregated_requests c = sum_list (map fst (query_queue c)) \<and>
     aggregated_query_total c = sum_list (map (\<lambda>x. fst (snd x)) (query_queue c)) \<and>
     aggregated_query_hit c = sum_list (map (\<lambda>x. snd (snd x)) (query_queue c)) \<and>
     (\<forall>(r, q, h) \<in> set (query_queue c). 0 < r \<and> 0 \<le> h \<and> h \<le> q)"

definition stats_ok :: "PrefixCacheStats \<Rightarrow> bool" where
  "stats_ok s \<longleftrightarrow> 0 \<le> stats_requests s \<and> 0 \<le> stats_hits s \<and> stats_hits s \<le> stats_queries s"

text \<open>What remains of a queue: the newest entry, and as many older ones as the limit allows.\<close>

fun recent :: "int \<Rightarrow> (int \<times> int \<times> int) list \<Rightarrow> (int \<times> int \<times> int) list" where
  "recent n (x # e # rest) =
     (if sum_list (map fst (x # e # rest)) > n then recent n (e # rest) else x # e # rest)"
| "recent n xs = xs"

lemma recent_subset: "set (recent n xs) \<subseteq> set xs"
  by (induction n xs rule: recent.induct) auto

lemma drop_oldest_ok:
  assumes "sums_ok c" "query_queue c = xs"
  shows "sums_ok (drop_oldest xs c) \<and> query_queue (drop_oldest xs c) = recent (max_recent_requests c) xs \<and>
    max_recent_requests (drop_oldest xs c) = max_recent_requests c"
  using assms
proof (induction xs c rule: drop_oldest.induct)
  case (1 r q h e rest c)
  show ?case
  proof (cases "aggregated_requests c > max_recent_requests c")
    case True
    let ?c = "c\<lparr>aggregated_requests := aggregated_requests c - r,
                aggregated_query_total := aggregated_query_total c - q,
                aggregated_query_hit := aggregated_query_hit c - h, query_queue := e # rest\<rparr>"
    have "sums_ok ?c" using 1(2,3) by (simp add: sums_ok_def)
    moreover have "sum_list (map fst ((r, q, h) # e # rest)) > max_recent_requests c"
      using True 1(2,3) by (simp add: sums_ok_def)
    ultimately show ?thesis using 1(1) [OF True] True by simp
  next
    case False
    then have "\<not> sum_list (map fst ((r, q, h) # e # rest)) > max_recent_requests c"
      using 1(2,3) by (simp add: sums_ok_def)
    then show ?thesis using False 1(2,3) by simp
  qed
qed auto

lemma recent_limit:
  "length (recent n xs) \<le> 1 \<or> sum_list (map fst (recent n xs)) \<le> n"
  by (induction n xs rule: recent.induct) auto

fun observe_stats :: "PrefixCacheStats list \<Rightarrow> CachingMetrics \<Rightarrow> CachingMetrics" where
  "observe_stats [] c = c"
| "observe_stats (s # ss) c = observe_stats ss (metrics_observe s c)"

definition metrics_ok :: "CachingMetrics \<Rightarrow> bool" where
  "metrics_ok c \<longleftrightarrow> sums_ok c \<and>
     (length (query_queue c) \<le> 1 \<or> aggregated_requests c \<le> max_recent_requests c)"

lemma sums_ok_reset: "sums_ok (metrics_reset c)"
  by (simp add: sums_ok_def metrics_reset_def)

lemma metrics_observe_ok:
  assumes "metrics_ok c0" "stats_ok s"
  shows "metrics_ok (metrics_observe s c0)"
proof -
  define c where "c = (if stats_reset s then metrics_reset c0 else c0)"
  have c: "metrics_ok c" using assms(1) sums_ok_reset by (simp add: c_def metrics_ok_def metrics_reset_def)
  show ?thesis
  proof (cases "stats_requests s = 0")
    case True
    then show ?thesis using c by (simp add: metrics_observe_def c_def Let_def)
  next
    case False
    let ?q = "query_queue c @ [(stats_requests s, stats_queries s, stats_hits s)]"
    let ?c = "c\<lparr>query_queue := ?q, aggregated_requests := aggregated_requests c + stats_requests s,
                aggregated_query_total := aggregated_query_total c + stats_queries s,
                aggregated_query_hit := aggregated_query_hit c + stats_hits s\<rparr>"
    have "sums_ok ?c" using c assms(2) False by (auto simp: metrics_ok_def sums_ok_def stats_ok_def)
    note d = drop_oldest_ok [OF this, of ?q]
    have "metrics_observe s c0 = drop_oldest ?q ?c"
      using False by (simp add: metrics_observe_def c_def Let_def)
    then show ?thesis using d recent_limit [of "max_recent_requests c" ?q]
      by (simp add: metrics_ok_def) (auto simp: sums_ok_def)
  qed
qed

lemma observe_stats_ok: "metrics_ok c \<Longrightarrow> \<forall>s \<in> set ss. stats_ok s \<Longrightarrow> metrics_ok (observe_stats ss c)"
  by (induction ss arbitrary: c) (simp_all add: metrics_observe_ok)

lemma sum_hits_le:
  "\<forall>(r, q, h) \<in> set xs. 0 < r \<and> 0 \<le> h \<and> h \<le> (q :: int) \<Longrightarrow>
   0 \<le> sum_list (map (\<lambda>x. snd (snd x)) xs) \<and>
   sum_list (map (\<lambda>x. snd (snd x)) xs) \<le> sum_list (map (\<lambda>x. fst (snd x)) xs)"
  by (induction xs) auto

lemma hit_rate_bounds: "sums_ok c \<Longrightarrow> 0 \<le> hit_rate c \<and> hit_rate c \<le> 1"
  using sum_hits_le [of "query_queue c"] by (auto simp: sums_ok_def hit_rate_def divide_le_eq_1)

text \<open>C37: after any sequence of updates whose hits are among their queries, the aggregated counters
  are the sums over the updates still in the window, the window holds at most the configured
  number of requests unless it is a single update, and the hit rate is between 0 and 1.\<close>

theorem hit_rate_over_recent_requests:
  assumes "\<forall>s \<in> set ss. stats_ok s" "c = observe_stats ss (CachingMetrics_init n)"
  shows "sums_ok c \<and> (length (query_queue c) \<le> 1 \<or> aggregated_requests c \<le> max_recent_requests c) \<and>
    0 \<le> hit_rate c \<and> hit_rate c \<le> 1"
proof -
  have "metrics_ok (CachingMetrics_init n)"
    by (simp add: metrics_ok_def sums_ok_def CachingMetrics_init_def)
  then have "metrics_ok c" using observe_stats_ok assms by simp
  then show ?thesis using hit_rate_bounds by (simp add: metrics_ok_def)
qed

theorem hit_rate_over_recent_requests_witness:
  "let s = stats_record 10 4 False new_PrefixCacheStats; c = observe_stats [s, s, s] (CachingMetrics_init 2)
   in hit_rate c \<le> 1 \<and> aggregated_requests c = 2 \<and> aggregated_query_hit c = 8"
  using hit_rate_over_recent_requests [of "replicate 3 (stats_record 10 4 False new_PrefixCacheStats)"
      "observe_stats (replicate 3 (stats_record 10 4 False new_PrefixCacheStats)) (CachingMetrics_init 2)" 2]
  by (simp add: stats_record_def new_PrefixCacheStats_def stats_ok_def numeral_3_eq_3
      metrics_observe_def CachingMetrics_init_def Let_def)

end
