(* ===== verification/KVManager.thy ===== *)
theory KVManager
  imports CoordinatorInv Stats
begin

text \<open>
  \<^verbatim>\<open>vllm/v1/core/kv_cache_manager.py\<close>: the manager the scheduler talks to.  Its block pool is the
  coordinator's.  The pre-built empty \<open>KVCacheBlocks\<close> object is told apart from other values
  without blocks, since the code compares it by identity.
\<close>

section \<open>Allocation results\<close>

datatype KVCacheBlocks = EmptyBlocks nat | KVCacheBlocks "bref list list"

fun kvc_blocks :: "KVCacheBlocks \<Rightarrow> bref list list" where
  "kvc_blocks (EmptyBlocks n) = replicate n []"
| "kvc_blocks (KVCacheBlocks bs) = bs"

definition blocks_add :: "KVCacheBlocks \<Rightarrow> KVCacheBlocks \<Rightarrow> KVCacheBlocks" where
  "blocks_add a b = KVCacheBlocks (map (\<lambda>(x, y). x @ y) (zip (kvc_blocks a) (kvc_blocks b)))"

definition blocks_get_block_ids :: "BlockPool \<Rightarrow> bool \<Rightarrow> KVCacheBlocks \<Rightarrow> int list list option" where
  "blocks_get_block_ids p allow_none b =
     (if allow_none \<and> (\<forall>g \<in> set (kvc_blocks b). g = []) then None
      else Some (map (map (\<lambda>x. block_id (pheap p x))) (kvc_blocks b)))"

definition get_unhashed_block_ids :: "BlockPool \<Rightarrow> KVCacheBlocks \<Rightarrow> int list res" where
  "get_unhashed_block_ids p b =
     (case kvc_blocks b of
        [g] \<Rightarrow> Inr (map (\<lambda>x. block_id (pheap p x)) (filter (\<lambda>x. block_hash (pheap p x) = None) g))
      | _ \<Rightarrow> Inl AssertionError)"

definition get_unhashed_block_ids_all_groups :: "BlockPool \<Rightarrow> KVCacheBlocks \<Rightarrow> int list list" where
  "get_unhashed_block_ids_all_groups p b =
     map (\<lambda>g. map (\<lambda>x. block_id (pheap p x))
       (filter (\<lambda>x. block_hash (pheap p x) = None \<and> \<not> is_null (pheap p x)) g)) (kvc_blocks b)"

definition new_empty :: "KVCacheBlocks \<Rightarrow> KVCacheBlocks" where
  "new_empty b = KVCacheBlocks (replicate (length (kvc_blocks b)) [])"

section \<open>The manager\<close>

record KVCacheManager =
  kvm_max_model_len :: int
  kvm_enable_caching :: bool
  kvm_log_stats :: bool
  prefix_cache_stats :: "PrefixCacheStats option"
  coordinator :: KVCacheCoordinator
  num_kv_cache_groups :: nat

abbreviation managers :: "KVCacheManager \<Rightarrow> SingleTypeKVCacheManager list" where
  "managers k \<equiv> single_type_managers (coordinator k)"

abbreviation kv_pool :: "KVCacheManager \<Rightarrow> BlockPool" where
  "kv_pool k \<equiv> block_pool (coordinator k)"

definition KVCacheManager_init ::
    "KVCacheConfig \<Rightarrow> int \<Rightarrow> int \<Rightarrow> int option \<Rightarrow> bool \<Rightarrow> bool \<Rightarrow> bool \<Rightarrow> bool \<Rightarrow> int \<Rightarrow> int
     \<Rightarrow> KVCacheManager res" where
  "KVCacheManager_init config mml hbs batched caching use_eagle logging events dcp pcp =
     rbind (get_kv_cache_coordinator config mml (case batched of Some b \<Rightarrow> b | None \<Rightarrow> mml)
              use_eagle caching events dcp pcp hbs) (\<lambda>c.
     Inr \<lparr>kvm_max_model_len = mml, kvm_enable_caching = caching, kvm_log_stats = logging,
          prefix_cache_stats = (if logging then Some new_PrefixCacheStats else None), coordinator = c,
          num_kv_cache_groups = length (kv_cache_groups config)\<rparr>)"

definition usage :: "KVCacheManager \<Rightarrow> rat" where
  "usage k = get_usage (kv_pool k)"

definition make_prefix_cache_stats :: "KVCacheManager \<Rightarrow> PrefixCacheStats option \<times> KVCacheManager" where
  "make_prefix_cache_stats k =
     (if \<not> kvm_log_stats k then (None, k)
      else (prefix_cache_stats k, k\<lparr>prefix_cache_stats := Some new_PrefixCacheStats\<rparr>))"

definition create_kv_cache_blocks :: "KVCacheManager \<Rightarrow> bref list list \<Rightarrow> KVCacheBlocks" where
  "create_kv_cache_blocks k bs =
     (if \<exists>g \<in> set bs. g \<noteq> [] then KVCacheBlocks bs else EmptyBlocks (num_kv_cache_groups k))"

definition get_computed_blocks ::
    "KVCacheManager \<Rightarrow> Request \<Rightarrow> (KVCacheBlocks \<times> int \<times> KVCacheManager) res" where
  "get_computed_blocks k r =
     (if \<not> kvm_enable_caching k \<or> skip_reading_prefix_cache r
      then Inr (EmptyBlocks (num_kv_cache_groups k), 0, k)
      else rbind (coord_find_longest_cache_hit (coordinator k) (block_hashes r) (num_tokens r - 1))
        (\<lambda>(computed, n).
         rbind (if kvm_log_stats k
                then case prefix_cache_stats k of
                       None \<Rightarrow> Inl AssertionError
                     | Some s \<Rightarrow> Inr (k\<lparr>prefix_cache_stats :=
                         Some (stats_record (num_tokens r) n (num_preemptions r > 0) s)\<rparr>)
                else Inr k) (\<lambda>k'.
         Inr (create_kv_cache_blocks k computed, n, k'))))"

definition computed_list :: "KVCacheManager \<Rightarrow> KVCacheBlocks option \<Rightarrow> KVCacheBlocks" where
  "computed_list k nc = (case nc of Some b \<Rightarrow> b | None \<Rightarrow> EmptyBlocks (num_kv_cache_groups k))"

definition can_fit_full_sequence ::
    "KVCacheManager \<Rightarrow> Request \<Rightarrow> int \<Rightarrow> KVCacheBlocks option \<Rightarrow> int \<Rightarrow> int \<Rightarrow> (bool \<times> KVCacheManager) res" where
  "can_fit_full_sequence k r num_new_computed new_computed num_external num_encoder =
     (let num_local = num_computed_tokens r + num_new_computed;
          total_computed = min (num_local + num_external) (kvm_max_model_len k);
          full_num_tokens = min (num_tokens r) (kvm_max_model_len k)
      in rbind (coord_get_num_blocks_to_allocate (request_id r) full_num_tokens
                  (kvc_blocks (computed_list k new_computed)) num_encoder total_computed full_num_tokens
                  True (coordinator k)) (\<lambda>(n, c).
         Inr (n \<le> get_num_free_blocks (block_pool c), k\<lparr>coordinator := c\<rparr>)))"

text \<open>The allocation proper, once enough free blocks are known to exist.\<close>

definition allocate_and_cache ::
    "hash_cfg \<Rightarrow> KVCacheManager \<Rightarrow> Request \<Rightarrow> KVCacheBlocks \<Rightarrow> int \<Rightarrow> int \<Rightarrow> int \<Rightarrow> int \<Rightarrow> int \<Rightarrow> bool \<Rightarrow> int
     \<Rightarrow> KVCacheCoordinator \<Rightarrow> (KVCacheBlocks option \<times> Request \<times> KVCacheManager) res" where
  "allocate_and_cache cfg k r computed num_local num_external main need_slot to_cache delay num_encoder c2 =
     rbind (if (case computed of EmptyBlocks _ \<Rightarrow> False | KVCacheBlocks _ \<Rightarrow> True) \<or> num_external > 0
            then coord_allocate_new_computed_blocks cfg (request_id r) (kvc_blocks computed)
                   num_local num_external c2
            else Inr ((), c2)) (\<lambda>(_, c3).
     rbind (coord_allocate_new_blocks cfg (request_id r) need_slot main num_encoder c3) (\<lambda>(new_blocks, c4).
       if \<not> kvm_enable_caching k \<or> delay
       then Inr (Some (create_kv_cache_blocks k new_blocks), r, k\<lparr>coordinator := c4\<rparr>)
       else rbind (coord_cache_blocks cfg r to_cache c4) (\<lambda>(r', c5).
            Inr (Some (create_kv_cache_blocks k new_blocks), r', k\<lparr>coordinator := c5\<rparr>))))"

definition allocate_slots ::
    "hash_cfg \<Rightarrow> KVCacheManager \<Rightarrow> Request \<Rightarrow> int \<Rightarrow> int \<Rightarrow> KVCacheBlocks option \<Rightarrow> int \<Rightarrow> int \<Rightarrow> bool \<Rightarrow> int
     \<Rightarrow> (KVCacheBlocks option \<times> Request \<times> KVCacheManager) res" where
  "allocate_slots cfg k r num_new num_new_computed new_computed num_lookahead num_external delay num_encoder =
     py_raise_if (num_new = 0 \<and> num_external = 0) ValueError
     (let computed = computed_list k new_computed;
          num_local = num_computed_tokens r + num_new_computed;
          total_computed = min (num_local + num_external) (kvm_max_model_len k);
          main = total_computed + num_new;
          need_slot = min (main + num_lookahead) (kvm_max_model_len k);
          to_cache = min (total_computed + num_new) (num_tokens r)
      in rbind (coord_remove_skipped_blocks (request_id r) total_computed (coordinator k)) (\<lambda>(_, c1).
         rbind (coord_get_num_blocks_to_allocate (request_id r) need_slot (kvc_blocks computed) num_encoder
                  (num_local + num_external) main False c1) (\<lambda>(n, c2).
           if n > get_num_free_blocks (block_pool c2) then Inr (None, r, k\<lparr>coordinator := c2\<rparr>)
           else allocate_and_cache cfg k r computed num_local num_external main need_slot to_cache
                  delay num_encoder c2)))"

definition kvm_free :: "KVCacheManager \<Rightarrow> Request \<Rightarrow> KVCacheManager res" where
  "kvm_free k r = rbind (coord_free (request_id r) (coordinator k)) (\<lambda>(_, c). Inr (k\<lparr>coordinator := c\<rparr>))"

definition kvm_remove_skipped_blocks :: "KVCacheManager \<Rightarrow> string \<Rightarrow> int \<Rightarrow> KVCacheManager res" where
  "kvm_remove_skipped_blocks k rid n =
     rbind (coord_remove_skipped_blocks rid n (coordinator k)) (\<lambda>(_, c). Inr (k\<lparr>coordinator := c\<rparr>))"

definition kvm_evict_blocks :: "hash_cfg \<Rightarrow> KVCacheManager \<Rightarrow> int list \<Rightarrow> KVCacheManager res" where
  "kvm_evict_blocks cfg k ids =
     rbind (evict_blocks cfg ids (kv_pool k)) (\<lambda>p. Inr (k\<lparr>coordinator := (coordinator k)\<lparr>block_pool := p\<rparr>\<rparr>))"

definition kvm_reset_prefix_cache :: "KVCacheManager \<Rightarrow> (bool \<times> KVCacheManager) res" where
  "kvm_reset_prefix_cache k =
     (case reset_prefix_cache (kv_pool k) of (ok, p) \<Rightarrow>
      let k1 = k\<lparr>coordinator := (coordinator k)\<lparr>block_pool := p\<rparr>\<rparr> in
      if \<not> ok then Inr (False, k1)
      else if kvm_log_stats k
      then case prefix_cache_stats k of
             None \<Rightarrow> Inl AssertionError
           | Some s \<Rightarrow> Inr (True, k1\<lparr>prefix_cache_stats := Some (s\<lparr>stats_reset := True\<rparr>)\<rparr>)
      else Inr (True, k1))"

definition kvm_get_num_common_prefix_blocks :: "KVCacheManager \<Rightarrow> string \<Rightarrow> (int list \<times> KVCacheManager) res" where
  "kvm_get_num_common_prefix_blocks k rid =
     rbind (coord_get_num_common_prefix_blocks rid (coordinator k)) (\<lambda>(ns, c). Inr (ns, k\<lparr>coordinator := c\<rparr>))"

definition kvm_take_events :: "KVCacheManager \<Rightarrow> KVCacheEvent list \<times> KVCacheManager" where
  "kvm_take_events k =
     (case take_events (kv_pool k) of (es, p) \<Rightarrow> (es, k\<lparr>coordinator := (coordinator k)\<lparr>block_pool := p\<rparr>\<rparr>))"

definition get_blocks :: "KVCacheManager \<Rightarrow> string \<Rightarrow> KVCacheBlocks" where
  "get_blocks k rid = create_kv_cache_blocks k (coord_get_blocks rid (coordinator k))"

definition get_block_ids :: "KVCacheManager \<Rightarrow> string \<Rightarrow> int list list option" where
  "get_block_ids k rid = blocks_get_block_ids (kv_pool k) False (get_blocks k rid)"

definition kvm_cache_blocks :: "hash_cfg \<Rightarrow> KVCacheManager \<Rightarrow> Request \<Rightarrow> int \<Rightarrow> (Request \<times> KVCacheManager) res" where
  "kvm_cache_blocks cfg k r n =
     (if kvm_enable_caching k
      then rbind (coord_cache_blocks cfg r n (coordinator k)) (\<lambda>(r', c). Inr (r', k\<lparr>coordinator := c\<rparr>))
      else Inr (r, k))"

definition kvm_take_new_block_ids :: "KVCacheManager \<Rightarrow> int list \<times> KVCacheManager" where
  "kvm_take_new_block_ids k =
     (concat (map (\<lambda>m. fst (take_new_block_ids m)) (managers k)),
      k\<lparr>coordinator := (coordinator k)\<lparr>single_type_managers :=
         map (\<lambda>m. snd (take_new_block_ids m)) (managers k)\<rparr>\<rparr>)"

definition kvm_new_step_starts :: "KVCacheManager \<Rightarrow> KVCacheManager" where
  "kvm_new_step_starts k = k\<lparr>coordinator := coord_new_step_starts (coordinator k)\<rparr>"

end
