(* ===== verification/HeapQ.thy ===== *)
theory HeapQ
  imports Prelude
begin

text \<open>
  Python's \<open>heapq\<close>, the list heap under the priority request queue: the sift loops with
  their moving hole, push, pop and heapify, over an arbitrary comparison \<open>lt\<close> (the
  elements' \<open>__lt__\<close>).  For a strict weak order the operations keep the heap property and
  the multiset of elements, and the head is a minimum.
\<close>

section \<open>The algorithms\<close>

definition parent_pos :: "nat \<Rightarrow> nat" where
  "parent_pos pos = (pos - 1) div 2"

function siftdown_loop :: "('a \<Rightarrow> 'a \<Rightarrow> bool) \<Rightarrow> 'a \<Rightarrow> nat \<Rightarrow> 'a list \<Rightarrow> nat \<Rightarrow> 'a list \<times> nat" where
  "siftdown_loop lt newitem startpos h pos =
     (if pos > startpos then
        let parentpos = parent_pos pos; parent = h ! parentpos in
        if lt newitem parent then siftdown_loop lt newitem startpos (h[pos := parent]) parentpos
        else (h, pos)
      else (h, pos))"
  by pat_completeness auto
termination
  by (relation "measure (\<lambda>(_, _, _, _, pos). pos)") (auto simp: parent_pos_def)

definition siftdown :: "('a \<Rightarrow> 'a \<Rightarrow> bool) \<Rightarrow> nat \<Rightarrow> nat \<Rightarrow> 'a list \<Rightarrow> 'a list" where
  "siftdown lt startpos pos h =
     (let newitem = h ! pos; (h', pos') = siftdown_loop lt newitem startpos h pos
      in h'[pos' := newitem])"

function siftup_loop :: "('a \<Rightarrow> 'a \<Rightarrow> bool) \<Rightarrow> nat \<Rightarrow> 'a list \<Rightarrow> nat \<Rightarrow> 'a list \<times> nat" where
  "siftup_loop lt endpos h pos =
     (let childpos = 2 * pos + 1 in
      if childpos < endpos then
        let rightpos = childpos + 1;
            c = (if rightpos < endpos \<and> \<not> lt (h ! childpos) (h ! rightpos) then rightpos else childpos)
        in siftup_loop lt endpos (h[pos := h ! c]) c
      else (h, pos))"
  by pat_completeness auto
termination
  by (relation "measure (\<lambda>(_, endpos, _, pos). endpos - pos)") (auto split: if_splits)

definition siftup :: "('a \<Rightarrow> 'a \<Rightarrow> bool) \<Rightarrow> nat \<Rightarrow> 'a list \<Rightarrow> 'a list" where
  "siftup lt pos h =
     (let newitem = h ! pos; (h', pos') = siftup_loop lt (length h) h pos
      in siftdown lt pos pos' (h'[pos' := newitem]))"

definition heappush :: "('a \<Rightarrow> 'a \<Rightarrow> bool) \<Rightarrow> 'a \<Rightarrow> 'a list \<Rightarrow> 'a list" where
  "heappush lt x h = (let h' = h @ [x] in siftdown lt 0 (length h' - 1) h')"

definition heappop :: "('a \<Rightarrow> 'a \<Rightarrow> bool) \<Rightarrow> 'a list \<Rightarrow> ('a \<times> 'a list) res" where
  "heappop lt h =
     (if h = [] then Inl IndexError
      else let lastelt = last h; h' = butlast h in
        if h' \<noteq> [] then Inr (h' ! 0, siftup lt 0 (h'[0 := lastelt]))
        else Inr (lastelt, h'))"

definition heapify :: "('a \<Rightarrow> 'a \<Rightarrow> bool) \<Rightarrow> 'a list \<Rightarrow> 'a list" where
  "heapify lt h = fold (siftup lt) (rev [0..<length h div 2]) h"

declare siftdown_loop.simps [simp del] siftup_loop.simps [simp del]

lemma parent_lt: "0 < j \<Longrightarrow> parent_pos j < j"
  by (auto simp: parent_pos_def)

section \<open>The heap property\<close>

text \<open>Below position \<open>s\<close> every element is in order with its parent; \<open>s = 0\<close> is a heap.\<close>

definition heap_from :: "('a \<Rightarrow> 'a \<Rightarrow> bool) \<Rightarrow> nat \<Rightarrow> 'a list \<Rightarrow> bool" where
  "heap_from lt s h \<longleftrightarrow>
     (\<forall>j < length h. 0 < j \<and> s \<le> parent_pos j \<longrightarrow> \<not> lt (h ! j) (h ! parent_pos j))"

text \<open>\<open>desc s i\<close>: position \<open>i\<close> is \<open>s\<close> or below it.\<close>

function desc :: "nat \<Rightarrow> nat \<Rightarrow> bool" where
  "desc s i \<longleftrightarrow> (if i = s then True else if i > s then desc s (parent_pos i) else False)"
  by pat_completeness auto
termination
  by (relation "measure snd") (auto simp: parent_pos_def)

declare desc.simps [simp del]

lemma desc_refl [simp]: "desc s s"
  by (simp add: desc.simps)

lemma desc_le: "desc s i \<Longrightarrow> s \<le> i"
  by (subst (asm) desc.simps) (auto split: if_splits)

lemma desc_parent: "desc s i \<Longrightarrow> i \<noteq> s \<Longrightarrow> s < i \<and> desc s (parent_pos i) \<and> s \<le> parent_pos i"
proof -
  assume a: "desc s i" "i \<noteq> s"
  then have "s < i \<and> desc s (parent_pos i)" by (subst (asm) desc.simps) (auto split: if_splits)
  then show ?thesis using desc_le by blast
qed

lemma desc_child: "desc s i \<Longrightarrow> 0 < j \<Longrightarrow> parent_pos j = i \<Longrightarrow> desc s j"
proof -
  assume a: "desc s i" "0 < j" "parent_pos j = i"
  have "s < j" using desc_le [OF a(1)] parent_lt [OF a(2)] a(3) by linarith
  then show ?thesis using a by (subst desc.simps) simp
qed

lemma desc_zero [simp]: "desc 0 i"
proof (induction i rule: less_induct)
  case (less i)
  then show ?case using parent_lt [of i] by (cases "i = 0") (auto simp: desc.simps [of 0 i])
qed

lemma parent_children: "0 < j \<Longrightarrow> parent_pos j = i \<longleftrightarrow> j = 2 * i + 1 \<or> j = 2 * i + 2"
  by (auto simp: parent_pos_def)

lemma siftdown_loop_stop:
  "\<not> (pos > s \<and> lt x (h ! parent_pos pos)) \<Longrightarrow> siftdown_loop lt x s h pos = (h, pos)"
  by (subst siftdown_loop.simps) (auto simp: Let_def)

lemma siftdown_loop_step:
  "pos > s \<Longrightarrow> lt x (h ! parent_pos pos) \<Longrightarrow>
     siftdown_loop lt x s h pos = siftdown_loop lt x s (h[pos := h ! parent_pos pos]) (parent_pos pos)"
  by (subst siftdown_loop.simps) (simp add: Let_def)

text \<open>The child the hole moves to: the right one unless the left one is smaller.\<close>

definition min_child :: "('a \<Rightarrow> 'a \<Rightarrow> bool) \<Rightarrow> nat \<Rightarrow> 'a list \<Rightarrow> nat \<Rightarrow> nat" where
  "min_child lt n h pos =
     (if 2 * pos + 2 < n \<and> \<not> lt (h ! (2 * pos + 1)) (h ! (2 * pos + 2))
      then 2 * pos + 2 else 2 * pos + 1)"

lemma siftup_loop_stop: "\<not> 2 * pos + 1 < n \<Longrightarrow> siftup_loop lt n h pos = (h, pos)"
  by (subst siftup_loop.simps) simp

lemma siftup_loop_step:
  "2 * pos + 1 < n \<Longrightarrow> siftup_loop lt n h pos =
     siftup_loop lt n (h[pos := h ! min_child lt n h pos]) (min_child lt n h pos)"
  by (subst siftup_loop.simps) (simp add: Let_def min_child_def)

lemma min_child_pos: "2 * pos + 1 < n \<Longrightarrow> pos < min_child lt n h pos \<and> min_child lt n h pos < n"
  by (simp add: min_child_def)

lemma parent_min_child: "parent_pos (min_child lt n h pos) = pos"
  by (simp add: min_child_def parent_pos_def)

section \<open>The multiset is kept\<close>

lemma mset_move_hole:
  assumes "i < length h" "j < length h" "i \<noteq> j"
  shows "mset ((h[i := h ! j])[j := x]) = mset (h[i := x])"
proof -
  have "mset ((h[i := x])[i := (h[i := x]) ! j, j := (h[i := x]) ! i]) = mset (h[i := x])"
    using assms by (intro mset_swap) auto
  then show ?thesis using assms by simp
qed

lemma siftdown_loop_mset:
  "pos < length h \<Longrightarrow> siftdown_loop lt x s h pos = (h', pos') \<Longrightarrow>
     length h' = length h \<and> pos' < length h \<and> mset (h'[pos' := x]) = mset (h[pos := x])"
proof (induction pos arbitrary: h rule: less_induct)
  case (less pos)
  let ?q = "parent_pos pos"
  show ?case
  proof (cases "pos > s \<and> lt x (h ! ?q)")
    case False
    then show ?thesis using less.prems siftdown_loop_stop [of s pos lt x h] by simp
  next
    case True
    have q: "?q < pos" "?q < length (h[pos := h ! ?q])"
      using less.prems(1) True parent_lt [of pos] by auto
    have "siftdown_loop lt x s (h[pos := h ! ?q]) ?q = (h', pos')"
      using True less.prems(2) siftdown_loop_step [of s pos lt x h] by simp
    from less.IH [OF q this] show ?thesis
      using mset_move_hole [of pos h ?q x] q less.prems(1) by simp
  qed
qed

lemma siftdown_mset:
  "pos < length h \<Longrightarrow> length (siftdown lt s pos h) = length h \<and> mset (siftdown lt s pos h) = mset h"
proof -
  assume p: "pos < length h"
  obtain h' pos' where e: "siftdown_loop lt (h ! pos) s h pos = (h', pos')" by fastforce
  from siftdown_loop_mset [OF p e] show ?thesis by (simp add: siftdown_def e)
qed

lemma siftup_loop_mset:
  "pos < length h \<Longrightarrow> siftup_loop lt (length h) h pos = (h', pos') \<Longrightarrow>
     length h' = length h \<and> pos' < length h \<and> mset (h'[pos' := x]) = mset (h[pos := x])"
proof (induction "length h - pos" arbitrary: h pos rule: less_induct)
  case less
  let ?c = "min_child lt (length h) h pos"
  show ?case
  proof (cases "2 * pos + 1 < length h")
    case False
    then show ?thesis using less.prems siftup_loop_stop [of pos "length h" lt h] by simp
  next
    case True
    note c = min_child_pos [OF True, of lt h]
    have "siftup_loop lt (length (h[pos := h ! ?c])) (h[pos := h ! ?c]) ?c = (h', pos')"
      using siftup_loop_step [OF True, of lt h] less.prems(2) by simp
    from less.hyps [OF _ _ this] show ?thesis
      using c mset_move_hole [of pos h ?c x] less.prems(1) by auto
  qed
qed

lemma siftup_mset:
  "pos < length h \<Longrightarrow> length (siftup lt pos h) = length h \<and> mset (siftup lt pos h) = mset h"
proof -
  assume p: "pos < length h"
  obtain h' pos' where e: "siftup_loop lt (length h) h pos = (h', pos')" by fastforce
  from siftup_loop_mset [OF p e, of "h ! pos"] show ?thesis
    using siftdown_mset [of pos' "h'[pos' := h ! pos]" lt pos] by (simp add: siftup_def e)
qed

section \<open>The heap property is kept\<close>

text \<open>A strict weak order, as far as the algorithms use it.\<close>

locale weak_order =
  fixes lt :: "'a \<Rightarrow> 'a \<Rightarrow> bool"
  assumes asym: "lt x y \<Longrightarrow> \<not> lt y x"
    and neg_trans: "\<not> lt x y \<Longrightarrow> \<not> lt y z \<Longrightarrow> \<not> lt x z"
begin

lemma irrefl: "\<not> lt x x"
  using asym by blast

text \<open>While the item climbs: all pairs are in order but the item with its parent, and the
  item's children are in order with the item's parent.\<close>

definition climbing :: "nat \<Rightarrow> 'a list \<Rightarrow> nat \<Rightarrow> bool" where
  "climbing s h pos \<longleftrightarrow> pos < length h \<and> desc s pos \<and>
     (\<forall>j < length h. 0 < j \<and> s \<le> parent_pos j \<and> j \<noteq> pos \<longrightarrow> \<not> lt (h ! j) (h ! parent_pos j)) \<and>
     (\<forall>j < length h. 0 < j \<and> parent_pos j = pos \<and> pos \<noteq> s \<longrightarrow> \<not> lt (h ! j) (h ! parent_pos pos))"

lemma climbing_done:
  assumes "climbing s h pos" "pos = s \<or> \<not> lt (h ! pos) (h ! parent_pos pos)"
  shows "heap_from lt s h"
proof -
  have "\<not> lt (h ! pos) (h ! parent_pos pos)" if "0 < pos" "s \<le> parent_pos pos"
    using that assms(2) parent_lt [of pos] by auto
  moreover have "\<not> lt (h ! j) (h ! parent_pos j)"
    if "j < length h" "0 < j" "s \<le> parent_pos j" "j \<noteq> pos" for j
    using assms(1) that by (simp add: climbing_def)
  ultimately show ?thesis unfolding heap_from_def by blast
qed

lemma climbing_step:
  assumes c: "climbing s h pos" and n: "pos \<noteq> s" and less: "lt (h ! pos) (h ! parent_pos pos)"
  shows "climbing s (h[pos := h ! parent_pos pos, parent_pos pos := h ! pos]) (parent_pos pos)"
proof -
  let ?q = "parent_pos pos" and ?h = "h[pos := h ! parent_pos pos, parent_pos pos := h ! pos]"
  have pos: "pos < length h" "desc s pos" using c by (auto simp: climbing_def)
  note d = desc_parent [OF pos(2) n]
  have q: "?q < pos" using d parent_lt [of pos] by linarith
  have val: "?h ! j = (if j = ?q then h ! pos else if j = pos then h ! ?q else h ! j)"
    if "j < length h" for j using that q pos(1) by (auto simp: nth_list_update)
  have ord: "\<not> lt (h ! j) (h ! parent_pos j)"
    if "j < length h" "0 < j" "s \<le> parent_pos j" "j \<noteq> pos" for j
    using c that by (auto simp: climbing_def)
  have kids: "\<not> lt (h ! j) (h ! ?q)" if "j < length h" "0 < j" "parent_pos j = pos" for j
    using c that n by (auto simp: climbing_def)
  have A: "\<not> lt (?h ! j) (?h ! parent_pos j)"
    if j: "j < length h" "0 < j" "s \<le> parent_pos j" "j \<noteq> ?q" for j
  proof -
    have pl: "parent_pos j < length h" using j(1) parent_lt [OF j(2)] by linarith
    consider "j = pos" | "j \<noteq> pos" "parent_pos j = pos" | "j \<noteq> pos" "parent_pos j = ?q"
      | "j \<noteq> pos" "parent_pos j \<noteq> pos" "parent_pos j \<noteq> ?q" by blast
    then show ?thesis
    proof cases
      case 1
      then show ?thesis using val [OF j(1)] val [OF pl] q asym [OF less] by auto
    next
      case 2
      then show ?thesis using val [OF j(1)] val [OF pl] q kids [OF j(1,2)] j(4) by auto
    next
      case 3
      have "\<not> lt (h ! j) (h ! pos)"
        using neg_trans [OF ord [OF j(1-3) 3(1)]] asym [OF less] unfolding 3(2) by blast
      then show ?thesis using val [OF j(1)] val [OF pl] 3 j(4) by auto
    next
      case 4
      then show ?thesis using val [OF j(1)] val [OF pl] ord [OF j(1-3) 4(1)] j(4) by auto
    qed
  qed
  have B: "\<not> lt (?h ! j) (?h ! parent_pos ?q)"
    if j: "j < length h" "0 < j" "parent_pos j = ?q" "?q \<noteq> s" for j
  proof -
    have dd: "s < ?q \<and> s \<le> parent_pos ?q" using desc_parent [of s ?q] d j(4) by blast
    have ql: "?q < length h" "0 < ?q" using q pos(1) dd by auto
    note pq = parent_lt [OF ql(2)]
    have P: "\<not> lt (h ! ?q) (h ! parent_pos ?q)" using ord [OF ql(1,2)] dd q by auto
    have up: "?h ! parent_pos ?q = h ! parent_pos ?q"
      using val [of "parent_pos ?q"] pq ql q by simp
    have jq: "j \<noteq> ?q" using parent_lt [OF j(2)] j(3) by linarith
    show ?thesis
    proof (cases "j = pos")
      case True
      then show ?thesis using val [OF j(1)] up P jq by simp
    next
      case False
      have "\<not> lt (h ! j) (h ! ?q)" using ord [OF j(1,2) _ False] d unfolding j(3) by blast
      then show ?thesis using neg_trans [OF _ P] val [OF j(1)] up jq False by simp
    qed
  qed
  show ?thesis using A B d q pos(1) by (auto simp: climbing_def)
qed

lemma siftdown_loop_heap:
  "climbing s (h[pos := x]) pos \<Longrightarrow> pos < length h \<Longrightarrow> siftdown_loop lt x s h pos = (h', pos') \<Longrightarrow>
     heap_from lt s (h'[pos' := x])"
proof (induction pos arbitrary: h rule: less_induct)
  case (less pos)
  let ?q = "parent_pos pos"
  have d: "desc s pos" using less.prems(1) by (simp add: climbing_def)
  have qv: "(h[pos := x]) ! ?q = h ! ?q" if "pos \<noteq> s"
    using desc_parent [OF d that] parent_lt [of pos] by auto
  show ?case
  proof (cases "pos > s \<and> lt x (h ! ?q)")
    case False
    then have "siftdown_loop lt x s h pos = (h, pos)" by (rule siftdown_loop_stop)
    moreover have "pos = s \<or> \<not> lt ((h[pos := x]) ! pos) ((h[pos := x]) ! ?q)"
      using False desc_le [OF d] less.prems(2) qv by auto
    ultimately show ?thesis using climbing_done [OF less.prems(1)] less.prems(3) by simp
  next
    case True
    have q: "?q < pos" "?q < length (h[pos := h ! ?q])"
      using less.prems(2) True parent_lt [of pos] by auto
    have "siftdown_loop lt x s (h[pos := h ! ?q]) ?q = (h', pos')"
      using True less.prems(3) siftdown_loop_step [of s pos lt x h] by simp
    moreover have "climbing s ((h[pos := h ! ?q])[?q := x]) ?q"
      using climbing_step [OF less.prems(1)] True less.prems(2) qv by auto
    ultimately show ?thesis using less.IH [OF q(1)] q(2) by blast
  qed
qed

lemma siftdown_heap: "climbing s h pos \<Longrightarrow> heap_from lt s (siftdown lt s pos h)"
proof -
  assume c: "climbing s h pos"
  then have p: "pos < length h" by (simp add: climbing_def)
  obtain h' pos' where e: "siftdown_loop lt (h ! pos) s h pos = (h', pos')" by fastforce
  have "climbing s (h[pos := h ! pos]) pos" using c by simp
  from siftdown_loop_heap [OF this p e] show ?thesis by (simp add: siftdown_def e)
qed

text \<open>While the hole sinks: all pairs that do not involve the hole are in order, and the
  hole's children are in order with the hole's parent.\<close>

definition sinking :: "nat \<Rightarrow> 'a list \<Rightarrow> nat \<Rightarrow> bool" where
  "sinking s h pos \<longleftrightarrow> pos < length h \<and> desc s pos \<and>
     (\<forall>j < length h. 0 < j \<and> s \<le> parent_pos j \<and> j \<noteq> pos \<and> parent_pos j \<noteq> pos \<longrightarrow>
        \<not> lt (h ! j) (h ! parent_pos j)) \<and>
     (\<forall>j < length h. 0 < j \<and> parent_pos j = pos \<and> pos \<noteq> s \<longrightarrow> \<not> lt (h ! j) (h ! parent_pos pos))"

lemma min_child_least:
  assumes "2 * pos + 1 < length h" "j < length h" "0 < j" "parent_pos j = pos"
  shows "\<not> lt (h ! j) (h ! min_child lt (length h) h pos)"
proof -
  have "j = 2 * pos + 1 \<or> j = 2 * pos + 2" using assms(3,4) parent_children by blast
  then show ?thesis
    using assms(2) irrefl asym by (auto simp: min_child_def)
qed

lemma sinking_step:
  assumes c: "sinking s h pos" and l: "2 * pos + 1 < length h"
  shows "sinking s (h[pos := h ! min_child lt (length h) h pos]) (min_child lt (length h) h pos)"
proof -
  let ?c = "min_child lt (length h) h pos" and ?h = "h[pos := h ! min_child lt (length h) h pos]"
  note cp = min_child_pos [OF l, of lt h] and pc = parent_min_child [of lt "length h" h pos]
  have pos: "pos < length h" "desc s pos" using c by (auto simp: sinking_def)
  have dc: "desc s ?c" using desc_child [OF pos(2)] cp pc by auto
  have val: "?h ! j = (if j = pos then h ! ?c else h ! j)" for j
    using pos(1) by (simp add: nth_list_update)
  have ord: "\<not> lt (h ! j) (h ! parent_pos j)"
    if "j < length h" "0 < j" "s \<le> parent_pos j" "j \<noteq> pos" "parent_pos j \<noteq> pos" for j
    using c that by (auto simp: sinking_def)
  have kids: "\<not> lt (h ! j) (h ! parent_pos pos)"
    if "j < length h" "0 < j" "parent_pos j = pos" "pos \<noteq> s" for j
    using c that by (auto simp: sinking_def)
  have A: "\<not> lt (?h ! j) (?h ! parent_pos j)"
    if j: "j < length h" "0 < j" "s \<le> parent_pos j" "j \<noteq> ?c" "parent_pos j \<noteq> ?c" for j
  proof (cases "j = pos")
    case True
    have pp: "pos \<noteq> s" "parent_pos pos \<noteq> pos" using True j(3) parent_lt [OF j(2)] by auto
    have "\<not> lt (h ! ?c) (h ! parent_pos pos)" using kids [OF _ _ pc pp(1)] cp by simp
    then show ?thesis unfolding True val using pp(2) by simp
  next
    case False
    have "\<not> lt (h ! j) (if parent_pos j = pos then h ! ?c else h ! parent_pos j)"
      using min_child_least [OF l j(1,2)] ord [OF j(1-3) False] by simp
    then show ?thesis unfolding val using False by simp
  qed
  have B: "\<not> lt (?h ! j) (?h ! parent_pos ?c)"
    if j: "j < length h" "0 < j" "parent_pos j = ?c" for j
  proof -
    have jp: "j \<noteq> pos" "s \<le> parent_pos j" "parent_pos j \<noteq> pos"
      using parent_lt [OF j(2)] j(3) cp desc_le [OF dc] by auto
    have "\<not> lt (h ! j) (h ! ?c)" using ord [OF j(1,2) jp(2,1,3)] j(3) by simp
    then show ?thesis unfolding val pc using jp(1) by simp
  qed
  show ?thesis unfolding sinking_def using A B dc cp by simp
qed

lemma siftup_loop_heap:
  "sinking s h pos \<Longrightarrow> siftup_loop lt (length h) h pos = (h', pos') \<Longrightarrow> climbing s (h'[pos' := x]) pos'"
proof (induction "length h - pos" arbitrary: h pos rule: less_induct)
  case less
  let ?c = "min_child lt (length h) h pos"
  show ?case
  proof (cases "2 * pos + 1 < length h")
    case False
    then have e: "h' = h" "pos' = pos"
      using less.prems(2) siftup_loop_stop [of pos "length h" lt h] by auto
    have leaf: "parent_pos j \<noteq> pos" if "j < length h" "0 < j" for j
      using that False parent_children [OF that(2), of pos] by auto
    have s: "pos < length h" "desc s pos"
      and ord: "\<And>j. j < length h \<Longrightarrow> 0 < j \<Longrightarrow> s \<le> parent_pos j \<Longrightarrow> j \<noteq> pos \<Longrightarrow>
        parent_pos j \<noteq> pos \<Longrightarrow> \<not> lt (h ! j) (h ! parent_pos j)"
      using less.prems(1) by (simp_all add: sinking_def)
    have "\<not> lt (h[pos := x] ! j) (h[pos := x] ! parent_pos j)"
      if "j < length h" "0 < j" "s \<le> parent_pos j" "j \<noteq> pos" for j
      using ord [OF that leaf [OF that(1,2)]] leaf [OF that(1,2)] that(4) by simp
    then show ?thesis
      unfolding e climbing_def using s leaf by auto
  next
    case True
    note c = min_child_pos [OF True, of lt h]
    have p: "pos < length h" using less.prems(1) by (simp add: sinking_def)
    have "siftup_loop lt (length (h[pos := h ! ?c])) (h[pos := h ! ?c]) ?c = (h', pos')"
      using siftup_loop_step [OF True, of lt h] less.prems(2) by simp
    then show ?thesis
      using less.hyps [of "h[pos := h ! ?c]" ?c] sinking_step [OF less.prems(1) True] c p by auto
  qed
qed

lemma siftup_heap:
  assumes "s < length h" "heap_from lt (Suc s) h"
  shows "heap_from lt s (siftup lt s h)"
proof -
  obtain h' pos' where e: "siftup_loop lt (length h) h s = (h', pos')" by fastforce
  have "sinking s h s"
    using assms parent_lt by (auto simp: sinking_def heap_from_def)
  from siftdown_heap [OF siftup_loop_heap [OF this e, of "h ! s"]] show ?thesis
    by (simp add: siftup_def e)
qed

section \<open>Push, pop and heapify\<close>

lemma heap_min: "heap_from lt 0 h \<Longrightarrow> j < length h \<Longrightarrow> \<not> lt (h ! j) (h ! 0)"
proof (induction j rule: less_induct)
  case (less j)
  show ?case
  proof (cases "j = 0")
    case True
    then show ?thesis using irrefl by simp
  next
    case False
    then have "\<not> lt (h ! j) (h ! parent_pos j)" using less.prems by (simp add: heap_from_def)
    moreover have "\<not> lt (h ! parent_pos j) (h ! 0)"
      using less.IH [of "parent_pos j"] less.prems parent_lt [of j] False by simp
    ultimately show ?thesis by (rule neg_trans)
  qed
qed

lemma heappush_heap:
  assumes "heap_from lt 0 h"
  shows "heap_from lt 0 (heappush lt x h)" "mset (heappush lt x h) = add_mset x (mset h)"
proof -
  have "\<not> lt ((h @ [x]) ! j) ((h @ [x]) ! parent_pos j)" if "j < length h" "0 < j" for j
    using assms [unfolded heap_from_def, rule_format, of j] that parent_lt [OF that(2)]
    by (simp add: nth_append)
  moreover have "parent_pos j \<noteq> length h" if "j < Suc (length h)" "0 < j" for j
    using that parent_lt [OF that(2)] by simp
  ultimately have "climbing 0 (h @ [x]) (length h)"
    by (auto simp: climbing_def)
  from siftdown_heap [OF this] show "heap_from lt 0 (heappush lt x h)"
    by (simp add: heappush_def)
  show "mset (heappush lt x h) = add_mset x (mset h)"
    using siftdown_mset [of "length h" "h @ [x]" lt 0] by (simp add: heappush_def)
qed

lemma heappop_heap:
  assumes "heap_from lt 0 h" "h \<noteq> []"
  shows "\<exists>h'. heappop lt h = Inr (h ! 0, h') \<and> heap_from lt 0 h' \<and> mset h = add_mset (h ! 0) (mset h')"
proof (cases h rule: rev_cases)
  case Nil
  then show ?thesis using assms(2) by simp
next
  case (snoc b x)
  show ?thesis
  proof (cases b)
    case Nil
    then show ?thesis using snoc by (simp add: heappop_def heap_from_def)
  next
    case (Cons y ys)
    have ord: "\<not> lt (b ! j) (b ! parent_pos j)" if "j < length b" "0 < j" for j
      using assms(1) [unfolded heap_from_def, rule_format, of j] that parent_lt [OF that(2)] snoc
      by (simp add: nth_append)
    have "heap_from lt (Suc 0) (b[0 := x])"
      unfolding heap_from_def using ord by (auto simp: nth_list_update)
    then have "heap_from lt 0 (siftup lt 0 (b[0 := x]))" using Cons by (intro siftup_heap) auto
    then show ?thesis
      using siftup_mset [of 0 "b[0 := x]" lt] Cons snoc
      by (simp add: heappop_def add_mset_commute)
  qed
qed

lemma heapify_heap: "heap_from lt 0 (heapify lt h) \<and> mset (heapify lt h) = mset h"
proof -
  have "m \<le> length h div 2 \<Longrightarrow> heap_from lt m g \<Longrightarrow> length g = length h \<Longrightarrow>
      heap_from lt 0 (fold (siftup lt) (rev [0..<m]) g) \<and>
      mset (fold (siftup lt) (rev [0..<m]) g) = mset g" for m g
  proof (induction m arbitrary: g)
    case (Suc m)
    have m: "m < length g" using Suc.prems by linarith
    have "heap_from lt m (siftup lt m g)" using siftup_heap [OF m Suc.prems(2)] .
    then show ?case
      using Suc.IH [of "siftup lt m g"] siftup_mset [OF m, of lt] Suc.prems by simp
  qed simp
  moreover have "heap_from lt (length h div 2) h"
    by (auto simp: heap_from_def parent_pos_def)
  ultimately show ?thesis by (simp add: heapify_def)
qed

end

end
