(* ===== verification/RequestQueue.thy ===== *)
theory RequestQueue
  imports HeapQ Request
begin

text \<open>
  \<^verbatim>\<open>vllm/v1/core/sched/request_queue.py\<close>: the first-come-first-served queue (a deque)
  and the priority queue (a \<open>heapq\<close> heap).  The elements are request objects: equality is
  object identity and \<open>lt\<close> is \<open>Request.__lt__\<close>.  Both policies satisfy one interface,
  proved once; the order in which each serves requests is shown separately.
\<close>

section \<open>The queues\<close>

datatype SchedulingPolicy = FCFS | PRIORITY

datatype 'a RequestQueue = FCFSRequestQueue "'a list" | PriorityRequestQueue "'a list"

fun add_request :: "('a \<Rightarrow> 'a \<Rightarrow> bool) \<Rightarrow> 'a \<Rightarrow> 'a RequestQueue \<Rightarrow> 'a RequestQueue" where
  "add_request lt r (FCFSRequestQueue q) = FCFSRequestQueue (q @ [r])"
| "add_request lt r (PriorityRequestQueue h) = PriorityRequestQueue (heappush lt r h)"

fun pop_request :: "('a \<Rightarrow> 'a \<Rightarrow> bool) \<Rightarrow> 'a RequestQueue \<Rightarrow> ('a \<times> 'a RequestQueue) res" where
  "pop_request lt (FCFSRequestQueue q) =
     (case q of [] \<Rightarrow> Inl IndexError | r # rs \<Rightarrow> Inr (r, FCFSRequestQueue rs))"
| "pop_request lt (PriorityRequestQueue h) =
     (if h = [] then Inl IndexError
      else rbind (heappop lt h) (\<lambda>(r, h'). Inr (r, PriorityRequestQueue h')))"

fun peek_request :: "'a RequestQueue \<Rightarrow> 'a res" where
  "peek_request (FCFSRequestQueue q) = (case q of [] \<Rightarrow> Inl IndexError | r # _ \<Rightarrow> Inr r)"
| "peek_request (PriorityRequestQueue h) = (if h = [] then Inl IndexError else Inr (h ! 0))"

fun prepend_request :: "('a \<Rightarrow> 'a \<Rightarrow> bool) \<Rightarrow> 'a \<Rightarrow> 'a RequestQueue \<Rightarrow> 'a RequestQueue" where
  "prepend_request lt r (FCFSRequestQueue q) = FCFSRequestQueue (r # q)"
| "prepend_request lt r (PriorityRequestQueue h) = add_request lt r (PriorityRequestQueue h)"

text \<open>Iteration of the priority queue pops a copy of the heap until it is empty, that is
  once per element.\<close>

fun heap_iter :: "('a \<Rightarrow> 'a \<Rightarrow> bool) \<Rightarrow> nat \<Rightarrow> 'a list \<Rightarrow> 'a list" where
  "heap_iter lt 0 h = []"
| "heap_iter lt (Suc n) h =
     (case heappop lt h of Inl _ \<Rightarrow> [] | Inr (r, h') \<Rightarrow> r # heap_iter lt n h')"

fun queue_iter :: "('a \<Rightarrow> 'a \<Rightarrow> bool) \<Rightarrow> 'a RequestQueue \<Rightarrow> 'a list" where
  "queue_iter lt (FCFSRequestQueue q) = q"
| "queue_iter lt (PriorityRequestQueue h) = heap_iter lt (length h) h"

text \<open>\<open>extendleft\<close> pushes the given requests to the left one after the other.\<close>

fun prepend_requests ::
    "('a \<Rightarrow> 'a \<Rightarrow> bool) \<Rightarrow> 'a RequestQueue \<Rightarrow> 'a RequestQueue \<Rightarrow> 'a RequestQueue" where
  "prepend_requests lt rs (FCFSRequestQueue q) =
     FCFSRequestQueue (fold (\<lambda>r acc. r # acc) (queue_iter lt rs) q)"
| "prepend_requests lt rs (PriorityRequestQueue h) =
     fold (add_request lt) (queue_iter lt rs) (PriorityRequestQueue h)"

fun remove_request :: "('a \<Rightarrow> 'a \<Rightarrow> bool) \<Rightarrow> 'a \<Rightarrow> 'a RequestQueue \<Rightarrow> 'a RequestQueue res" where
  "remove_request lt r (FCFSRequestQueue q) =
     (if r \<in> set q then Inr (FCFSRequestQueue (remove1 r q)) else Inl ValueError)"
| "remove_request lt r (PriorityRequestQueue h) =
     (if r \<in> set h then Inr (PriorityRequestQueue (heapify lt (remove1 r h))) else Inl ValueError)"

fun remove_requests :: "('a \<Rightarrow> 'a \<Rightarrow> bool) \<Rightarrow> 'a list \<Rightarrow> 'a RequestQueue \<Rightarrow> 'a RequestQueue" where
  "remove_requests lt rs (FCFSRequestQueue q) = FCFSRequestQueue (filter (\<lambda>r. r \<notin> set rs) q)"
| "remove_requests lt rs (PriorityRequestQueue h) =
     PriorityRequestQueue (heapify lt (filter (\<lambda>r. r \<notin> set rs) h))"

fun queue_list :: "'a RequestQueue \<Rightarrow> 'a list" where
  "queue_list (FCFSRequestQueue q) = q"
| "queue_list (PriorityRequestQueue h) = h"

definition queue_len :: "'a RequestQueue \<Rightarrow> int" where
  "queue_len q = len (queue_list q)"

definition queue_bool :: "'a RequestQueue \<Rightarrow> bool" where
  "queue_bool q = (queue_list q \<noteq> [])"

fun create_request_queue :: "SchedulingPolicy \<Rightarrow> 'a RequestQueue" where
  "create_request_queue PRIORITY = PriorityRequestQueue []"
| "create_request_queue FCFS = FCFSRequestQueue []"

section \<open>The interface both policies implement\<close>

locale waiting_queue =
  fixes ok :: "'q \<Rightarrow> bool"
    and items :: "'q \<Rightarrow> 'a multiset"
    and add :: "'a \<Rightarrow> 'q \<Rightarrow> 'q"
    and pop :: "'q \<Rightarrow> ('a \<times> 'q) res"
    and peek :: "'q \<Rightarrow> 'a res"
    and remove :: "'a \<Rightarrow> 'q \<Rightarrow> 'q res"
    and size_of :: "'q \<Rightarrow> int"
  assumes add_ok: "ok q \<Longrightarrow> ok (add r q) \<and> items (add r q) = add_mset r (items q)"
    and pop_empty: "ok q \<Longrightarrow> items q = {#} \<Longrightarrow> pop q = Inl IndexError \<and> peek q = Inl IndexError"
    and pop_ok: "ok q \<Longrightarrow> items q \<noteq> {#} \<Longrightarrow>
      \<exists>r q'. pop q = Inr (r, q') \<and> peek q = Inr r \<and> ok q' \<and> items q = add_mset r (items q')"
    and remove_ok: "ok q \<Longrightarrow> r \<in># items q \<Longrightarrow>
      \<exists>q'. remove r q = Inr q' \<and> ok q' \<and> items q' = items q - {#r#}"
    and remove_absent: "ok q \<Longrightarrow> r \<notin># items q \<Longrightarrow> remove r q = Inl ValueError"
    and size_items: "ok q \<Longrightarrow> size_of q = int (size (items q))"
begin

text \<open>Nothing is lost or served twice: a queue filled with \<open>rs\<close> serves a permutation of
  its old and new requests, then is empty.\<close>

lemma add_all: "ok q \<Longrightarrow> ok (fold add rs q) \<and> items (fold add rs q) = mset rs + items q"
proof (induction rs arbitrary: q)
  case (Cons r rs)
  then show ?case using add_ok [OF Cons.prems, of r] by simp
qed simp

fun serve :: "nat \<Rightarrow> 'q \<Rightarrow> 'a list \<times> 'q" where
  "serve 0 q = ([], q)"
| "serve (Suc n) q =
     (case pop q of Inl _ \<Rightarrow> ([], q) | Inr (r, q') \<Rightarrow> (case serve n q' of (rs, q'') \<Rightarrow> (r # rs, q'')))"

lemma serve_all:
  "ok q \<Longrightarrow> size (items q) = n \<Longrightarrow>
     \<exists>rs q'. serve n q = (rs, q') \<and> mset rs = items q \<and> items q' = {#} \<and> ok q'"
proof (induction n arbitrary: q)
  case (Suc n)
  then have "items q \<noteq> {#}" by auto
  then obtain r q' where p: "pop q = Inr (r, q')" "ok q'" "items q = add_mset r (items q')"
    using pop_ok [OF Suc.prems(1)] by blast
  then obtain rs q'' where "serve n q' = (rs, q'')" "mset rs = items q'" "items q'' = {#}" "ok q''"
    using Suc.IH [OF p(2)] Suc.prems(2) by auto
  then show ?case using p by simp
qed simp

end

section \<open>Both policies implement it\<close>

fun queue_ok :: "('a \<Rightarrow> 'a \<Rightarrow> bool) \<Rightarrow> 'a RequestQueue \<Rightarrow> bool" where
  "queue_ok lt (FCFSRequestQueue q) \<longleftrightarrow> True"
| "queue_ok lt (PriorityRequestQueue h) \<longleftrightarrow> heap_from lt 0 h"

definition queue_items :: "'a RequestQueue \<Rightarrow> 'a multiset" where
  "queue_items q = mset (queue_list q)"

context weak_order
begin

lemma queue_add: "queue_ok lt q \<Longrightarrow>
    queue_ok lt (add_request lt r q) \<and> queue_items (add_request lt r q) = add_mset r (queue_items q)"
  by (cases q) (simp_all add: queue_items_def heappush_heap)

lemma queue_pop_empty:
  "queue_items q = {#} \<Longrightarrow> pop_request lt q = Inl IndexError \<and> peek_request q = Inl IndexError"
  by (cases q) (simp_all add: queue_items_def)

lemma queue_pop:
  assumes "queue_ok lt q" "queue_items q \<noteq> {#}"
  shows "\<exists>r q'. pop_request lt q = Inr (r, q') \<and> peek_request q = Inr r \<and> queue_ok lt q' \<and>
    queue_items q = add_mset r (queue_items q')"
proof (cases q)
  case (FCFSRequestQueue l)
  then show ?thesis using assms(2) by (cases l) (auto simp: queue_items_def)
next
  case (PriorityRequestQueue h)
  then have h: "h \<noteq> []" "heap_from lt 0 h" using assms by (auto simp: queue_items_def)
  obtain h' where "heappop lt h = Inr (h ! 0, h')" "heap_from lt 0 h'" "mset h = add_mset (h ! 0) (mset h')"
    using heappop_heap [OF h(2,1)] by blast
  then show ?thesis using PriorityRequestQueue h(1) by (simp add: queue_items_def)
qed

lemma queue_remove:
  "r \<in># queue_items q \<Longrightarrow>
     \<exists>q'. remove_request lt r q = Inr q' \<and> queue_ok lt q' \<and> queue_items q' = queue_items q - {#r#}"
  using heapify_heap by (cases q) (auto simp: queue_items_def)

lemma queue_remove_absent: "r \<notin># queue_items q \<Longrightarrow> remove_request lt r q = Inl ValueError"
  by (cases q) (auto simp: queue_items_def)

end

lemma queue_size: "queue_len q = int (size (queue_items q))"
  by (simp add: queue_items_def queue_len_def)

sublocale weak_order \<subseteq> wq: waiting_queue "queue_ok lt" queue_items "add_request lt" "pop_request lt"
    peek_request "remove_request lt" queue_len
  by unfold_locales
    (simp_all add: queue_add queue_pop_empty queue_pop queue_remove queue_remove_absent queue_size)

interpretation rq: weak_order request_lt
proof
  fix x y z :: Request
  show "request_lt x y \<Longrightarrow> \<not> request_lt y x"
    by (auto simp: request_lt_def split: if_splits)
  show "\<not> request_lt x y \<Longrightarrow> \<not> request_lt y z \<Longrightarrow> \<not> request_lt x z"
    by (auto simp: request_lt_def split: if_splits)
qed

section \<open>Order of service\<close>

context weak_order
begin

lemma heap_iter_sorted:
  "heap_from lt 0 h \<Longrightarrow> length h = n \<Longrightarrow>
     mset (heap_iter lt n h) = mset h \<and> sorted_wrt (\<lambda>x y. \<not> lt y x) (heap_iter lt n h)"
proof (induction n arbitrary: h)
  case (Suc n)
  then have "h \<noteq> []" by auto
  then obtain h' where h': "heappop lt h = Inr (h ! 0, h')" "heap_from lt 0 h'"
    "mset h = add_mset (h ! 0) (mset h')"
    using heappop_heap [OF Suc.prems(1)] by blast
  have "length h' = n"
    using Suc.prems(2) h'(3) by (metis size_mset size_add_mset Suc_inject)
  note ih = Suc.IH [OF h'(2) this]
  have "\<not> lt y (h ! 0)" if "y \<in> set (heap_iter lt n h')" for y
  proof -
    have "y \<in># mset h'" using that ih by (metis set_mset_mset)
    then have "y \<in> set h" using h'(3) by (metis insert_DiffM2 mset_add set_mset_mset union_iff insert_iff set_mset_add_mset_insert)
    then show ?thesis using heap_min [OF Suc.prems(1)] by (auto simp: in_set_conv_nth)
  qed
  then show ?case using h' ih by simp
qed simp

lemma fold_add_priority:
  "heap_from lt 0 h \<Longrightarrow>
     \<exists>h'. fold (add_request lt) rs (PriorityRequestQueue h) = PriorityRequestQueue h' \<and>
       heap_from lt 0 h' \<and> mset h' = mset rs + mset h"
proof (induction rs arbitrary: h)
  case (Cons r rs)
  from Cons.IH [OF heappush_heap(1) [OF Cons.prems, of r]] show ?case
    using heappush_heap(2) [OF Cons.prems, of r] by simp
qed simp

end

section \<open>Properties\<close>

text \<open>C21: the priority queue serves requests by priority.  Whatever order requests arrive in,
  iterating the queue yields each of them exactly once, and never a request after one
  that it precedes in (priority, arrival time, request id) order; the head is a request
  of least priority number.\<close>

theorem priority_queue_serves_in_order:
  shows "\<exists>h. fold (add_request request_lt) rs (create_request_queue PRIORITY) = PriorityRequestQueue h \<and>
    mset (queue_iter request_lt (PriorityRequestQueue h)) = mset rs \<and>
    sorted_wrt (\<lambda>x y. \<not> request_lt y x) (queue_iter request_lt (PriorityRequestQueue h)) \<and>
    (rs \<noteq> [] \<longrightarrow> (\<exists>r h'. pop_request request_lt (PriorityRequestQueue h) = Inr (r, PriorityRequestQueue h') \<and>
       peek_request (PriorityRequestQueue h) = Inr r \<and> mset rs = add_mset r (mset h') \<and>
       (\<forall>x \<in> set rs. priority r \<le> priority x)))"
proof -
  obtain h where h: "fold (add_request request_lt) rs (create_request_queue PRIORITY) = PriorityRequestQueue h"
    "heap_from request_lt 0 h" "mset h = mset rs"
    using rq.fold_add_priority [of "[]" rs] by (auto simp: heap_from_def)
  have it: "mset (heap_iter request_lt (length h) h) = mset rs \<and>
      sorted_wrt (\<lambda>x y. \<not> request_lt y x) (heap_iter request_lt (length h) h)"
    using rq.heap_iter_sorted [OF h(2) refl] h(3) by simp
  have "\<exists>r h'. pop_request request_lt (PriorityRequestQueue h) = Inr (r, PriorityRequestQueue h') \<and>
       peek_request (PriorityRequestQueue h) = Inr r \<and> mset rs = add_mset r (mset h') \<and>
       (\<forall>x \<in> set rs. priority r \<le> priority x)" if "rs \<noteq> []"
  proof -
    have ne: "h \<noteq> []" using that h(3) by auto
    obtain h' where h': "heappop request_lt h = Inr (h ! 0, h')" "mset h = add_mset (h ! 0) (mset h')"
      using rq.heappop_heap [OF h(2) ne] by blast
    have "priority (h ! 0) \<le> priority x" if "x \<in> set rs" for x
    proof -
      have "x \<in> set h" using that h(3) by (metis set_mset_mset)
      then have "\<not> request_lt x (h ! 0)" using rq.heap_min [OF h(2)] by (auto simp: in_set_conv_nth)
      then show ?thesis by (auto simp: request_lt_def split: if_splits)
    qed
    then show ?thesis using h' ne h(3) by auto
  qed
  then show ?thesis using h(1) it by auto
qed

theorem priority_queue_serves_in_order_witness:
  "\<exists>h. fold (add_request request_lt) [text_request ''b'' [], text_request ''a'' []]
      (create_request_queue PRIORITY) = PriorityRequestQueue h \<and>
    mset (queue_iter request_lt (PriorityRequestQueue h)) =
      mset [text_request ''b'' [], text_request ''a'' []]"
  using priority_queue_serves_in_order [of "[text_request ''b'' [], text_request ''a'' []]"] by blast

text \<open>C23: requests the scheduler skips keep their place.  In the first-come-first-served
  queue, collecting skipped requests by prepending them one by one to an empty queue and
  then prepending that queue reverses twice: the skipped requests return to the front in
  the order they were taken.\<close>

theorem fcfs_skipped_requests_keep_order:
  "prepend_requests lt (fold (prepend_request lt) rs (create_request_queue FCFS)) (FCFSRequestQueue q) =
     FCFSRequestQueue (rs @ q)"
proof -
  have a: "fold (prepend_request lt) rs (FCFSRequestQueue s) = FCFSRequestQueue (rev rs @ s)" for s
    by (induction rs arbitrary: s) simp_all
  have b: "fold (\<lambda>r acc. r # acc) xs q = rev xs @ q" for xs
    by (induction xs arbitrary: q) simp_all
  show ?thesis by (simp add: a b)
qed

text \<open>C22: removing a request works under both policies.  A request of a well-formed queue is
  taken out once, the others stay and the queue remains well formed; removing a request
  that is not there raises \<open>ValueError\<close>; a queue of \<open>n\<close> requests has length \<open>n\<close>.\<close>

theorem remove_request_correct:
  assumes "queue_ok request_lt q"
  shows "queue_len q = int (size (queue_items q)) \<and>
    (r \<notin># queue_items q \<longrightarrow> remove_request request_lt r q = Inl ValueError) \<and>
    (r \<in># queue_items q \<longrightarrow> (\<exists>q'. remove_request request_lt r q = Inr q' \<and> queue_ok request_lt q' \<and>
       queue_items q' = queue_items q - {#r#} \<and> queue_len q' = queue_len q - 1))"
proof -
  have "queue_len q' = queue_len q - 1"
    if "r \<in># queue_items q" "queue_items q' = queue_items q - {#r#}" for q'
    using that by (auto simp: queue_size size_Diff_singleton dest: multi_member_split)
  then show ?thesis
    using rq.wq.remove_ok [OF assms, of r] rq.wq.remove_absent [OF assms, of r] queue_size by blast
qed

theorem remove_request_correct_witness:
  "\<exists>q'. remove_request request_lt (text_request ''a'' [])
      (PriorityRequestQueue [text_request ''a'' [], text_request ''b'' []]) = Inr q' \<and> queue_len q' = 1"
proof -
  have "queue_ok request_lt (PriorityRequestQueue [text_request ''a'' [], text_request ''b'' []])"
    by (auto simp: heap_from_def request_lt_def text_request_def parent_pos_def less_Suc_eq)
  from remove_request_correct [OF this, of "text_request ''a'' []"] show ?thesis
    by (auto simp: queue_items_def queue_len_def)
qed

end
