(* ===== verification/SchedUtils.thy ===== *)
theory SchedUtils
  imports Request
begin

text \<open>
  \<^verbatim>\<open>vllm/v1/core/sched/utils.py\<close>: repetition detection, the stop check of a request
  and list removal.  Repetition detection is shown to find exactly the outputs that end
  in enough copies of a pattern.
\<close>

section \<open>Definitions\<close>

definition has_repeating_pattern :: "int list \<Rightarrow> int \<Rightarrow> int \<Rightarrow> bool res" where
  "has_repeating_pattern token_ids pattern_len repetition_min_count =
     rall (\<lambda>n.
       rbind (py_get token_ids (- n)) (\<lambda>target_token.
       rall (\<lambda>m.
         rbind (py_get token_ids (- (pattern_len * m + n))) (\<lambda>t.
         Inr (\<not> t \<noteq> target_token)))
         [1 .. repetition_min_count - 1]))
       [1 .. pattern_len]"

fun repetition_loop :: "int list \<Rightarrow> int \<Rightarrow> int list \<Rightarrow> bool res" where
  "repetition_loop token_ids min_cnt [] = Inr False"
| "repetition_loop token_ids min_cnt (pattern_len # rest) =
     (if pattern_len * min_cnt > len token_ids then Inr False
      else rbind (has_repeating_pattern token_ids pattern_len min_cnt) (\<lambda>b.
        if b then Inr True else repetition_loop token_ids min_cnt rest))"

definition check_sequence_repetition :: "int list \<Rightarrow> RepetitionDetectionParams \<Rightarrow> bool res" where
  "check_sequence_repetition token_ids params =
     (let max_size = max_pattern_size params;
          min_size = (if min_pattern_size params \<le> 0 then 1 else min_pattern_size params);
          cnt = min_count params
      in if max_size \<le> 0 \<or> cnt < 2 \<or> min_size > max_size then Inr False
         else repetition_loop token_ids cnt [min_size .. max_size])"

text \<open>The set of items is a list of its elements.\<close>

definition remove_all :: "'a list \<Rightarrow> 'a list \<Rightarrow> 'a list" where
  "remove_all lst items_to_remove =
     (if items_to_remove = [] then lst
      else if length items_to_remove = 1 then remove1 (hd items_to_remove) lst
      else filter (\<lambda>item. item \<notin> set items_to_remove) lst)"

definition check_stop :: "Request \<Rightarrow> int \<Rightarrow> (bool \<times> Request) res" where
  "check_stop request max_model_len =
     py_assert (pooling_params request = None)
     (case sampling_params request of
        None \<Rightarrow> Inl AssertionError
      | Some sp \<Rightarrow>
          if num_output_tokens request < min_tokens sp then Inr (False, request)
          else rbind (py_get (output_token_ids request) (-1)) (\<lambda>last_token_id.
            if Some last_token_id = eos_token_id sp then
              Inr (True, request\<lparr>status := FINISHED_STOPPED\<rparr>)
            else if last_token_id \<in> set (stop_token_ids sp) then
              Inr (True, request\<lparr>status := FINISHED_STOPPED,
                                 stop_reason := Some (StopToken last_token_id)\<rparr>)
            else if num_tokens request \<ge> max_model_len \<or> num_output_tokens request \<ge> max_tokens request then
              Inr (True, request\<lparr>status := FINISHED_LENGTH_CAPPED\<rparr>)
            else (case repetition_detection sp of
                None \<Rightarrow> Inr (False, request)
              | Some rd \<Rightarrow>
                  rbind (check_sequence_repetition (output_token_ids request) rd) (\<lambda>rep.
                    if rep then
                      Inr (True, request\<lparr>status := FINISHED_REPETITION,
                                         stop_reason := Some (StopText ''repetition_detected'')\<rparr>)
                    else Inr (False, request)))))"

section \<open>Repetition\<close>

text \<open>The specification: the output ends in \<open>c\<close> copies of its last \<open>p\<close> tokens.\<close>

definition ends_in_copies :: "int list \<Rightarrow> nat \<Rightarrow> nat \<Rightarrow> bool" where
  "ends_in_copies xs p c \<longleftrightarrow>
     p * c \<le> length xs \<and> drop (length xs - p * c) xs = concat (replicate c (drop (length xs - p) xs))"

lemma length_concat_replicate: "length (concat (replicate c xs)) = c * length xs"
  by (induction c) simp_all

lemma nth_concat_replicate:
  "i < c * length xs \<Longrightarrow> concat (replicate c xs) ! i = xs ! (i mod length xs)"
proof (induction c arbitrary: i)
  case (Suc c)
  show ?case
  proof (cases "i < length xs")
    case False
    then have "concat (replicate c xs) ! (i - length xs) = xs ! ((i - length xs) mod length xs)"
      using Suc by simp
    then show ?thesis using False by (simp add: nth_append mod_if [of i "length xs"])
  qed (simp add: nth_append)
qed simp

lemma py_get_neg:
  "0 < n \<Longrightarrow> n \<le> len xs \<Longrightarrow> py_get xs (- n) = Inr (xs ! (length xs - nat n))"
proof -
  assume n: "0 < n" "n \<le> len xs"
  have "nat (- n + len xs) = length xs - nat n" using n by linarith
  then show ?thesis using n by (simp add: py_get_def py_pos_def)
qed

lemma has_repeating_pattern_pointwise:
  assumes "1 \<le> p" "2 \<le> c" "p * c \<le> length xs"
  shows "has_repeating_pattern xs (int p) (int c) =
    Inr (\<forall>n \<in> {1..p}. \<forall>m \<in> {1..<c}. xs ! (length xs - (p * m + n)) = xs ! (length xs - n))"
proof -
  let ?t = "\<lambda>n. xs ! (length xs - nat n)"
  have inner: "rall (\<lambda>m. rbind (py_get xs (- (int p * m + n))) (\<lambda>t. Inr (\<not> t \<noteq> v))) [1 .. int c - 1] =
      Inr (\<forall>m \<in> {1..int c - 1}. ?t (int p * m + n) = v)" if n: "n \<in> {1..int p}" for n v
  proof -
    have "py_get xs (- (int p * m + n)) = Inr (?t (int p * m + n))" if m: "m \<in> {1..int c - 1}" for m
    proof (rule py_get_neg)
      have "int p * m \<ge> 0" using m by simp
      then show "0 < int p * m + n" using n by simp
      have "int p * m + n \<le> int p * (m + 1)" using n by (simp add: algebra_simps)
      also have "\<dots> \<le> int p * int c" using m by (intro mult_left_mono) auto
      also have "\<dots> \<le> len xs" using assms(3) by (metis of_nat_le_iff of_nat_mult)
      finally show "int p * m + n \<le> len xs" .
    qed
    then show ?thesis by (subst rall_Inr [where P = "\<lambda>m. ?t (int p * m + n) = v"]) auto
  qed
  have pl: "int p \<le> len xs" using assms
    by (metis le_trans mult.right_neutral mult_le_mono2 of_nat_le_iff numeral_le_one_iff le_numeral_extra(4) one_le_numeral order_trans)
  have "has_repeating_pattern xs (int p) (int c) =
      Inr (\<forall>n \<in> {1..int p}. \<forall>m \<in> {1..int c - 1}. ?t (int p * m + n) = ?t n)"
    unfolding has_repeating_pattern_def
    by (subst rall_Inr [where P = "\<lambda>n. \<forall>m \<in> {1..int c - 1}. ?t (int p * m + n) = ?t n"])
      (use inner pl in \<open>auto simp: py_get_neg\<close>)
  also have "(\<forall>n \<in> {1..int p}. \<forall>m \<in> {1..int c - 1}. ?t (int p * m + n) = ?t n) \<longleftrightarrow>
      (\<forall>n \<in> {1..p}. \<forall>m \<in> {1..<c}. xs ! (length xs - (p * m + n)) = xs ! (length xs - n))"
  proof
    assume a: "\<forall>n \<in> {1..int p}. \<forall>m \<in> {1..int c - 1}. ?t (int p * m + n) = ?t n"
    show "\<forall>n \<in> {1..p}. \<forall>m \<in> {1..<c}. xs ! (length xs - (p * m + n)) = xs ! (length xs - n)"
    proof (intro ballI)
      fix n m assume "n \<in> {1..p}" "m \<in> {1..<c}"
      then show "xs ! (length xs - (p * m + n)) = xs ! (length xs - n)"
        using a [rule_format, of "int n" "int m"] by (simp add: nat_plus_as_int)
    qed
  next
    assume a: "\<forall>n \<in> {1..p}. \<forall>m \<in> {1..<c}. xs ! (length xs - (p * m + n)) = xs ! (length xs - n)"
    show "\<forall>n \<in> {1..int p}. \<forall>m \<in> {1..int c - 1}. ?t (int p * m + n) = ?t n"
    proof (intro ballI)
      fix n m assume nm: "n \<in> {1..int p}" "m \<in> {1..int c - 1}"
      have "nat (int p * m + n) = p * nat m + nat n"
        using nm by (simp add: nat_add_distrib nat_mult_distrib)
      moreover have "nat n \<in> {1..p}" "nat m \<in> {1..<c}"
        using nm by (auto simp: nat_le_iff nat_less_iff)
      ultimately show "?t (int p * m + n) = ?t n" using a by simp
    qed
  qed
  finally show ?thesis .
qed

lemma pointwise_ends_in_copies:
  assumes "1 \<le> p" "1 \<le> c" "p * c \<le> length xs"
  shows "(\<forall>n \<in> {1..p}. \<forall>m \<in> {1..<c}. xs ! (length xs - (p * m + n)) = xs ! (length xs - n)) \<longleftrightarrow>
    ends_in_copies xs p c"
proof -
  let ?L = "length xs" and ?u = "drop (length xs - p) xs"
  have pL: "p \<le> ?L" using assms by (metis le_trans mult.right_neutral mult_le_mono2)
  have lu: "length ?u = p" using pL by simp
  have split: "?L - p * c + i = ?L - (p * (c - 1 - i div p) + (p - i mod p))"
    "?L - p + i mod p = ?L - (p - i mod p)" "i div p < c" if i: "i < p * c" for i
  proof -
    have q: "i div p < c" using i assms(1) by (simp add: less_mult_imp_div_less mult.commute)
    have s: "i mod p < p" using assms(1) by simp
    obtain d where d: "c = Suc (i div p + d)" using less_imp_Suc_add [OF q] by blast
    have "p * (c - 1 - i div p) + p * (i div p) + p = p * c"
      by (subst (1 2) d) (simp add: algebra_simps)
    moreover have "p * (i div p) + i mod p = i" by simp
    ultimately have "p * (c - 1 - i div p) + (p - i mod p) + i = p * c" using s by linarith
    then show "?L - p * c + i = ?L - (p * (c - 1 - i div p) + (p - i mod p))" using assms(3) by linarith
    show "?L - p + i mod p = ?L - (p - i mod p)" using s pL by linarith
    show "i div p < c" by (rule q)
  qed
  have nthc: "concat (replicate c ?u) ! i = xs ! (?L - p + i mod p)" if i: "i < p * c" for i
    using i lu pL assms(1) nth_concat_replicate [of i c ?u] by (simp add: mult.commute)
  have "ends_in_copies xs p c \<longleftrightarrow> (\<forall>i < p * c. xs ! (?L - p * c + i) = xs ! (?L - p + i mod p))"
    unfolding ends_in_copies_def list_eq_iff_nth_eq length_concat_replicate lu
    using assms(3) nthc by (auto simp: mult.commute)
  also have "\<dots> \<longleftrightarrow> (\<forall>n \<in> {1..p}. \<forall>m \<in> {1..<c}. xs ! (?L - (p * m + n)) = xs ! (?L - n))"
  proof
    assume a: "\<forall>i < p * c. xs ! (?L - p * c + i) = xs ! (?L - p + i mod p)"
    show "\<forall>n \<in> {1..p}. \<forall>m \<in> {1..<c}. xs ! (?L - (p * m + n)) = xs ! (?L - n)"
    proof (intro ballI)
      fix n m assume nm: "n \<in> {1..p}" "m \<in> {1..<c}"
      obtain d where d: "c = Suc (m + d)" using nm(2) less_imp_Suc_add by auto
      define i where "i = p * d + (p - n)"
      have r: "p - n < p" using nm(1) by auto
      have dm: "i div p = c - 1 - m" "i mod p = p - n" using r d by (simp_all add: i_def)
      have "i < p * d + p" using r by (simp add: i_def)
      also have "\<dots> \<le> p * c" using d by (simp add: algebra_simps)
      finally have i: "i < p * c" .
      have "c - 1 - (c - 1 - m) = m" "p - (p - n) = n" using nm by auto
      then show "xs ! (?L - (p * m + n)) = xs ! (?L - n)"
        using a [rule_format, OF i] pL unfolding split(1,2) [OF i] dm by simp
    qed
  next
    assume a: "\<forall>n \<in> {1..p}. \<forall>m \<in> {1..<c}. xs ! (?L - (p * m + n)) = xs ! (?L - n)"
    show "\<forall>i < p * c. xs ! (?L - p * c + i) = xs ! (?L - p + i mod p)"
    proof (intro allI impI)
      fix i assume i: "i < p * c"
      have n: "p - i mod p \<in> {1..p}" using assms(1) by (auto simp: Suc_le_eq)
      show "xs ! (?L - p * c + i) = xs ! (?L - p + i mod p)"
      proof (cases "c - 1 - i div p = 0")
        case True
        then show ?thesis unfolding split(1,2) [OF i] by simp
      next
        case False
        then have "c - 1 - i div p \<in> {1..<c}" using split(3) [OF i] by auto
        then show ?thesis unfolding split(1,2) [OF i] using a n by blast
      qed
    qed
  qed
  finally show ?thesis by blast
qed

lemma has_repeating_pattern_ok:
  "1 \<le> p \<Longrightarrow> 2 \<le> c \<Longrightarrow> p * c \<le> len xs \<Longrightarrow>
     has_repeating_pattern xs p c = Inr (ends_in_copies xs (nat p) (nat c))"
proof -
  assume a: "1 \<le> p" "2 \<le> c" "p * c \<le> len xs"
  have "nat p * nat c \<le> length xs" using a by (simp add: nat_mult_distrib [symmetric] nat_le_iff)
  then show ?thesis
    using has_repeating_pattern_pointwise [of "nat p" "nat c" xs]
      pointwise_ends_in_copies [of "nat p" "nat c" xs] a by auto
qed

lemma repetition_loop_ok:
  assumes "2 \<le> c" "1 \<le> a"
  shows "repetition_loop xs c [a..b] =
    Inr (\<exists>p \<in> {a..b}. p * c \<le> len xs \<and> ends_in_copies xs (nat p) (nat c))"
  using assms(2)
proof (induction "nat (b + 1 - a)" arbitrary: a)
  case 0
  then show ?case by simp
next
  case (Suc k)
  then have ab: "a \<le> b" by simp
  then have l: "[a..b] = a # [a + 1..b]" by (simp add: upto_rec1)
  show ?case
  proof (cases "a * c > len xs")
    case True
    have "\<not> p * c \<le> len xs" if "p \<in> {a..b}" for p
    proof -
      have "a * c \<le> p * c" using that assms(1) by (intro mult_right_mono) auto
      then show ?thesis using True by linarith
    qed
    then show ?thesis using True by (auto simp: l)
  next
    case False
    have ih: "repetition_loop xs c [a + 1..b] =
        Inr (\<exists>p \<in> {a + 1..b}. p * c \<le> len xs \<and> ends_in_copies xs (nat p) (nat c))"
      using Suc by (intro Suc.hyps(1)) auto
    have "has_repeating_pattern xs a c = Inr (ends_in_copies xs (nat a) (nat c))"
      using False Suc.prems assms(1) by (intro has_repeating_pattern_ok) auto
    moreover have "{a..b} = insert a {a + 1..b}" using ab by auto
    ultimately show ?thesis using False ih by (simp add: l)
  qed
qed

section \<open>Properties\<close>

text \<open>C27: repetition detection is exact.  It never raises, and it reports a repetition
  exactly when the parameters enable it and, for some pattern length within the bounds,
  the output ends in at least \<open>min_count\<close> copies of its last tokens of that length.\<close>

theorem check_sequence_repetition_exact:
  "check_sequence_repetition xs params =
     Inr (max_pattern_size params > 0 \<and> min_count params \<ge> 2 \<and>
       (\<exists>p \<in> {max 1 (min_pattern_size params)..max_pattern_size params}.
          p * min_count params \<le> len xs \<and> ends_in_copies xs (nat p) (nat (min_count params))))"
proof -
  let ?min = "if min_pattern_size params \<le> 0 then 1 else min_pattern_size params"
  have m: "?min = max 1 (min_pattern_size params)" by auto
  show ?thesis
  proof (cases "max_pattern_size params \<le> 0 \<or> min_count params < 2 \<or> ?min > max_pattern_size params")
    case True
    then show ?thesis unfolding check_sequence_repetition_def Let_def m by auto
  next
    case False
    then show ?thesis
      unfolding check_sequence_repetition_def Let_def m
      using repetition_loop_ok [of "min_count params" "max 1 (min_pattern_size params)" xs
          "max_pattern_size params"] by auto
  qed
qed

theorem check_sequence_repetition_exact_witness:
  "check_sequence_repetition [9, 1, 2, 1, 2, 1, 2]
     \<lparr>max_pattern_size = 3, min_pattern_size = 0, min_count = 3\<rparr> = Inr True"
proof -
  have "ends_in_copies [9, 1, 2, 1, 2, 1, 2] (nat 2) (nat 3)"
    by (simp add: ends_in_copies_def numeral_3_eq_3)
  then show ?thesis
    using check_sequence_repetition_exact [of "[9, 1, 2, 1, 2, 1, 2]"
        "\<lparr>max_pattern_size = 3, min_pattern_size = 0, min_count = 3\<rparr>"]
    by (auto intro!: bexI [of _ 2])
qed

definition stop_condition :: "Request \<Rightarrow> SamplingParams \<Rightarrow> int \<Rightarrow> bool" where
  "stop_condition r sp max_len \<longleftrightarrow>
     num_output_tokens r \<ge> min_tokens sp \<and>
     (Some (last (output_token_ids r)) = eos_token_id sp \<or>
      last (output_token_ids r) \<in> set (stop_token_ids sp) \<or>
      num_tokens r \<ge> max_len \<or> num_output_tokens r \<ge> max_tokens r \<or>
      (\<exists>rd. repetition_detection sp = Some rd \<and> check_sequence_repetition (output_token_ids r) rd = Inr True))"

lemma py_get_last: "xs \<noteq> [] \<Longrightarrow> py_get xs (-1) = Inr (last xs)"
  using py_get_neg [of 1 xs] by (simp add: last_conv_nth Suc_le_eq)


definition demo_sampling :: SamplingParams where
  "demo_sampling =
     \<lparr>sp_max_tokens = Some 16, min_tokens = 0, eos_token_id = Some 2, stop_token_ids = [],
      repetition_detection = None, sp_skip_reading_prefix_cache = None, structured_outputs = False\<rparr>"


text \<open>C29: on a list without duplicates, the fast path of \<open>remove_all\<close> for a single item
  agrees with the general path: the result is the list without the given items.\<close>

theorem remove_all_is_filter:
  assumes "distinct lst"
  shows "remove_all lst items = filter (\<lambda>x. x \<notin> set items) lst"
proof (cases "length items = 1")
  case True
  then obtain i where i: "items = [i]" by (auto simp: length_Suc_conv)
  then show ?thesis using remove1_eq_filter [OF assms] by (simp add: remove_all_def)
qed (simp add: remove_all_def)

theorem remove_all_is_filter_witness: "remove_all [3, 1, 2::int] [1] = [3, 2]"
  using remove_all_is_filter [of "[3, 1, 2::int]" "[1]"] by simp

end
