(* ===== verification/SpecController.thy ===== *)
theory SpecController
  imports Prelude
begin

text \<open>
  \<open>AcceptanceRateSpecTokenController\<close> of \<^verbatim>\<open>vllm/v1/core/sched/scheduler.py\<close>: it adapts
  the number of draft tokens that are verified per step to the measured acceptance rate.
  Rates and thresholds are rationals; the code's are floating-point numbers.
\<close>

section \<open>Definitions\<close>

record AcceptanceRateSpecTokenController =
  max_k :: int
  min_k :: int
  low_rate :: rat
  high_rate :: rat
  interval_steps :: int
  min_draft_tokens :: int
  enable_control :: bool
  active_k :: int
  num_steps :: int
  num_draft_tokens :: int
  num_accepted_tokens :: int

definition controller_init ::
    "int \<Rightarrow> int option \<Rightarrow> int \<Rightarrow> rat \<Rightarrow> rat \<Rightarrow> int \<Rightarrow> int \<Rightarrow> bool
     \<Rightarrow> AcceptanceRateSpecTokenController res" where
  "controller_init mx initial mn low high interval min_drafts enable =
     py_raise_if (\<not> (0 \<le> low \<and> low < high \<and> high \<le> 1)) ValueError
     (py_raise_if (\<not> (1 \<le> mn \<and> mn \<le> mx)) ValueError
     (let ik = (case initial of None \<Rightarrow> mx | Some k \<Rightarrow> k) in
      py_raise_if (\<not> (mn \<le> ik \<and> ik \<le> mx)) ValueError
      (Inr \<lparr>max_k = mx, min_k = mn, low_rate = low, high_rate = high,
            interval_steps = interval, min_draft_tokens = min_drafts, enable_control = enable,
            active_k = ik, num_steps = 0, num_draft_tokens = 0, num_accepted_tokens = 0\<rparr>)))"

definition observe ::
    "int \<Rightarrow> int \<Rightarrow> AcceptanceRateSpecTokenController
     \<Rightarrow> (int \<times> int \<times> rat \<times> int) option \<times> AcceptanceRateSpecTokenController" where
  "observe accepted_tokens draft_tokens c =
     (if draft_tokens \<le> 0 \<or> \<not> enable_control c then (None, c)
      else
        let accepted = min (max accepted_tokens 0) draft_tokens;
            c1 = c\<lparr>num_steps := num_steps c + 1,
                   num_draft_tokens := num_draft_tokens c + draft_tokens,
                   num_accepted_tokens := num_accepted_tokens c + accepted\<rparr>
        in if num_steps c1 < interval_steps c1 \<or> num_draft_tokens c1 < min_draft_tokens c1
           then (None, c1)
           else
             let rate = rat_of_int (num_accepted_tokens c1) / rat_of_int (num_draft_tokens c1);
                 sample_count = num_draft_tokens c1;
                 old_k = active_k c1;
                 new_k = (if rate < low_rate c1 then max (min_k c1) (active_k c1 - 2)
                          else if rate > high_rate c1 then min (max_k c1) (active_k c1 + 2)
                          else active_k c1)
             in (Some (old_k, new_k, rate, sample_count),
                 c1\<lparr>active_k := new_k, num_steps := 0, num_draft_tokens := 0,
                    num_accepted_tokens := 0\<rparr>))"

fun observe_all :: "(int \<times> int) list \<Rightarrow> AcceptanceRateSpecTokenController
    \<Rightarrow> AcceptanceRateSpecTokenController" where
  "observe_all [] c = c"
| "observe_all ((a, d) # obs) c = observe_all obs (snd (observe a d c))"

section \<open>The invariant\<close>

definition controller_ok :: "AcceptanceRateSpecTokenController \<Rightarrow> bool" where
  "controller_ok c \<longleftrightarrow>
     1 \<le> min_k c \<and> min_k c \<le> active_k c \<and> active_k c \<le> max_k c \<and>
     0 \<le> low_rate c \<and> low_rate c < high_rate c \<and> high_rate c \<le> 1 \<and>
     0 \<le> num_steps c \<and> 0 \<le> num_accepted_tokens c \<and> num_accepted_tokens c \<le> num_draft_tokens c"

lemma controller_init_ok:
  "controller_init mx initial mn low high interval min_drafts enable = Inr c \<Longrightarrow> controller_ok c"
  by (auto simp: controller_init_def controller_ok_def Let_def py_raise_if_Inr)

lemma observe_keeps_ok: "controller_ok c \<Longrightarrow> controller_ok (snd (observe a d c))"
  by (auto simp: observe_def controller_ok_def Let_def)

lemma observe_config:
  "max_k (snd (observe a d c)) = max_k c" "min_k (snd (observe a d c)) = min_k c"
  by (auto simp: observe_def Let_def)

lemma observe_all_ok: "controller_ok c \<Longrightarrow>
    controller_ok (observe_all obs c) \<and> max_k (observe_all obs c) = max_k c \<and>
    min_k (observe_all obs c) = min_k c"
proof (induction obs arbitrary: c)
  case (Cons o1 obs)
  obtain a d where "o1 = (a, d)" by fastforce
  then show ?case
    using Cons.IH [OF observe_keeps_ok [OF Cons.prems, of a d]] by (simp add: observe_config)
qed simp

section \<open>Properties\<close>

text \<open>C30: whatever acceptance counts are reported (negative or too large ones included), the
  number of draft tokens to verify stays between the configured bounds, which are at
  least one, and the window never counts more accepted than drafted tokens.\<close>

theorem controller_stays_in_bounds:
  assumes "controller_init mx initial mn low high interval min_drafts enable = Inr c"
  shows "1 \<le> mn \<and> mn \<le> active_k (observe_all obs c) \<and> active_k (observe_all obs c) \<le> mx \<and>
    0 \<le> num_accepted_tokens (observe_all obs c) \<and>
    num_accepted_tokens (observe_all obs c) \<le> num_draft_tokens (observe_all obs c)"
proof -
  have "max_k c = mx \<and> min_k c = mn"
    using assms by (auto simp: controller_init_def Let_def py_raise_if_Inr)
  then show ?thesis
    using observe_all_ok [OF controller_init_ok [OF assms], of obs] by (simp add: controller_ok_def)
qed

theorem controller_stays_in_bounds_witness:
  "\<exists>c. controller_init 15 None 3 (1/4) (9/20) 1 4 True = Inr c \<and>
    3 \<le> active_k (observe_all [(0, 8), (0, 8)] c) \<and> active_k (observe_all [(0, 8), (0, 8)] c) \<le> 15"
proof -
  obtain c where c: "controller_init 15 None 3 (1/4) (9/20) 1 4 True = Inr c"
    by (simp add: controller_init_def Let_def)
  then show ?thesis using controller_stays_in_bounds [OF c, of "[(0, 8), (0, 8)]"] by blast
qed



end
