(* ===== verification/EncoderCache.thy ===== *)
theory EncoderCache
  imports Request
begin

text \<open>
  \<^verbatim>\<open>vllm/v1/core/encoder_cache_manager.py\<close>: the bookkeeping of cached encoder outputs,
  and the simplified manager for encoder-decoder models.  \<open>freeable_entries\<close> (the code's \<open>freeable\<close>) is an ordered
  dictionary, here an association list; sets of request ids are sets; sets of input ids
  are iterated in ascending order.  The invariant ties the two slot counters to the
  entries, and the operations keep it: the cache never holds more than its size, and an
  entry some request refers to is never evicted.
\<close>

section \<open>The manager\<close>

record EncoderCacheManager =
  cache_size :: int
  num_free_slots :: int
  num_freeable_slots :: int
  cached :: "string \<Rightarrow> string set option"
  freeable_entries :: "(string \<times> int) list"
  freed :: "string list"

definition EncoderCacheManager_init :: "int \<Rightarrow> EncoderCacheManager" where
  "EncoderCacheManager_init n =
     \<lparr>cache_size = n, num_free_slots = n, num_freeable_slots = n,
      cached = Map.empty, freeable_entries = [], freed = []\<rparr>"

definition encoder_reset :: "EncoderCacheManager \<Rightarrow> EncoderCacheManager" where
  "encoder_reset m =
     m\<lparr>cached := Map.empty, freeable_entries := [], freed := [],
       num_free_slots := cache_size m, num_freeable_slots := cache_size m\<rparr>"

definition mm_hash :: "Request \<Rightarrow> int \<Rightarrow> string res" where
  "mm_hash r i = rbind (py_get (mm_features r) i) (\<lambda>f. Inr (mm_identifier f))"

definition check_and_update_cache ::
    "Request \<Rightarrow> int \<Rightarrow> EncoderCacheManager \<Rightarrow> (bool \<times> EncoderCacheManager) res" where
  "check_and_update_cache r input_id m =
     rbind (mm_hash r input_id) (\<lambda>h.
       case cached m h of
         None \<Rightarrow> Inr (False, m)
       | Some ids \<Rightarrow>
           rbind (if ids = {} then
                    (case map_of (freeable_entries m) h of
                       None \<Rightarrow> Inl KeyError
                     | Some n \<Rightarrow> Inr (m\<lparr>freeable_entries := AList.delete h (freeable_entries m),
                                       num_freeable_slots := num_freeable_slots m - n\<rparr>))
                  else Inr m) (\<lambda>m1.
           Inr (True, m1\<lparr>cached := (cached m1)(h \<mapsto> insert (request_id r) ids)\<rparr>)))"

text \<open>The eviction loop: while more slots are needed, pop the oldest freeable entry.\<close>

fun evict_loop :: "int \<Rightarrow> (string \<times> int) list \<Rightarrow> EncoderCacheManager \<Rightarrow> EncoderCacheManager res" where
  "evict_loop need [] m =
     (if need > num_free_slots m then Inl KeyError else Inr (m\<lparr>freeable_entries := []\<rparr>))"
| "evict_loop need ((h, n) # rest) m =
     (if need > num_free_slots m then
        (case cached m h of
           None \<Rightarrow> Inl KeyError
         | Some _ \<Rightarrow>
             evict_loop need rest
               (m\<lparr>cached := (cached m)(h := None), freed := freed m @ [h],
                  num_free_slots := num_free_slots m + n\<rparr>))
      else Inr (m\<lparr>freeable_entries := (h, n) # rest\<rparr>))"

definition can_allocate ::
    "Request \<Rightarrow> int \<Rightarrow> int \<Rightarrow> int \<Rightarrow> EncoderCacheManager \<Rightarrow> (bool \<times> EncoderCacheManager) res" where
  "can_allocate r input_id compute_budget num_embeds_to_schedule m =
     rbind (get_num_encoder_embeds input_id r) (\<lambda>n.
       if n > compute_budget then Inr (False, m)
       else
         let need = n + num_embeds_to_schedule in
         if need \<le> num_free_slots m then Inr (True, m)
         else if need > num_freeable_slots m then Inr (False, m)
         else rbind (evict_loop need (freeable_entries m) m) (\<lambda>m1. Inr (True, m1)))"

definition allocate :: "Request \<Rightarrow> int \<Rightarrow> EncoderCacheManager \<Rightarrow> EncoderCacheManager res" where
  "allocate r input_id m =
     rbind (mm_hash r input_id) (\<lambda>h.
     let ids = (case cached m h of None \<Rightarrow> {} | Some s \<Rightarrow> s) in
     rbind (get_num_encoder_embeds input_id r) (\<lambda>n.
     py_assert (num_free_slots m \<ge> n) (py_assert (num_freeable_slots m \<ge> n)
     (Inr (m\<lparr>cached := (cached m)(h \<mapsto> insert (request_id r) ids),
             num_free_slots := num_free_slots m - n,
             num_freeable_slots := num_freeable_slots m - n\<rparr>)))))"

definition get_cached_input_ids :: "Request \<Rightarrow> EncoderCacheManager \<Rightarrow> int list" where
  "get_cached_input_ids r m =
     filter (\<lambda>i. cached m (mm_identifier (mm_features r ! nat i)) \<noteq> None)
       [0 .. len (mm_features r) - 1]"

definition free_encoder_input :: "Request \<Rightarrow> int \<Rightarrow> EncoderCacheManager \<Rightarrow> EncoderCacheManager res" where
  "free_encoder_input r input_id m =
     rbind (mm_hash r input_id) (\<lambda>h.
       case cached m h of
         None \<Rightarrow> Inr m
       | Some ids \<Rightarrow>
           if ids = {} then Inr m
           else
             let ids' = ids - {request_id r};
                 m1 = m\<lparr>cached := (cached m)(h \<mapsto> ids')\<rparr>
             in if ids' = {} then
                  rbind (get_num_encoder_embeds input_id r) (\<lambda>n.
                  Inr (m1\<lparr>freeable_entries := AList.update h n (freeable_entries m1),
                          num_freeable_slots := num_freeable_slots m1 + n\<rparr>))
                else Inr m1)"

definition encoder_free :: "Request \<Rightarrow> EncoderCacheManager \<Rightarrow> EncoderCacheManager res" where
  "encoder_free r m = rfold (free_encoder_input r) (get_cached_input_ids r m) m"

definition get_freed_mm_hashes :: "EncoderCacheManager \<Rightarrow> string list \<times> EncoderCacheManager" where
  "get_freed_mm_hashes m = (freed m, m\<lparr>freed := []\<rparr>)"

section \<open>Budgets\<close>

record mm_scheduler_config =
  disable_chunked_mm_input :: bool
  cfg_max_num_batched_tokens :: int
  max_num_encoder_input_tokens :: int
  encoder_cache_size :: int

definition compute_mm_encoder_budget ::
    "mm_scheduler_config \<Rightarrow> (string \<times> int) list \<Rightarrow> (int \<times> int) res" where
  "compute_mm_encoder_budget cfg per_item =
     (if per_item = [] then Inr (0, 0)
      else
        let mx = Max (set (map snd per_item)) in
        py_raise_if (disable_chunked_mm_input cfg \<and> mx > cfg_max_num_batched_tokens cfg) ValueError
          (Inr (max (max_num_encoder_input_tokens cfg) mx, max (encoder_cache_size cfg) mx)))"

section \<open>Encoder-decoder models\<close>

record EncoderDecoderCacheManager =
  ed_cache_size :: int
  ed_num_free_slots :: int
  allocated :: "string list"
  to_free :: "string list"

definition EncoderDecoderCacheManager_init :: "int \<Rightarrow> EncoderDecoderCacheManager" where
  "EncoderDecoderCacheManager_init n =
     \<lparr>ed_cache_size = n, ed_num_free_slots = n, allocated = [], to_free = []\<rparr>"

definition ed_reset :: "EncoderDecoderCacheManager \<Rightarrow> EncoderDecoderCacheManager" where
  "ed_reset m = m\<lparr>ed_num_free_slots := ed_cache_size m, allocated := [], to_free := []\<rparr>"

definition ed_can_allocate ::
    "Request \<Rightarrow> int \<Rightarrow> int \<Rightarrow> int \<Rightarrow> EncoderDecoderCacheManager \<Rightarrow> bool res" where
  "ed_can_allocate r input_id compute_budget num_embeds_to_schedule m =
     rbind (get_num_encoder_embeds input_id r) (\<lambda>n.
       if n > compute_budget then Inr False
       else Inr (n + num_embeds_to_schedule \<le> ed_num_free_slots m))"

definition ed_allocate :: "Request \<Rightarrow> int \<Rightarrow> EncoderDecoderCacheManager \<Rightarrow> EncoderDecoderCacheManager res" where
  "ed_allocate r input_id m =
     rbind (get_num_encoder_embeds input_id r) (\<lambda>n.
     rbind (mm_hash r input_id) (\<lambda>h.
     Inr (m\<lparr>ed_num_free_slots := ed_num_free_slots m - n, allocated := allocated m @ [h]\<rparr>)))"

definition ed_free_encoder_input ::
    "Request \<Rightarrow> int \<Rightarrow> EncoderDecoderCacheManager \<Rightarrow> EncoderDecoderCacheManager res" where
  "ed_free_encoder_input r input_id m =
     rbind (get_num_encoder_embeds input_id r) (\<lambda>n.
     Inr (m\<lparr>ed_num_free_slots := ed_num_free_slots m + n\<rparr>))"

definition ed_get_cached_input_ids :: "Request \<Rightarrow> int list" where
  "ed_get_cached_input_ids r = [0 .. len (mm_features r) - 1]"

definition ed_free :: "Request \<Rightarrow> EncoderDecoderCacheManager \<Rightarrow> EncoderDecoderCacheManager res" where
  "ed_free r m = rfold (ed_free_encoder_input r) [0 .. len (mm_features r) - 1] m"

definition ed_get_freed_mm_hashes ::
    "EncoderDecoderCacheManager \<Rightarrow> string list \<times> EncoderDecoderCacheManager" where
  "ed_get_freed_mm_hashes m = (to_free m, m\<lparr>to_free := allocated m, allocated := []\<rparr>)"

section \<open>The invariant\<close>

text \<open>\<open>emb\<close> gives the number of embeddings of the data behind a hash; requests agree on it.\<close>

definition embeds_agree :: "(string \<Rightarrow> int) \<Rightarrow> Request \<Rightarrow> bool" where
  "embeds_agree emb r \<longleftrightarrow>
     (\<forall>f \<in> set (mm_features r). get_num_embeds (mm_position f) = emb (mm_identifier f) \<and>
        0 \<le> emb (mm_identifier f))"

text \<open>\<open>ks\<close> lists the unreferenced entries, oldest first.\<close>

abbreviation entries_of :: "(string \<Rightarrow> int) \<Rightarrow> string list \<Rightarrow> (string \<times> int) list" where
  "entries_of emb ks \<equiv> map (\<lambda>h. (h, emb h)) ks"

definition encoder_inv :: "(string \<Rightarrow> int) \<Rightarrow> EncoderCacheManager \<Rightarrow> string list \<Rightarrow> bool" where
  "encoder_inv emb m ks \<longleftrightarrow>
     finite (dom (cached m)) \<and> (\<forall>h \<in> dom (cached m). 0 \<le> emb h) \<and>
     freeable_entries m = entries_of emb ks \<and> distinct ks \<and>
     (\<forall>h. h \<in> set ks \<longleftrightarrow> cached m h = Some {}) \<and>
     0 \<le> num_free_slots m \<and>
     num_free_slots m + (\<Sum>h \<in> dom (cached m). emb h) = cache_size m \<and>
     num_freeable_slots m = num_free_slots m + sum_list (map emb ks)"

lemma encoder_init_inv: "0 \<le> n \<Longrightarrow> encoder_inv emb (EncoderCacheManager_init n) []"
  by (simp add: encoder_inv_def EncoderCacheManager_init_def)

lemma encoder_reset_inv: "0 \<le> cache_size m \<Longrightarrow> encoder_inv emb (encoder_reset m) []"
  by (simp add: encoder_inv_def encoder_reset_def)

lemma input_lookup:
  assumes "embeds_agree emb r" "0 \<le> i" "i < len (mm_features r)"
  shows "mm_hash r i = Inr (mm_identifier (mm_features r ! nat i))"
    "get_num_encoder_embeds i r = Inr (emb (mm_identifier (mm_features r ! nat i)))"
    "0 \<le> emb (mm_identifier (mm_features r ! nat i))"
proof -
  have "mm_features r ! nat i \<in> set (mm_features r)" using assms(2,3) by simp
  then show "mm_hash r i = Inr (mm_identifier (mm_features r ! nat i))"
    "get_num_encoder_embeds i r = Inr (emb (mm_identifier (mm_features r ! nat i)))"
    "0 \<le> emb (mm_identifier (mm_features r ! nat i))"
    using assms by (auto simp: mm_hash_def get_num_encoder_embeds_def py_get_nonneg embeds_agree_def)
qed

lemma encoder_inv_bounds:
  assumes "encoder_inv emb m ks"
  shows "0 \<le> num_free_slots m" "num_free_slots m \<le> num_freeable_slots m"
    "num_freeable_slots m \<le> cache_size m"
proof -
  have sub: "set ks \<subseteq> dom (cached m)" and nn: "\<And>h. h \<in> dom (cached m) \<Longrightarrow> 0 \<le> emb h"
    and fin: "finite (dom (cached m))"
    using assms by (auto simp: encoder_inv_def)
  have e: "sum_list (map emb ks) = (\<Sum>h \<in> set ks. emb h)"
    using assms by (simp add: encoder_inv_def sum_list_distinct_conv_sum_set)
  have "0 \<le> (\<Sum>h \<in> set ks. emb h)" using sub nn by (intro sum_nonneg) auto
  moreover have "(\<Sum>h \<in> set ks. emb h) \<le> (\<Sum>h \<in> dom (cached m). emb h)"
    using sub nn fin by (intro sum_mono2) auto
  ultimately show "0 \<le> num_free_slots m" "num_free_slots m \<le> num_freeable_slots m"
    "num_freeable_slots m \<le> cache_size m"
    using assms e by (auto simp: encoder_inv_def)
qed

section \<open>Operations keep it\<close>

lemma delete_entries: "AList.delete h (entries_of emb ks) = entries_of emb (filter (\<lambda>x. x \<noteq> h) ks)"
  by (induction ks) auto

lemma update_entries:
  "h \<notin> set ks \<Longrightarrow> AList.update h (emb h) (entries_of emb ks) = entries_of emb (ks @ [h])"
  by (induction ks) auto

lemma map_of_entries: "map_of (entries_of emb ks) h = (if h \<in> set ks then Some (emb h) else None)"
  by (induction ks) auto

lemma sum_list_filter_out:
  "distinct ks \<Longrightarrow> h \<in> set ks \<Longrightarrow>
     sum_list (map emb (filter (\<lambda>x. x \<noteq> h) ks)) = sum_list (map emb ks) - (emb h :: int)"
proof (induction ks)
  case (Cons k ks)
  show ?case
  proof (cases "k = h")
    case True
    then have "filter (\<lambda>x. x \<noteq> h) ks = ks" using Cons.prems by (auto simp: filter_id_conv)
    then show ?thesis using True by simp
  qed (use Cons in auto)
qed simp

lemma check_and_update_cache_ok:
  assumes "encoder_inv emb m ks" "embeds_agree emb r" "0 \<le> i" "i < len (mm_features r)"
  defines "h \<equiv> mm_identifier (mm_features r ! nat i)"
  shows "\<exists>m'. check_and_update_cache r i m = Inr (cached m h \<noteq> None, m') \<and>
    encoder_inv emb m' (filter (\<lambda>x. x \<noteq> h) ks) \<and> cache_size m' = cache_size m \<and>
    num_free_slots m' = num_free_slots m \<and>
    cached m' = (case cached m h of None \<Rightarrow> cached m
                 | Some ids \<Rightarrow> (cached m)(h \<mapsto> insert (request_id r) ids))"
proof (cases "cached m h")
  case None
  have "h \<notin> set ks" using assms(1) None by (simp add: encoder_inv_def)
  then have "filter (\<lambda>x. x \<noteq> h) ks = ks" by (auto simp: filter_id_conv)
  then show ?thesis using None assms input_lookup(1) [OF assms(2-4)]
    by (simp add: check_and_update_cache_def)
next
  case (Some ids)
  let ?c = "(cached m)(h \<mapsto> insert (request_id r) ids)"
  have hash: "mm_hash r i = Inr h" using input_lookup(1) [OF assms(2-4)] h_def by simp
  have dom: "dom ?c = dom (cached m)" using Some by auto
  have ks: "x \<in> set (filter (\<lambda>x. x \<noteq> h) ks) \<longleftrightarrow> ?c x = Some {}" for x
    using assms(1) by (auto simp: encoder_inv_def)
  show ?thesis
  proof (cases "ids = {}")
    case False
    then have "h \<notin> set ks" using assms(1) Some by (simp add: encoder_inv_def)
    then have f: "filter (\<lambda>x. x \<noteq> h) ks = ks" by (auto simp: filter_id_conv)
    have "encoder_inv emb (m\<lparr>cached := ?c\<rparr>) ks"
      using assms(1) dom ks unfolding encoder_inv_def f by simp
    then show ?thesis using Some False hash f by (simp add: check_and_update_cache_def)
  next
    case True
    then have mem: "h \<in> set ks" using assms(1) Some by (simp add: encoder_inv_def)
    have e: "map_of (freeable_entries m) h = Some (emb h)"
      "AList.delete h (freeable_entries m) = entries_of emb (filter (\<lambda>x. x \<noteq> h) ks)"
      using assms(1) mem by (simp_all add: encoder_inv_def map_of_entries delete_entries)
    let ?m = "m\<lparr>freeable_entries := AList.delete h (freeable_entries m),
      num_freeable_slots := num_freeable_slots m - emb h, cached := ?c\<rparr>"
    have "encoder_inv emb ?m (filter (\<lambda>x. x \<noteq> h) ks)"
      using assms(1) dom ks e mem sum_list_filter_out [of ks h emb] unfolding encoder_inv_def by simp
    then show ?thesis using Some True hash e(1) by (simp add: check_and_update_cache_def)
  qed
qed

lemma evict_one_inv:
  assumes "encoder_inv emb (m\<lparr>freeable_entries := entries_of emb (k # ks)\<rparr>) (k # ks)"
  shows "encoder_inv emb (m\<lparr>cached := (cached m)(k := None), freed := f,
    num_free_slots := num_free_slots m + emb k, freeable_entries := entries_of emb ks\<rparr>) ks"
proof -
  have k: "cached m k = Some {}" "k \<notin> set ks" "distinct ks"
    using assms by (auto simp: encoder_inv_def)
  have fin: "finite (dom (cached m))" and e: "0 \<le> emb k"
    using assms k(1) by (auto simp: encoder_inv_def)
  have "(\<Sum>h \<in> dom ((cached m)(k := None)). emb h) = (\<Sum>h \<in> dom (cached m). emb h) - emb k"
  proof -
    have "dom ((cached m)(k := None)) = dom (cached m) - {k}" by auto
    then show ?thesis using sum_diff1 [OF fin, of emb k] k(1) by (simp add: domIff)
  qed
  moreover have "h \<in> set ks \<longleftrightarrow> ((cached m)(k := None)) h = Some {}" for h
    using assms k(2) by (auto simp: encoder_inv_def)
  ultimately show ?thesis
    using assms fin e by (auto simp: encoder_inv_def)
qed

lemma evict_loop_ok:
  "encoder_inv emb (m\<lparr>freeable_entries := entries_of emb ks\<rparr>) ks \<Longrightarrow> need \<le> num_freeable_slots m \<Longrightarrow>
     \<exists>m' j. evict_loop need (entries_of emb ks) m = Inr m' \<and> encoder_inv emb m' (drop j ks) \<and>
       need \<le> num_free_slots m' \<and> cache_size m' = cache_size m \<and>
       num_freeable_slots m' = num_freeable_slots m \<and>
       (\<forall>h. cached m' h = (if h \<in> set (take j ks) then None else cached m h)) \<and>
       freed m' = freed m @ take j ks"
proof (induction ks arbitrary: m)
  case Nil
  then have "need \<le> num_free_slots m" by (simp add: encoder_inv_def)
  then show ?case using Nil by (intro exI [of _ "m\<lparr>freeable_entries := []\<rparr>"] exI [of _ 0]) simp
next
  case (Cons k ks)
  have ck: "cached m k = Some {}" using Cons.prems(1) by (auto simp: encoder_inv_def)
  show ?case
  proof (cases "need > num_free_slots m")
    case False
    then show ?thesis using Cons.prems
      by (intro exI [of _ "m\<lparr>freeable_entries := entries_of emb (k # ks)\<rparr>"] exI [of _ 0]) simp
  next
    case True
    let ?m = "m\<lparr>cached := (cached m)(k := None), freed := freed m @ [k],
      num_free_slots := num_free_slots m + emb k\<rparr>"
    have "encoder_inv emb (?m\<lparr>freeable_entries := entries_of emb ks\<rparr>) ks"
      using evict_one_inv [OF Cons.prems(1), of "freed m @ [k]"] by simp
    from Cons.IH [OF this] Cons.prems(2) obtain m' j where
      "evict_loop need (entries_of emb ks) ?m = Inr m'" "encoder_inv emb m' (drop j ks)"
      "need \<le> num_free_slots m'" "cache_size m' = cache_size m"
      "num_freeable_slots m' = num_freeable_slots m"
      "\<And>h. cached m' h = (if h \<in> set (take j ks) then None else ((cached m)(k := None)) h)"
      "freed m' = (freed m @ [k]) @ take j ks" by auto
    then show ?thesis using True ck
      by (intro exI [of _ m'] exI [of _ "Suc j"]) auto
  qed
qed

lemma can_allocate_ok:
  assumes "encoder_inv emb m ks" "embeds_agree emb r" "0 \<le> i" "i < len (mm_features r)"
  defines "n \<equiv> emb (mm_identifier (mm_features r ! nat i))"
  shows "\<exists>m' j. can_allocate r i budget sched m =
      Inr (n \<le> budget \<and> n + sched \<le> num_freeable_slots m, m') \<and>
    encoder_inv emb m' (drop j ks) \<and> cache_size m' = cache_size m \<and>
    num_freeable_slots m' = num_freeable_slots m \<and>
    (\<forall>h. cached m' h = (if h \<in> set (take j ks) then None else cached m h)) \<and>
    freed m' = freed m @ take j ks \<and>
    (n \<le> budget \<and> n + sched \<le> num_freeable_slots m \<longrightarrow> n + sched \<le> num_free_slots m')"
proof -
  have g: "get_num_encoder_embeds i r = Inr n" using input_lookup(2) [OF assms(2-4)] n_def by simp
  have le: "num_free_slots m \<le> num_freeable_slots m" using encoder_inv_bounds [OF assms(1)] by simp
  show ?thesis
  proof (cases "n \<le> budget \<and> num_free_slots m < n + sched \<and> n + sched \<le> num_freeable_slots m")
    case False
    then have "can_allocate r i budget sched m = Inr (n \<le> budget \<and> n + sched \<le> num_freeable_slots m, m)"
      using g le by (auto simp: can_allocate_def Let_def)
    then show ?thesis using assms(1) False by (intro exI [of _ m] exI [of _ 0]) auto
  next
    case True
    have fe: "freeable_entries m = entries_of emb ks" using assms(1) by (simp add: encoder_inv_def)
    have "encoder_inv emb (m\<lparr>freeable_entries := entries_of emb ks\<rparr>) ks"
      using assms(1) fe by (simp add: encoder_inv_def)
    from evict_loop_ok [OF this, of "n + sched"] True obtain m' j where
      m': "evict_loop (n + sched) (entries_of emb ks) m = Inr m'" "encoder_inv emb m' (drop j ks)"
      "n + sched \<le> num_free_slots m'" "cache_size m' = cache_size m"
      "num_freeable_slots m' = num_freeable_slots m"
      "\<And>h. cached m' h = (if h \<in> set (take j ks) then None else cached m h)"
      "freed m' = freed m @ take j ks" by auto
    have "can_allocate r i budget sched m = Inr (True, m')"
      using g True m'(1) fe by (simp add: can_allocate_def Let_def)
    then show ?thesis using m' True by auto
  qed
qed

lemma allocate_ok:
  assumes "encoder_inv emb m ks" "embeds_agree emb r" "0 \<le> i" "i < len (mm_features r)"
  defines "h \<equiv> mm_identifier (mm_features r ! nat i)"
  assumes "cached m h = None" "emb h \<le> num_free_slots m"
  shows "\<exists>m'. allocate r i m = Inr m' \<and> encoder_inv emb m' ks \<and> cache_size m' = cache_size m \<and>
    cached m' = (cached m)(h \<mapsto> {request_id r}) \<and> num_free_slots m' = num_free_slots m - emb h"
proof -
  let ?m = "m\<lparr>cached := (cached m)(h \<mapsto> {request_id r}), num_free_slots := num_free_slots m - emb h,
    num_freeable_slots := num_freeable_slots m - emb h\<rparr>"
  note lk = input_lookup [OF assms(2-4), folded h_def]
  have b: "emb h \<le> num_freeable_slots m"
    using encoder_inv_bounds(2) [OF assms(1)] assms(7) by linarith
  have "(\<Sum>x \<in> insert h (dom (cached m)). emb x) = emb h + (\<Sum>x \<in> dom (cached m). emb x)"
    using assms(1,6) by (intro sum.insert) (auto simp: encoder_inv_def)
  then have "encoder_inv emb ?m ks"
    using assms(1,6,7) lk(3) by (auto simp: encoder_inv_def)
  then show ?thesis
    using lk assms(6,7) b by (simp add: allocate_def)
qed

lemma free_encoder_input_ok:
  assumes "encoder_inv emb m ks" "embeds_agree emb r" "0 \<le> i" "i < len (mm_features r)"
  defines "h \<equiv> mm_identifier (mm_features r ! nat i)"
  shows "\<exists>m' ks'. free_encoder_input r i m = Inr m' \<and> encoder_inv emb m' ks' \<and>
    cache_size m' = cache_size m \<and> num_free_slots m' = num_free_slots m \<and>
    cached m' = (case cached m h of None \<Rightarrow> cached m
                 | Some ids \<Rightarrow> (cached m)(h \<mapsto> ids - {request_id r}))"
proof -
  note lk = input_lookup [OF assms(2-4), folded h_def]
  show ?thesis
  proof (cases "cached m h = None \<or> cached m h = Some {}")
    case True
    then show ?thesis using lk assms(1) by (auto simp: free_encoder_input_def fun_upd_idem)
  next
    case False
    then obtain ids where ids: "cached m h = Some ids" "ids \<noteq> {}" by auto
    let ?c = "(cached m)(h \<mapsto> ids - {request_id r})"
    have dom: "dom ?c = dom (cached m)" using ids by auto
    have nk: "h \<notin> set ks" using assms(1) ids by (simp add: encoder_inv_def)
    show ?thesis
    proof (cases "ids - {request_id r} = {}")
      case False
      have "encoder_inv emb (m\<lparr>cached := ?c\<rparr>) ks"
        using assms(1) dom nk False unfolding encoder_inv_def by auto
      then show ?thesis using ids False lk by (auto simp: free_encoder_input_def Let_def)
    next
      case True
      let ?m = "m\<lparr>cached := ?c, freeable_entries := AList.update h (emb h) (freeable_entries m),
        num_freeable_slots := num_freeable_slots m + emb h\<rparr>"
      have "freeable_entries ?m = entries_of emb (ks @ [h])"
        using assms(1) update_entries [OF nk, of emb] by (simp add: encoder_inv_def)
      then have "encoder_inv emb ?m (ks @ [h])"
        using assms(1) dom nk True unfolding encoder_inv_def by auto
      moreover have "free_encoder_input r i m = Inr ?m"
        using ids True lk by (simp add: free_encoder_input_def Let_def)
      ultimately show ?thesis using ids(1) by (intro exI [of _ ?m] exI [of _ "ks @ [h]"]) simp
    qed
  qed
qed

lemma encoder_free_ok:
  assumes "encoder_inv emb m ks" "embeds_agree emb r"
  shows "\<exists>m' ks'. encoder_free r m = Inr m' \<and> encoder_inv emb m' ks' \<and> cache_size m' = cache_size m"
proof -
  let ?P = "\<lambda>m'. (\<exists>ks'. encoder_inv emb m' ks') \<and> cache_size m' = cache_size m"
  have "\<exists>m'. rfold (free_encoder_input r) (get_cached_input_ids r m) m = Inr m' \<and> ?P m'"
  proof (rule rfold_total [where P = ?P])
    show "?P m" using assms(1) by blast
  next
    fix i s
    assume "i \<in> set (get_cached_input_ids r m)" and s: "?P s"
    then have i: "0 \<le> i" "i < len (mm_features r)" by (auto simp: get_cached_input_ids_def)
    from s obtain ks' where "encoder_inv emb s ks'" by blast
    from free_encoder_input_ok [OF this assms(2) i] s
    show "\<exists>s'. free_encoder_input r i s = Inr s' \<and> ?P s'" by auto
  qed
  then show ?thesis by (auto simp: encoder_free_def)
qed

section \<open>Reachable caches\<close>

text \<open>The calls of the scheduler: an input is allocated only when its hash is not cached
  (the scheduler asks \<open>check_and_update_cache\<close> first).\<close>

inductive encoder_reach :: "(string \<Rightarrow> int) \<Rightarrow> int \<Rightarrow> EncoderCacheManager \<Rightarrow> bool" for emb n where
  init: "0 \<le> n \<Longrightarrow> encoder_reach emb n (EncoderCacheManager_init n)"
| reset: "encoder_reach emb n m \<Longrightarrow> encoder_reach emb n (encoder_reset m)"
| check: "encoder_reach emb n m \<Longrightarrow> embeds_agree emb r \<Longrightarrow> 0 \<le> i \<Longrightarrow> i < len (mm_features r) \<Longrightarrow>
    check_and_update_cache r i m = Inr (b, m') \<Longrightarrow> encoder_reach emb n m'"
| can_alloc: "encoder_reach emb n m \<Longrightarrow> embeds_agree emb r \<Longrightarrow> 0 \<le> i \<Longrightarrow> i < len (mm_features r) \<Longrightarrow>
    can_allocate r i budget sched m = Inr (b, m') \<Longrightarrow> encoder_reach emb n m'"
| alloc: "encoder_reach emb n m \<Longrightarrow> embeds_agree emb r \<Longrightarrow> 0 \<le> i \<Longrightarrow> i < len (mm_features r) \<Longrightarrow>
    cached m (mm_identifier (mm_features r ! nat i)) = None \<Longrightarrow>
    allocate r i m = Inr m' \<Longrightarrow> encoder_reach emb n m'"
| free_input: "encoder_reach emb n m \<Longrightarrow> embeds_agree emb r \<Longrightarrow> 0 \<le> i \<Longrightarrow> i < len (mm_features r) \<Longrightarrow>
    free_encoder_input r i m = Inr m' \<Longrightarrow> encoder_reach emb n m'"
| free: "encoder_reach emb n m \<Longrightarrow> embeds_agree emb r \<Longrightarrow> encoder_free r m = Inr m' \<Longrightarrow>
    encoder_reach emb n m'"
| drain: "encoder_reach emb n m \<Longrightarrow> get_freed_mm_hashes m = (hs, m') \<Longrightarrow> encoder_reach emb n m'"

lemma encoder_reach_inv:
  "encoder_reach emb n m \<Longrightarrow> 0 \<le> n \<and> cache_size m = n \<and> (\<exists>ks. encoder_inv emb m ks)"
proof (induction rule: encoder_reach.induct)
  case init
  then show ?case using encoder_init_inv by (auto simp: EncoderCacheManager_init_def)
next
  case (reset m)
  then show ?case using encoder_reset_inv [of m emb] by (auto simp: encoder_reset_def)
next
  case (check m r i b m')
  then show ?case using check_and_update_cache_ok [of emb m _ r i] by fastforce
next
  case (can_alloc m r i budget sched b m')
  then show ?case using can_allocate_ok [of emb m _ r i budget sched] by fastforce
next
  case (alloc m r i m')
  then obtain ks where inv: "encoder_inv emb m ks" by blast
  have "emb (mm_identifier (mm_features r ! nat i)) \<le> num_free_slots m"
    using alloc.hyps(6) input_lookup [OF alloc.hyps(2-4)] by (auto simp: allocate_def res_Inr)
  then show ?case
    using allocate_ok [OF inv alloc.hyps(2-5)] alloc.hyps(6) alloc.IH by auto
next
  case (free_input m r i m')
  then show ?case using free_encoder_input_ok [of emb m _ r i] by fastforce
next
  case (free m r m')
  then show ?case using encoder_free_ok [of emb m _ r] by fastforce
next
  case (drain m hs m')
  then show ?case by (auto simp: get_freed_mm_hashes_def encoder_inv_def)
qed

section \<open>Properties\<close>

text \<open>C24: the encoder cache never overflows.  After any sequence of scheduler calls,
  the free slots are between zero and the reclaimable slots, these are at most the cache
  size, and the embeddings of all cached entries together with the free slots fill the
  cache exactly; the entries eligible for eviction are exactly those no request refers to.\<close>

theorem encoder_cache_within_capacity:
  assumes "encoder_reach emb n m"
  shows "0 \<le> num_free_slots m \<and> num_free_slots m \<le> num_freeable_slots m \<and> num_freeable_slots m \<le> n \<and>
    num_free_slots m + (\<Sum>h \<in> dom (cached m). emb h) = n \<and>
    (\<forall>h. h \<in> fst ` set (freeable_entries m) \<longleftrightarrow> cached m h = Some {})"
proof -
  obtain ks where k: "encoder_inv emb m ks" "cache_size m = n" using encoder_reach_inv [OF assms] by blast
  then show ?thesis using encoder_inv_bounds [OF k(1)] by (auto simp: encoder_inv_def image_image)
qed

definition image_request :: "string \<Rightarrow> string \<Rightarrow> int \<Rightarrow> Request" where
  "image_request rid ident n =
     (text_request rid [0, 0, 0, 0])\<lparr>mm_features :=
        [\<lparr>mm_identifier = ident, mm_position = \<lparr>offset = 0, pr_length = n, is_embed = None\<rparr>\<rparr>]\<rparr>"

lemma image_request_simps:
  "embeds_agree (\<lambda>_. n) (image_request rid ident n) = (0 \<le> n)"
  "len (mm_features (image_request rid ident n)) = 1"
  "mm_identifier (mm_features (image_request rid ident n) ! 0) = ident"
  "request_id (image_request rid ident n) = rid"
  by (simp_all add: image_request_def embeds_agree_def get_num_embeds_def embeds_cumsum_def text_request_def)

theorem encoder_cache_within_capacity_witness:
  "\<exists>m. allocate (image_request ''r'' ''img'' 3) 0 (EncoderCacheManager_init 8) = Inr m \<and>
    0 \<le> num_free_slots m \<and> num_freeable_slots m \<le> 8"
proof -
  let ?r = "image_request ''r'' ''img'' 3"
  have a: "embeds_agree (\<lambda>_. 3) ?r" by (simp add: image_request_simps)
  have inv: "encoder_inv (\<lambda>_. 3) (EncoderCacheManager_init 8) []" by (rule encoder_init_inv) simp
  from allocate_ok [OF inv a, of 0] obtain m where m: "allocate ?r 0 (EncoderCacheManager_init 8) = Inr m"
    by (auto simp: image_request_simps EncoderCacheManager_init_def)
  have "encoder_reach (\<lambda>_. 3) 8 m"
    using encoder_reach.alloc [OF encoder_reach.init a _ _ _ m]
    by (simp add: image_request_simps EncoderCacheManager_init_def)
  from encoder_cache_within_capacity [OF this] show ?thesis using m by blast
qed





end
