(* ===== verification/SchedState.thy ===== *)
theory SchedState
  imports KVManager RequestQueue SchedUtils SpecController EncoderCache
begin

text \<open>
  The state of \<open>Scheduler\<close> and \<open>AsyncScheduler\<close> (\<^verbatim>\<open>vllm/v1/core/sched/scheduler.py\<close>,
  \<^verbatim>\<open>async_scheduler.py\<close>) and the operations on single requests both steps of the
  scheduler use.  A request object is named by its request id: the scheduler never holds two
  objects with one id.  \<open>objs\<close> is the object store, \<open>requests\<close> the keys of the dictionary of
  the same name in insertion order; the queues and the running list hold names.

  The KV and encoder-cache connectors and the structured-output manager are plugged in from
  outside: they are the functions of an \<open>externals\<close> record over a state of their own.

  In asynchronous scheduling many requests share one list object of placeholder tokens.
  \<open>placeholder_holders\<close> names the requests whose \<open>spec_token_ids\<close> is that object, so that an
  update in place reaches all of them.
\<close>

section \<open>Encoder caches\<close>

datatype encoder_cache = EncCache EncoderCacheManager | EncDecCache EncoderDecoderCacheManager

fun enc_free :: "Request \<Rightarrow> encoder_cache \<Rightarrow> encoder_cache res" where
  "enc_free r (EncCache m) = rbind (encoder_free r m) (\<lambda>m'. Inr (EncCache m'))"
| "enc_free r (EncDecCache m) = rbind (ed_free r m) (\<lambda>m'. Inr (EncDecCache m'))"

fun enc_allocate :: "Request \<Rightarrow> int \<Rightarrow> encoder_cache \<Rightarrow> encoder_cache res" where
  "enc_allocate r i (EncCache m) = rbind (allocate r i m) (\<lambda>m'. Inr (EncCache m'))"
| "enc_allocate r i (EncDecCache m) = rbind (ed_allocate r i m) (\<lambda>m'. Inr (EncDecCache m'))"

fun enc_check_and_update_cache :: "Request \<Rightarrow> int \<Rightarrow> encoder_cache \<Rightarrow> (bool \<times> encoder_cache) res" where
  "enc_check_and_update_cache r i (EncCache m) =
     rbind (check_and_update_cache r i m) (\<lambda>(b, m'). Inr (b, EncCache m'))"
| "enc_check_and_update_cache r i (EncDecCache m) = Inr (False, EncDecCache m)"

fun enc_can_allocate :: "Request \<Rightarrow> int \<Rightarrow> int \<Rightarrow> int \<Rightarrow> encoder_cache \<Rightarrow> (bool \<times> encoder_cache) res" where
  "enc_can_allocate r i budget embeds (EncCache m) =
     rbind (can_allocate r i budget embeds m) (\<lambda>(b, m'). Inr (b, EncCache m'))"
| "enc_can_allocate r i budget embeds (EncDecCache m) =
     rbind (ed_can_allocate r i budget embeds m) (\<lambda>b. Inr (b, EncDecCache m))"

fun enc_free_encoder_input :: "Request \<Rightarrow> int \<Rightarrow> encoder_cache \<Rightarrow> encoder_cache res" where
  "enc_free_encoder_input r i (EncCache m) = rbind (free_encoder_input r i m) (\<lambda>m'. Inr (EncCache m'))"
| "enc_free_encoder_input r i (EncDecCache m) = rbind (ed_free_encoder_input r i m) (\<lambda>m'. Inr (EncDecCache m'))"

fun enc_get_cached_input_ids :: "Request \<Rightarrow> encoder_cache \<Rightarrow> int list" where
  "enc_get_cached_input_ids r (EncCache m) = get_cached_input_ids r m"
| "enc_get_cached_input_ids r (EncDecCache m) = ed_get_cached_input_ids r"

fun enc_get_freed_mm_hashes :: "encoder_cache \<Rightarrow> string list \<times> encoder_cache" where
  "enc_get_freed_mm_hashes (EncCache m) = (case get_freed_mm_hashes m of (hs, m') \<Rightarrow> (hs, EncCache m'))"
| "enc_get_freed_mm_hashes (EncDecCache m) = (case ed_get_freed_mm_hashes m of (hs, m') \<Rightarrow> (hs, EncDecCache m'))"

fun enc_reset :: "encoder_cache \<Rightarrow> encoder_cache" where
  "enc_reset (EncCache m) = EncCache (encoder_reset m)"
| "enc_reset (EncDecCache m) = EncDecCache (ed_reset m)"

section \<open>The output of a step\<close>

text \<open>The draft tokens handed to the workers are a list of their own or the shared placeholders.\<close>

datatype spec_list = OwnTokens "int list" | SharedPlaceholders

record NewRequestData =
  nr_req_id :: string
  nr_prompt_token_ids :: "int list option"
  nr_mm_features :: "MultiModalFeatureSpec list"
  nr_sampling_params :: "SamplingParams option"
  nr_pooling_params :: "PoolingParams option"
  nr_block_ids :: "int list list"
  nr_num_computed_tokens :: int
  nr_lora_request :: "LoRARequest option"
  nr_prompt_embeds :: "int list list option"
  nr_prefill_token_ids :: "int list option"

definition NewRequestData_from_request ::
    "Request \<Rightarrow> int list list \<Rightarrow> int list option \<Rightarrow> NewRequestData" where
  "NewRequestData_from_request r block_ids prefill_ids =
     \<lparr>nr_req_id = request_id r, nr_prompt_token_ids = prompt_token_ids r, nr_mm_features = mm_features r,
      nr_sampling_params = sampling_params r, nr_pooling_params = pooling_params r,
      nr_block_ids = block_ids, nr_num_computed_tokens = num_computed_tokens r,
      nr_lora_request = lora_request r, nr_prompt_embeds = prompt_embeds r,
      nr_prefill_token_ids = prefill_ids\<rparr>"

record CachedRequestData =
  cr_req_ids :: "string list"
  cr_resumed_req_ids :: "string set"
  cr_new_token_ids :: "int list list"
  cr_all_token_ids :: "string \<Rightarrow> int list option"
  cr_new_block_ids :: "int list list option list"
  cr_num_computed_tokens :: "int list"
  cr_num_output_tokens :: "int list"

record SchedulerOutput =
  scheduled_new_reqs :: "NewRequestData list"
  scheduled_cached_reqs :: CachedRequestData
  num_scheduled_tokens :: "(string \<times> int) list"
  total_num_scheduled_tokens :: int
  scheduled_spec_decode_tokens :: "string \<Rightarrow> spec_list option"
  out_active_num_spec_tokens :: int
  scheduled_encoder_inputs :: "string \<Rightarrow> int list option"
  num_common_prefix_blocks :: "int list"
  preempted_req_ids :: "string set"
  out_finished_req_ids :: "string set"
  free_encoder_mm_hashes :: "string list"
  new_block_ids_to_zero :: "int list option"
  has_structured_output_requests :: bool
  pending_structured_output_tokens :: bool
  num_invalid_spec_tokens :: "(string \<Rightarrow> int option) option"

section \<open>Configuration, plug-ins and state\<close>

datatype PauseState = UNPAUSED | PAUSED_NEW | PAUSED_ALL

type_synonym kv_params = "(string \<times> string) list option"

record 'e externals =
  has_connector :: bool
  supports_hma :: bool
  get_num_new_matched_tokens :: "Request \<Rightarrow> int \<Rightarrow> 'e \<Rightarrow> (int option \<times> bool) \<times> 'e"
  update_state_after_alloc :: "Request \<Rightarrow> KVCacheBlocks \<Rightarrow> int \<Rightarrow> 'e \<Rightarrow> 'e"
  request_finished :: "Request \<Rightarrow> int list \<Rightarrow> 'e \<Rightarrow> (bool \<times> kv_params) \<times> 'e"
  request_finished_all_groups :: "Request \<Rightarrow> int list list \<Rightarrow> 'e \<Rightarrow> (bool \<times> kv_params) \<times> 'e"
  build_connector_meta :: "SchedulerOutput \<Rightarrow> 'e \<Rightarrow> 'e"
  reset_cache :: "'e \<Rightarrow> bool \<times> 'e"
  update_connector_output :: "'e \<Rightarrow> 'e"
  connector_take_events :: "'e \<Rightarrow> KVCacheEvent list \<times> 'e"
  publish :: "KVCacheEvent list \<Rightarrow> 'e \<Rightarrow> 'e"
  has_ec_connector :: bool
  ec_has_cache_item :: "string \<Rightarrow> 'e \<Rightarrow> bool"
  ec_update_state_after_alloc :: "Request \<Rightarrow> int \<Rightarrow> 'e \<Rightarrow> 'e"
  ec_build_connector_meta :: "SchedulerOutput \<Rightarrow> 'e \<Rightarrow> 'e"
  grammar_ready :: "Request \<Rightarrow> 'e \<Rightarrow> bool"
  should_advance :: "Request \<Rightarrow> 'e \<Rightarrow> bool"
  accept_tokens :: "string \<Rightarrow> int list \<Rightarrow> 'e \<Rightarrow> bool \<times> 'e"
  validate_tokens :: "string \<Rightarrow> int list \<Rightarrow> 'e \<Rightarrow> int list"

record sched_config =
  policy :: SchedulingPolicy
  max_num_running_reqs :: int
  max_num_scheduled_tokens :: int
  max_model_len :: int
  long_prefill_token_threshold :: int
  enable_chunked_prefill :: bool
  no_chunked_mm_input :: bool
  async_scheduling :: bool
  max_loras :: "int option"
  num_spec_tokens :: int
  num_lookahead_tokens :: int
  use_eagle :: bool
  is_encoder_decoder :: bool
  encoder_input_budget :: int
  need_mamba_block_aligned_split :: bool
  cache_block_size :: int
  sched_block_size :: int
  scheduler_reserve_full_isl :: bool
  log_stats :: bool
  use_pp :: bool
  use_v2_model_runner :: bool
  zeroing_needed :: bool
  recompute_kv_load_failures :: bool
  num_groups :: nat
  hashing :: hash_cfg
  hasher :: "block_hasher option"

record 'e Scheduler =
  requests :: "string list"
  objs :: "string \<Rightarrow> Request"
  waiting :: "string RequestQueue"
  skipped_waiting :: "string RequestQueue"
  running :: "string list"
  finished_req_ids :: "string set"
  finished_req_ids_dict :: "(int \<times> string set) list option"
  prev_step_scheduled_req_ids :: "string set"
  num_waiting_for_streaming_input :: int
  finished_recving_kv_req_ids :: "string set"
  failed_recving_kv_req_ids :: "string set"
  connector_prefix_cache_stats :: "PrefixCacheStats option"
  kv_cache_manager :: KVCacheManager
  encoder_cache_manager :: encoder_cache
  spec_token_controller :: "AcceptanceRateSpecTokenController option"
  active_num_spec_tokens :: int
  pause_state :: PauseState
  spec_token_placeholders :: "int list"
  placeholder_holders :: "string set"
  ext :: 'e

abbreviation req_lt :: "'e Scheduler \<Rightarrow> string \<Rightarrow> string \<Rightarrow> bool" where
  "req_lt s a b \<equiv> request_lt (objs s a) (objs s b)"

definition upd_req :: "string \<Rightarrow> (Request \<Rightarrow> Request) \<Rightarrow> 'e Scheduler \<Rightarrow> 'e Scheduler" where
  "upd_req rid f s = s\<lparr>objs := (objs s)(rid := f (objs s rid))\<rparr>"

definition requests_get :: "string \<Rightarrow> 'e Scheduler \<Rightarrow> Request option" where
  "requests_get rid s = (if rid \<in> set (requests s) then Some (objs s rid) else None)"

text \<open>Assigning a new list to \<open>spec_token_ids\<close>, and deleting its tail in place.\<close>

definition set_spec :: "string \<Rightarrow> int list \<Rightarrow> 'e Scheduler \<Rightarrow> 'e Scheduler" where
  "set_spec rid toks s =
     (upd_req rid (\<lambda>r. r\<lparr>spec_token_ids := toks\<rparr>) s)\<lparr>placeholder_holders := placeholder_holders s - {rid}\<rparr>"

definition del_spec :: "string \<Rightarrow> int \<Rightarrow> 'e Scheduler \<Rightarrow> 'e Scheduler" where
  "del_spec rid k s =
     (let toks = py_upto (spec_token_ids (objs s rid)) k in
      if rid \<in> placeholder_holders s
      then s\<lparr>spec_token_placeholders := toks,
             objs := (\<lambda>i. if i \<in> placeholder_holders s then (objs s i)\<lparr>spec_token_ids := toks\<rparr> else objs s i)\<rparr>
      else upd_req rid (\<lambda>r. r\<lparr>spec_token_ids := toks\<rparr>) s)"

definition share_placeholders :: "string \<Rightarrow> 'e Scheduler \<Rightarrow> 'e Scheduler" where
  "share_placeholders rid s =
     (upd_req rid (\<lambda>r. r\<lparr>spec_token_ids := spec_token_placeholders s\<rparr>) s)
       \<lparr>placeholder_holders := insert rid (placeholder_holders s)\<rparr>"

text \<open>What these updates leave alone.\<close>

lemma upd_req_fields [simp]:
  "requests (upd_req rid f s) = requests s"
  "waiting (upd_req rid f s) = waiting s"
  "skipped_waiting (upd_req rid f s) = skipped_waiting s"
  "running (upd_req rid f s) = running s"
  "finished_req_ids (upd_req rid f s) = finished_req_ids s"
  "finished_req_ids_dict (upd_req rid f s) = finished_req_ids_dict s"
  "prev_step_scheduled_req_ids (upd_req rid f s) = prev_step_scheduled_req_ids s"
  "num_waiting_for_streaming_input (upd_req rid f s) = num_waiting_for_streaming_input s"
  "finished_recving_kv_req_ids (upd_req rid f s) = finished_recving_kv_req_ids s"
  "failed_recving_kv_req_ids (upd_req rid f s) = failed_recving_kv_req_ids s"
  "connector_prefix_cache_stats (upd_req rid f s) = connector_prefix_cache_stats s"
  "kv_cache_manager (upd_req rid f s) = kv_cache_manager s"
  "encoder_cache_manager (upd_req rid f s) = encoder_cache_manager s"
  "spec_token_controller (upd_req rid f s) = spec_token_controller s"
  "active_num_spec_tokens (upd_req rid f s) = active_num_spec_tokens s"
  "pause_state (upd_req rid f s) = pause_state s"
  "spec_token_placeholders (upd_req rid f s) = spec_token_placeholders s"
  "placeholder_holders (upd_req rid f s) = placeholder_holders s"
  "ext (upd_req rid f s) = ext s"
  "objs (upd_req rid f s) = (objs s)(rid := f (objs s rid))"
  by (simp_all add: upd_req_def upd_req_def Let_def)

lemma set_spec_fields [simp]:
  "requests (set_spec rid toks s) = requests s"
  "waiting (set_spec rid toks s) = waiting s"
  "skipped_waiting (set_spec rid toks s) = skipped_waiting s"
  "running (set_spec rid toks s) = running s"
  "finished_req_ids (set_spec rid toks s) = finished_req_ids s"
  "finished_req_ids_dict (set_spec rid toks s) = finished_req_ids_dict s"
  "prev_step_scheduled_req_ids (set_spec rid toks s) = prev_step_scheduled_req_ids s"
  "num_waiting_for_streaming_input (set_spec rid toks s) = num_waiting_for_streaming_input s"
  "finished_recving_kv_req_ids (set_spec rid toks s) = finished_recving_kv_req_ids s"
  "failed_recving_kv_req_ids (set_spec rid toks s) = failed_recving_kv_req_ids s"
  "connector_prefix_cache_stats (set_spec rid toks s) = connector_prefix_cache_stats s"
  "kv_cache_manager (set_spec rid toks s) = kv_cache_manager s"
  "encoder_cache_manager (set_spec rid toks s) = encoder_cache_manager s"
  "spec_token_controller (set_spec rid toks s) = spec_token_controller s"
  "active_num_spec_tokens (set_spec rid toks s) = active_num_spec_tokens s"
  "pause_state (set_spec rid toks s) = pause_state s"
  "spec_token_placeholders (set_spec rid toks s) = spec_token_placeholders s"
  "ext (set_spec rid toks s) = ext s"
  "objs (set_spec rid toks s) = (objs s)(rid := (objs s rid)\<lparr>spec_token_ids := toks\<rparr>)"
  "placeholder_holders (set_spec rid toks s) = placeholder_holders s - {rid}"
  by (simp_all add: set_spec_def upd_req_def Let_def)

lemma del_spec_fields [simp]:
  "requests (del_spec rid k s) = requests s"
  "waiting (del_spec rid k s) = waiting s"
  "skipped_waiting (del_spec rid k s) = skipped_waiting s"
  "running (del_spec rid k s) = running s"
  "finished_req_ids (del_spec rid k s) = finished_req_ids s"
  "finished_req_ids_dict (del_spec rid k s) = finished_req_ids_dict s"
  "prev_step_scheduled_req_ids (del_spec rid k s) = prev_step_scheduled_req_ids s"
  "num_waiting_for_streaming_input (del_spec rid k s) = num_waiting_for_streaming_input s"
  "finished_recving_kv_req_ids (del_spec rid k s) = finished_recving_kv_req_ids s"
  "failed_recving_kv_req_ids (del_spec rid k s) = failed_recving_kv_req_ids s"
  "connector_prefix_cache_stats (del_spec rid k s) = connector_prefix_cache_stats s"
  "kv_cache_manager (del_spec rid k s) = kv_cache_manager s"
  "encoder_cache_manager (del_spec rid k s) = encoder_cache_manager s"
  "spec_token_controller (del_spec rid k s) = spec_token_controller s"
  "active_num_spec_tokens (del_spec rid k s) = active_num_spec_tokens s"
  "pause_state (del_spec rid k s) = pause_state s"
  "placeholder_holders (del_spec rid k s) = placeholder_holders s"
  "ext (del_spec rid k s) = ext s"
  by (simp_all add: del_spec_def upd_req_def Let_def)

lemma share_placeholders_fields [simp]:
  "requests (share_placeholders rid s) = requests s"
  "waiting (share_placeholders rid s) = waiting s"
  "skipped_waiting (share_placeholders rid s) = skipped_waiting s"
  "running (share_placeholders rid s) = running s"
  "finished_req_ids (share_placeholders rid s) = finished_req_ids s"
  "finished_req_ids_dict (share_placeholders rid s) = finished_req_ids_dict s"
  "prev_step_scheduled_req_ids (share_placeholders rid s) = prev_step_scheduled_req_ids s"
  "num_waiting_for_streaming_input (share_placeholders rid s) = num_waiting_for_streaming_input s"
  "finished_recving_kv_req_ids (share_placeholders rid s) = finished_recving_kv_req_ids s"
  "failed_recving_kv_req_ids (share_placeholders rid s) = failed_recving_kv_req_ids s"
  "connector_prefix_cache_stats (share_placeholders rid s) = connector_prefix_cache_stats s"
  "kv_cache_manager (share_placeholders rid s) = kv_cache_manager s"
  "encoder_cache_manager (share_placeholders rid s) = encoder_cache_manager s"
  "spec_token_controller (share_placeholders rid s) = spec_token_controller s"
  "active_num_spec_tokens (share_placeholders rid s) = active_num_spec_tokens s"
  "pause_state (share_placeholders rid s) = pause_state s"
  "spec_token_placeholders (share_placeholders rid s) = spec_token_placeholders s"
  "ext (share_placeholders rid s) = ext s"
  "objs (share_placeholders rid s) = (objs s)(rid := (objs s rid)\<lparr>spec_token_ids := spec_token_placeholders s\<rparr>)"
  "placeholder_holders (share_placeholders rid s) = insert rid (placeholder_holders s)"
  by (simp_all add: share_placeholders_def upd_req_def Let_def)

section \<open>Queues\<close>

definition is_blocked_waiting_status :: "RequestStatus \<Rightarrow> bool" where
  "is_blocked_waiting_status st \<longleftrightarrow>
     st \<in> {WAITING_FOR_STRUCTURED_OUTPUT_GRAMMAR, WAITING_FOR_REMOTE_KVS, WAITING_FOR_STREAMING_REQ}"

definition enqueue_waiting_request :: "string \<Rightarrow> 'e Scheduler \<Rightarrow> 'e Scheduler" where
  "enqueue_waiting_request rid s =
     (if is_blocked_waiting_status (status (objs s rid))
      then s\<lparr>skipped_waiting := add_request (req_lt s) rid (skipped_waiting s)\<rparr>
      else s\<lparr>waiting := add_request (req_lt s) rid (waiting s)\<rparr>)"

datatype which_queue = WaitingQueue | SkippedQueue

fun queue_of :: "which_queue \<Rightarrow> 'e Scheduler \<Rightarrow> string RequestQueue" where
  "queue_of WaitingQueue s = waiting s"
| "queue_of SkippedQueue s = skipped_waiting s"

fun set_queue :: "which_queue \<Rightarrow> string RequestQueue \<Rightarrow> 'e Scheduler \<Rightarrow> 'e Scheduler" where
  "set_queue WaitingQueue q s = s\<lparr>waiting := q\<rparr>"
| "set_queue SkippedQueue q s = s\<lparr>skipped_waiting := q\<rparr>"

definition select_waiting_queue :: "sched_config \<Rightarrow> 'e Scheduler \<Rightarrow> which_queue option res" where
  "select_waiting_queue c s =
     (let w = queue_bool (waiting s); k = queue_bool (skipped_waiting s) in
      if policy c = FCFS then Inr (if k then Some SkippedQueue else if w then Some WaitingQueue else None)
      else if w \<and> k then
        rbind (peek_request (waiting s)) (\<lambda>a. rbind (peek_request (skipped_waiting s)) (\<lambda>b.
        Inr (Some (if req_lt s a b then WaitingQueue else SkippedQueue))))
      else Inr (if w then Some WaitingQueue else if k then Some SkippedQueue else None))"

definition get_request_counts :: "'e Scheduler \<Rightarrow> int \<times> int" where
  "get_request_counts s = (len (running s), queue_len (waiting s) + queue_len (skipped_waiting s))"

definition get_num_unfinished_requests :: "'e Scheduler \<Rightarrow> int" where
  "get_num_unfinished_requests s =
     (case pause_state s of
        PAUSED_ALL \<Rightarrow> 0
      | PAUSED_NEW \<Rightarrow> len (running s)
      | UNPAUSED \<Rightarrow> queue_len (waiting s) + queue_len (skipped_waiting s)
          - num_waiting_for_streaming_input s + len (running s))"

definition has_finished_requests :: "'e Scheduler \<Rightarrow> bool" where
  "has_finished_requests s = (finished_req_ids s \<noteq> {})"

definition set_pause_state :: "PauseState \<Rightarrow> 'e Scheduler \<Rightarrow> 'e Scheduler" where
  "set_pause_state p s = s\<lparr>pause_state := p\<rparr>"

section \<open>Releasing and preempting requests\<close>

definition connector_finished ::
    "'e externals \<Rightarrow> sched_config \<Rightarrow> string \<Rightarrow> 'e Scheduler \<Rightarrow> ((bool \<times> kv_params) \<times> 'e Scheduler) res" where
  "connector_finished x c rid s =
     (if \<not> has_connector x then Inr ((False, None), s)
      else
        let r = objs s rid in
        rbind (kvm_remove_skipped_blocks (kv_cache_manager s) rid (num_computed_tokens r)) (\<lambda>k.
        let s1 = s\<lparr>kv_cache_manager := k\<rparr>;
            ids = (case get_block_ids k rid of Some b \<Rightarrow> b | None \<Rightarrow> [])
        in if \<not> supports_hma x
           then py_assert (num_groups c = 1) (rbind (py_get ids 0) (\<lambda>b.
                  case request_finished x r b (ext s1) of (res, e) \<Rightarrow> Inr (res, s1\<lparr>ext := e\<rparr>)))
           else case request_finished_all_groups x r ids (ext s1) of (res, e) \<Rightarrow> Inr (res, s1\<lparr>ext := e\<rparr>)))"

definition sched_free_blocks :: "string \<Rightarrow> 'e Scheduler \<Rightarrow> 'e Scheduler res" where
  "sched_free_blocks rid s =
     py_assert (is_finished (objs s rid))
      (rbind (kvm_free (kv_cache_manager s) (objs s rid)) (\<lambda>k.
       py_raise_if (rid \<notin> set (requests s)) KeyError
        (Inr (s\<lparr>kv_cache_manager := k, requests := remove1 rid (requests s)\<rparr>))))"

definition note_finished :: "string \<Rightarrow> 'e Scheduler \<Rightarrow> 'e Scheduler" where
  "note_finished rid s =
     s\<lparr>finished_req_ids := insert rid (finished_req_ids s),
       finished_req_ids_dict := map_option (\<lambda>d. let ci = client_index (objs s rid) in
         AList.update ci (insert rid (case map_of d ci of Some ids \<Rightarrow> ids | None \<Rightarrow> {})) d)
         (finished_req_ids_dict s)\<rparr>"

definition free_request ::
    "'e externals \<Rightarrow> sched_config \<Rightarrow> bool \<Rightarrow> string \<Rightarrow> 'e Scheduler \<Rightarrow> (kv_params \<times> 'e Scheduler) res" where
  "free_request x c delay_free_blocks rid s =
     py_assert (is_finished (objs s rid))
      (rbind (connector_finished x c rid s) (\<lambda>((connector_delay, params), s1).
       rbind (enc_free (objs s1 rid) (encoder_cache_manager s1)) (\<lambda>m.
       let s2 = note_finished rid (s1\<lparr>encoder_cache_manager := m\<rparr>) in
       if \<not> (delay_free_blocks \<or> connector_delay)
       then rbind (sched_free_blocks rid s2) (\<lambda>s3. Inr (params, s3))
       else Inr (params, s2))))"

definition preempted :: "sched_config \<Rightarrow> rat \<Rightarrow> Request \<Rightarrow> Request" where
  "preempted c now r =
     (let r1 = r\<lparr>status := PREEMPTED, num_computed_tokens := 0, spec_token_ids := [],
                 num_preemptions := num_preemptions r + 1\<rparr>
      in if log_stats c then record_event EV_PREEMPTED now r1 else r1)"

definition preempt_request :: "sched_config \<Rightarrow> rat \<Rightarrow> string \<Rightarrow> 'e Scheduler \<Rightarrow> 'e Scheduler res" where
  "preempt_request c now rid s =
     py_assert (status (objs s rid) = RUNNING)
      (rbind (kvm_free (kv_cache_manager s) (objs s rid)) (\<lambda>k.
       rbind (enc_free (objs s rid) (encoder_cache_manager s)) (\<lambda>m.
       let s1 = upd_req rid (preempted c now)
                  (s\<lparr>kv_cache_manager := k, encoder_cache_manager := m,
                     placeholder_holders := (if spec_token_ids (objs s rid) \<noteq> []
                       then placeholder_holders s - {rid} else placeholder_holders s)\<rparr>)
       in Inr (s1\<lparr>waiting := prepend_request (req_lt s1) rid (waiting s1)\<rparr>))))"

section \<open>Splitting a prefill at block boundaries\<close>

definition mamba_block_aligned_split :: "sched_config \<Rightarrow> Request \<Rightarrow> int \<Rightarrow> int \<Rightarrow> int \<Rightarrow> int res" where
  "mamba_block_aligned_split c r num_new num_local num_external =
     py_assert (num_external = 0)
      (let computed = num_computed_tokens r + num_local + num_external in
       if computed < max (num_prompt_tokens r) (num_tokens r - 1)
       then
         py_raise_if (cache_block_size c = 0) ZeroDivisionError
         (let last0 = num_tokens r - num_tokens r mod cache_block_size c;
              last_pos = (if use_eagle c then max (last0 - cache_block_size c) 0 else last0);
              after = computed + num_new
          in Inr (if after < last_pos then num_new div cache_block_size c * cache_block_size c
                  else if computed < last_pos \<and> last_pos < after then last_pos - computed
                  else num_new))
       else Inr num_new)"

end
