(* ===== verification/ResultPost.thy ===== *)
theory ResultPost
  imports Prelude
begin

text \<open>
  Postconditions of computations that may raise: \<open>rpost m P\<close> says that \<open>P\<close> holds of the value
  of \<open>m\<close> whenever \<open>m\<close> returns one.  The rules turn the postcondition of a composed computation
  into those of its parts.
\<close>

definition rpost :: "'a res \<Rightarrow> ('a \<Rightarrow> bool) \<Rightarrow> bool" where
  "rpost m P \<longleftrightarrow> (\<forall>x. m = Inr x \<longrightarrow> P x)"

lemma rpostI: "(\<And>x. m = Inr x \<Longrightarrow> P x) \<Longrightarrow> rpost m P"
  by (simp add: rpost_def)

lemma rpostD: "rpost m P \<Longrightarrow> m = Inr x \<Longrightarrow> P x"
  by (simp add: rpost_def)

lemma rpost_simps [simp]:
  "rpost (Inr x) P \<longleftrightarrow> P x"
  "rpost (Inl e) P"
  "rpost (py_assert b m) P \<longleftrightarrow> (b \<longrightarrow> rpost m P)"
  "rpost (py_raise_if b e m) P \<longleftrightarrow> (\<not> b \<longrightarrow> rpost m P)"
  by (auto simp: rpost_def rbind_eq_Inr py_assert_Inr py_raise_if_def)

lemma rpost_rbind [simp]: "rpost (rbind m f) P \<longleftrightarrow> rpost m (\<lambda>x. rpost (f x) P)"
  by (auto simp: rpost_def rbind_eq_Inr)

lemma rpost_if [simp]: "rpost (if b then m else n) P \<longleftrightarrow> (b \<longrightarrow> rpost m P) \<and> (\<not> b \<longrightarrow> rpost n P)"
  by simp

lemma rpost_case_prod [simp]:
  "rpost (case z of (a, b) \<Rightarrow> f a b) P \<longleftrightarrow> (case z of (a, b) \<Rightarrow> rpost (f a b) P)"
  by (cases z) simp

lemma rpost_case_option [simp]:
  "rpost (case z of None \<Rightarrow> m | Some y \<Rightarrow> f y) P \<longleftrightarrow> (case z of None \<Rightarrow> rpost m P | Some y \<Rightarrow> rpost (f y) P)"
  by (cases z) simp_all

lemma rpost_True [simp]: "rpost m (\<lambda>x. True)"
  by (simp add: rpost_def)

lemma case_prod_ignored [simp]: "case_prod (\<lambda>a b. c) = (\<lambda>_. c)"
  by (simp add: fun_eq_iff split_beta)

lemma rpost_conseq: "rpost m P \<Longrightarrow> (\<And>x. P x \<Longrightarrow> Q x) \<Longrightarrow> rpost m Q"
  by (simp add: rpost_def)

lemma rpost_conj: "rpost m P \<Longrightarrow> rpost m Q \<Longrightarrow> rpost m (\<lambda>x. P x \<and> Q x)"
  by (simp add: rpost_def)

lemma rpost_with: "(\<And>x. m = Inr x \<Longrightarrow> P x \<Longrightarrow> Q x) \<Longrightarrow> rpost m P \<Longrightarrow> rpost m Q"
  by (simp add: rpost_def)

lemma rpost_rfold:
  assumes "I s" "\<And>y s. y \<in> set ys \<Longrightarrow> I s \<Longrightarrow> rpost (f y s) I"
  shows "rpost (rfold f ys s) I"
  using assms
proof (induction ys arbitrary: s)
  case (Cons y ys)
  have "rpost (f y s) I" using Cons.prems by simp
  then show ?case using Cons.IH Cons.prems(2) by (auto elim!: rpost_conseq)
qed simp

end
