(* ===== verification/SchedStep.thy ===== *)
theory SchedStep
  imports SchedState ResultPost
begin

text \<open>
  \<open>Scheduler.schedule\<close> (\<^verbatim>\<open>vllm/v1/core/sched/scheduler.py\<close>): the loop over the running requests
  with preemption, the loop over the waiting requests, and the construction of the step's
  output.  The local variables of the method are the record \<open>sched_step\<close>; \<open>now\<close> is the time
  stamp it takes.  Both loops are total: each round shortens the list or advances in it.
\<close>

section \<open>Local variables\<close>

record sched_step =
  new_reqs :: "string list"
  resumed_reqs :: "string list"
  running_reqs :: "string list"
  preempted_reqs :: "string list"
  req_to_new_blocks :: "string \<Rightarrow> KVCacheBlocks option"
  step_tokens :: "(string \<times> int) list"
  token_budget :: int
  step_encoder_inputs :: "string \<Rightarrow> int list option"
  encoder_compute_budget :: int
  step_spec_tokens :: "string \<Rightarrow> spec_list option"
  scheduled_loras :: "int set"

definition new_step :: "sched_config \<Rightarrow> 'e Scheduler \<Rightarrow> sched_step" where
  "new_step c s =
     \<lparr>new_reqs = [], resumed_reqs = [], running_reqs = [], preempted_reqs = [],
      req_to_new_blocks = Map.empty, step_tokens = [],
      token_budget = (if pause_state s = PAUSED_ALL then 0 else max_num_scheduled_tokens c),
      step_encoder_inputs = Map.empty, encoder_compute_budget = encoder_input_budget c,
      step_spec_tokens = Map.empty, scheduled_loras = {}\<rparr>"

section \<open>Encoder inputs\<close>

record enc_sched =
  es_inputs :: "int list"
  es_external :: "int list"
  es_hashes :: "string set"
  es_embeds :: int
  es_new :: int
  es_budget :: int
  es_cache :: encoder_cache

fun encoder_inputs_loop ::
    "'e externals \<Rightarrow> 'e \<Rightarrow> sched_config \<Rightarrow> Request \<Rightarrow> int \<Rightarrow> int \<Rightarrow> (nat \<times> MultiModalFeatureSpec) list
     \<Rightarrow> enc_sched \<Rightarrow> enc_sched res" where
  "encoder_inputs_loop x e c r computed shift [] st = Inr st"
| "encoder_inputs_loop x e c r computed shift ((i, f) # fs) st =
     (let start_pos = offset (mm_position f); n = pr_length (mm_position f);
          embeds = get_num_embeds (mm_position f); h = mm_identifier f; new = es_new st;
          continue_with = encoder_inputs_loop x e c r computed shift fs
      in if start_pos \<ge> computed + new + shift then Inr st
         else if is_encoder_decoder c \<and> computed > 0 then py_assert (start_pos = 0) (continue_with st)
         else if start_pos + n \<le> computed then continue_with st
         else if \<not> is_encoder_decoder c \<and> h \<in> es_hashes st then continue_with st
         else
           rbind (if is_encoder_decoder c then Inr (False, es_cache st)
                  else enc_check_and_update_cache r (int i) (es_cache st)) (\<lambda>(hit, m1).
           if hit then continue_with (st\<lparr>es_cache := m1\<rparr>)
           else if no_chunked_mm_input c \<and> computed < start_pos \<and> computed + new < start_pos + n
           then Inr (st\<lparr>es_new := max 0 (start_pos - (computed + shift)), es_cache := m1\<rparr>)
           else
             rbind (enc_can_allocate r (int i) (es_budget st) (es_embeds st) m1) (\<lambda>(ok, m2).
             if \<not> ok
             then Inr (st\<lparr>es_new := (if computed + shift < start_pos then start_pos - (computed + shift) else 0),
                          es_cache := m2\<rparr>)
             else
               rbind (get_embeds_indices_in_range (mm_position f) (max 0 (computed - start_pos))
                        (min n (computed + new - start_pos))) (\<lambda>(a, b).
               if b - a = 0 then continue_with (st\<lparr>es_cache := m2\<rparr>)
               else if has_ec_connector x \<and> ec_has_cache_item x h e
               then continue_with (st\<lparr>es_hashes := insert h (es_hashes st),
                      es_external := es_external st @ [int i], es_embeds := es_embeds st + embeds,
                      es_cache := m2\<rparr>)
               else continue_with (st\<lparr>es_embeds := es_embeds st + embeds, es_budget := es_budget st - embeds,
                      es_hashes := insert h (es_hashes st), es_inputs := es_inputs st @ [int i],
                      es_cache := m2\<rparr>)))))"

definition try_schedule_encoder_inputs ::
    "'e externals \<Rightarrow> sched_config \<Rightarrow> Request \<Rightarrow> int \<Rightarrow> int \<Rightarrow> int \<Rightarrow> int \<Rightarrow> 'e Scheduler
     \<Rightarrow> ((int list \<times> int \<times> int \<times> int list) \<times> 'e Scheduler) res" where
  "try_schedule_encoder_inputs x c r computed num_new budget shift s =
     (if num_new = 0 \<or> \<not> has_encoder_inputs r then Inr (([], num_new, budget, []), s)
      else
        rbind (encoder_inputs_loop x (ext s) c r computed shift (enumerate 0 (mm_features r))
                 \<lparr>es_inputs = [], es_external = [], es_hashes = {}, es_embeds = 0, es_new = num_new,
                  es_budget = budget, es_cache = encoder_cache_manager s\<rparr>) (\<lambda>st.
        Inr ((es_inputs st, es_new st, es_budget st, es_external st),
             s\<lparr>encoder_cache_manager := es_cache st\<rparr>)))"

definition allocate_encoder_inputs ::
    "'e externals \<Rightarrow> string \<Rightarrow> int list \<Rightarrow> 'e Scheduler \<Rightarrow> 'e Scheduler res" where
  "allocate_encoder_inputs x rid inputs s =
     rfold (\<lambda>i s'. rbind (enc_allocate (objs s' rid) i (encoder_cache_manager s')) (\<lambda>m.
       let s1 = s'\<lparr>encoder_cache_manager := m\<rparr> in
       Inr (if has_ec_connector x then s1\<lparr>ext := ec_update_state_after_alloc x (objs s1 rid) i (ext s1)\<rparr> else s1)))
       inputs s"

text \<open>The encoder inputs of a request that has been scheduled.\<close>

definition commit_encoder_inputs ::
    "'e externals \<Rightarrow> string \<Rightarrow> int list \<Rightarrow> int \<Rightarrow> int list \<Rightarrow> 'e Scheduler \<Rightarrow> sched_step
     \<Rightarrow> ('e Scheduler \<times> sched_step) res" where
  "commit_encoder_inputs x rid inputs new_budget external s t =
     rbind (if inputs \<noteq> [] then rbind (allocate_encoder_inputs x rid inputs s) (\<lambda>s1.
              Inr (s1, t\<lparr>step_encoder_inputs := (step_encoder_inputs t)(rid \<mapsto> inputs),
                         encoder_compute_budget := new_budget\<rparr>))
            else Inr (s, t)) (\<lambda>(s1, t1).
     rbind (if external \<noteq> [] then allocate_encoder_inputs x rid external s1 else Inr s1) (\<lambda>s2.
     Inr (s2, t1)))"

section \<open>Preemption\<close>

definition later_key :: "Request \<Rightarrow> Request \<Rightarrow> bool" where
  "later_key a b \<longleftrightarrow> priority a < priority b \<or> priority a = priority b \<and> arrival_time a < arrival_time b"

text \<open>Python's \<open>max\<close> with a key: the first of the greatest elements.\<close>

definition max_by_key :: "(string \<Rightarrow> Request) \<Rightarrow> string list \<Rightarrow> string res" where
  "max_by_key f xs =
     (case xs of [] \<Rightarrow> Inl ValueError
      | y # ys \<Rightarrow> Inr (foldl (\<lambda>b z. if later_key (f b) (f z) then z else b) y ys))"

text \<open>Taking back what the step has already given to a request that is now preempted.\<close>

definition unschedule :: "string \<Rightarrow> 'e Scheduler \<Rightarrow> sched_step \<Rightarrow> sched_step res" where
  "unschedule v s t =
     (case map_of (step_tokens t) v of
        None \<Rightarrow> Inl KeyError
      | Some n \<Rightarrow>
          (case req_to_new_blocks t v of
             None \<Rightarrow> Inl KeyError
           | Some _ \<Rightarrow>
               rbind (rmap (\<lambda>i. get_num_encoder_embeds i (objs s v))
                        (case step_encoder_inputs t v of None \<Rightarrow> [] | Some is \<Rightarrow> is)) (\<lambda>es.
               Inr (t\<lparr>running_reqs := remove1 v (running_reqs t),
                      token_budget := token_budget t + n,
                      step_tokens := AList.delete v (step_tokens t),
                      req_to_new_blocks := (req_to_new_blocks t)(v := None),
                      step_spec_tokens := (step_spec_tokens t)(v := None),
                      step_encoder_inputs := (step_encoder_inputs t)(v := None),
                      encoder_compute_budget := encoder_compute_budget t + sum_list es\<rparr>))))"

definition take_victim ::
    "sched_config \<Rightarrow> 'e Scheduler \<Rightarrow> sched_step \<Rightarrow> int
     \<Rightarrow> (string \<times> 'e Scheduler \<times> sched_step \<times> int) res" where
  "take_victim c s t req_index =
     (if policy c = PRIORITY then
        rbind (max_by_key (objs s) (running s)) (\<lambda>v.
        let s1 = s\<lparr>running := remove1 v (running s)\<rparr> in
        if v \<in> set (running_reqs t)
        then rbind (unschedule v s1 t) (\<lambda>t1. Inr (v, s1, t1, req_index - 1))
        else Inr (v, s1, t, req_index))
      else if running s = [] then Inl IndexError
      else Inr (last (running s), s\<lparr>running := butlast (running s)\<rparr>, t, req_index))"

lemma max_by_key_in: "max_by_key f xs = Inr v \<Longrightarrow> v \<in> set xs"
proof -
  have "foldl (\<lambda>b z. if later_key (f b) (f z) then z else b) y ys \<in> set (y # ys)" for y ys
  proof (induction ys arbitrary: y)
    case (Cons a ys)
    then show ?case
      by (cases "later_key (f y) (f a)") (use Cons [of a] Cons [of y] in auto)
  qed simp
  then show "max_by_key f xs = Inr v \<Longrightarrow> v \<in> set xs"
    by (auto simp: max_by_key_def split: list.splits)
qed

lemma take_victim_running:
  "rpost (take_victim c s t i) (\<lambda>(v, s1, t1, i1).
     v \<in> set (running s) \<and> length (running s) = Suc (length (running s1)) \<and> i - 1 \<le> i1 \<and> i1 \<le> i)"
proof -
  have "rpost (max_by_key (objs s) (running s)) (\<lambda>v. v \<in> set (running s) \<and>
      length (running s) = Suc (length (remove1 v (running s))))"
  proof (rule rpostI)
    fix v assume "max_by_key (objs s) (running s) = Inr v"
    then have v: "v \<in> set (running s)" by (rule max_by_key_in)
    then have "0 < length (running s)" by (rule length_pos_if_in_set)
    then show "v \<in> set (running s) \<and> length (running s) = Suc (length (remove1 v (running s)))"
      using v by (simp add: length_remove1)
  qed
  then show ?thesis
    by (auto simp: take_victim_def Let_def elim!: rpost_conseq)
qed

lemma preempt_request_running: "rpost (preempt_request c now v s) (\<lambda>s'. running s' = running s)"
  by (simp add: preempt_request_def Let_def)

function alloc_loop ::
    "sched_config \<Rightarrow> rat \<Rightarrow> string \<Rightarrow> int \<Rightarrow> 'e Scheduler \<Rightarrow> sched_step \<Rightarrow> int
     \<Rightarrow> (KVCacheBlocks option \<times> 'e Scheduler \<times> sched_step \<times> int) res" where
  "alloc_loop c now rid num_new s t req_index =
     rbind (allocate_slots (hashing c) (kv_cache_manager s) (objs s rid) num_new 0 None
              (num_lookahead_tokens c) 0 False 0) (\<lambda>(new_blocks, r, k).
     let s1 = s\<lparr>kv_cache_manager := k, objs := (objs s)(rid := r)\<rparr> in
     case new_blocks of
       Some b \<Rightarrow> Inr (Some b, s1, t, req_index)
     | None \<Rightarrow>
         rbind (take_victim c s1 t req_index) (\<lambda>(v, s2, t2, req_index2).
         rbind (preempt_request c now v s2) (\<lambda>s3.
         let t3 = t2\<lparr>preempted_reqs := preempted_reqs t2 @ [v]\<rparr> in
         if v = rid then Inr (None, s3, t3, req_index2)
         else alloc_loop c now rid num_new s3 t3 req_index2)))"
  by pat_completeness auto
termination
  by (relation "measure (\<lambda>(c, now, rid, n, s, t, i). length (running s))")
    (auto dest!: rpostD [OF take_victim_running] rpostD [OF preempt_request_running])

declare alloc_loop.simps [simp del]

section \<open>The running requests\<close>

definition truncate_spec :: "int \<Rightarrow> string \<Rightarrow> 'e Scheduler \<Rightarrow> 'e Scheduler" where
  "truncate_spec step_active_k rid s =
     (if spec_token_ids (objs s rid) \<noteq> [] \<and> len (spec_token_ids (objs s rid)) > step_active_k
      then del_spec rid step_active_k s else s)"

definition running_num_new_tokens :: "sched_config \<Rightarrow> Request \<Rightarrow> int \<Rightarrow> int" where
  "running_num_new_tokens c r budget =
     (let n0 = num_tokens_with_spec r + num_output_placeholders r - num_computed_tokens r;
          n1 = (if 0 < long_prefill_token_threshold c \<and> long_prefill_token_threshold c < n0
                then long_prefill_token_threshold c else n0);
          n2 = min n1 budget
      in min n2 (max_model_len c - 1 - num_computed_tokens r))"

definition reached_max_tokens :: "Request \<Rightarrow> bool" where
  "reached_max_tokens r \<longleftrightarrow> num_output_placeholders r > 0 \<and>
     num_computed_tokens r + 2 - num_output_placeholders r \<ge> num_prompt_tokens r + max_tokens r"

definition schedule_spec_tokens :: "string \<Rightarrow> int \<Rightarrow> 'e Scheduler \<Rightarrow> sched_step \<Rightarrow> 'e Scheduler \<times> sched_step" where
  "schedule_spec_tokens rid num_new s t =
     (let r = objs s rid; toks = spec_token_ids r in
      if toks = [] then (s, t)
      else
        let n = num_new + num_computed_tokens r - num_tokens r - num_output_placeholders r;
            t1 = (if n > 0 then
                    t\<lparr>step_spec_tokens := (step_spec_tokens t)(rid \<mapsto>
                      (if len toks > n then OwnTokens (py_upto toks n)
                       else if rid \<in> placeholder_holders s then SharedPlaceholders else OwnTokens toks))\<rparr>
                  else t)
        in (set_spec rid [] s, t1))"

definition commit_running ::
    "'e externals \<Rightarrow> string \<Rightarrow> int \<Rightarrow> KVCacheBlocks \<Rightarrow> int list \<Rightarrow> int \<Rightarrow> int list \<Rightarrow> 'e Scheduler \<Rightarrow> sched_step
     \<Rightarrow> ('e Scheduler \<times> sched_step) res" where
  "commit_running x rid num_new new_blocks inputs new_budget external s t =
     (case schedule_spec_tokens rid num_new s
        (t\<lparr>running_reqs := running_reqs t @ [rid],
           req_to_new_blocks := (req_to_new_blocks t)(rid \<mapsto> new_blocks),
           step_tokens := AList.update rid num_new (step_tokens t),
           token_budget := token_budget t - num_new\<rparr>) of (s1, t1) \<Rightarrow>
      commit_encoder_inputs x rid inputs new_budget external s1 t1)"

text \<open>One round: whether to go on, and the new state, local variables and position.\<close>

definition run_one ::
    "'e externals \<Rightarrow> sched_config \<Rightarrow> rat \<Rightarrow> int \<Rightarrow> string \<Rightarrow> 'e Scheduler \<Rightarrow> sched_step \<Rightarrow> int
     \<Rightarrow> (bool \<times> 'e Scheduler \<times> sched_step \<times> int) res" where
  "run_one x c now step_active_k rid s0 t req_index =
     (let s = truncate_spec step_active_k rid s0; r = objs s rid in
      if reached_max_tokens r then Inr (True, s, t, req_index + 1)
      else
        rbind (if has_encoder_inputs r
               then try_schedule_encoder_inputs x c r (num_computed_tokens r)
                      (running_num_new_tokens c r (token_budget t)) (encoder_compute_budget t)
                      (if use_eagle c then 1 else 0) s
               else Inr (([], running_num_new_tokens c r (token_budget t), encoder_compute_budget t, []), s))
          (\<lambda>((inputs, n1, new_budget, external), s1).
        rbind (if need_mamba_block_aligned_split c then mamba_block_aligned_split c r n1 0 0 else Inr n1) (\<lambda>n.
        if n = 0 then Inr (True, s1, t, req_index + 1)
        else
          rbind (alloc_loop c now rid n s1 t req_index) (\<lambda>(new_blocks, s2, t2, req_index2).
          case new_blocks of
            None \<Rightarrow> Inr (False, s2, t2, req_index2)
          | Some b \<Rightarrow>
              rbind (commit_running x rid n b inputs new_budget external s2 t2) (\<lambda>(s3, t3).
              Inr (True, s3, t3, req_index2 + 1))))))"

text \<open>The invariant rule of the allocation loop: \<open>I\<close> holds before every attempt and when one
  succeeds, \<open>J\<close> when the request itself has been preempted.\<close>

lemma alloc_loop_rule:
  assumes "I s t i"
    and "\<And>s t i nb r k. I s t i \<Longrightarrow> allocate_slots (hashing c) (kv_cache_manager s) (objs s rid) n 0 None
      (num_lookahead_tokens c) 0 False 0 = Inr (nb, r, k) \<Longrightarrow>
      I (s\<lparr>kv_cache_manager := k, objs := (objs s)(rid := r)\<rparr>) t i"
    and "\<And>s t i v s2 t2 i2 s3. I s t i \<Longrightarrow> take_victim c s t i = Inr (v, s2, t2, i2) \<Longrightarrow>
      preempt_request c now v s2 = Inr s3 \<Longrightarrow>
      if v = rid then J s3 (t2\<lparr>preempted_reqs := preempted_reqs t2 @ [v]\<rparr>) i2
      else I s3 (t2\<lparr>preempted_reqs := preempted_reqs t2 @ [v]\<rparr>) i2"
  shows "rpost (alloc_loop c now rid n s t i) (\<lambda>(b, s', t', i'). if b = None then J s' t' i' else I s' t' i')"
  using assms(1)
proof (induction "length (running s)" arbitrary: s t i rule: less_induct)
  case less
  let ?P = "\<lambda>(b, s', t', i'). if b = None then J s' t' i' else I s' t' i'"
  have step: "rpost (alloc_loop c now rid n s3 (t2\<lparr>preempted_reqs := preempted_reqs t2 @ [v]\<rparr>) i2) ?P"
    if "allocate_slots (hashing c) (kv_cache_manager s) (objs s rid) n 0 None (num_lookahead_tokens c) 0 False 0 =
        Inr (None, r, k)" "take_victim c (s\<lparr>kv_cache_manager := k, objs := (objs s)(rid := r)\<rparr>) t i = Inr (v, s2, t2, i2)"
      "preempt_request c now v s2 = Inr s3" "v \<noteq> rid" for r k v s2 t2 i2 s3
  proof (rule less.hyps)
    show "length (running s3) < length (running s)"
      using rpostD [OF take_victim_running that(2)] rpostD [OF preempt_request_running that(3)] by simp
    show "I s3 (t2\<lparr>preempted_reqs := preempted_reqs t2 @ [v]\<rparr>) i2"
      using assms(3) [OF assms(2) [OF less.prems that(1)] that(2,3)] that(4) by simp
  qed
  show ?case
  proof (subst alloc_loop.simps, simp only: rpost_rbind Let_def, rule rpostI, clarify)
    fix nb r k
    assume a: "allocate_slots (hashing c) (kv_cache_manager s) (objs s rid) n 0 None (num_lookahead_tokens c) 0 False 0 =
      Inr (nb, r, k)"
    note i = assms(2) [OF less.prems a]
    show "rpost (case nb of None \<Rightarrow> rbind (take_victim c (s\<lparr>kv_cache_manager := k, objs := (objs s)(rid := r)\<rparr>) t i)
        (\<lambda>(v, s2, t2, i2). rbind (preempt_request c now v s2) (\<lambda>s3.
          if v = rid then Inr (None, s3, t2\<lparr>preempted_reqs := preempted_reqs t2 @ [v]\<rparr>, i2)
          else alloc_loop c now rid n s3 (t2\<lparr>preempted_reqs := preempted_reqs t2 @ [v]\<rparr>) i2))
      | Some b \<Rightarrow> Inr (Some b, s\<lparr>kv_cache_manager := k, objs := (objs s)(rid := r)\<rparr>, t, i)) ?P"
    proof (cases nb)
      case None
      then show ?thesis
        apply (simp only: option.case rpost_rbind)
        apply (rule rpostI, clarify, simp only: rpost_rbind, rule rpostI)
        subgoal for v s2 t2 i2 s3
          using assms(3) [OF i, of v s2 t2 i2 s3] step [of r k v s2 t2 i2 s3] a
          by (cases "v = rid") simp_all
        done
    qed (use i in simp)
  qed
qed

lemma alloc_loop_running:
  "rpost (alloc_loop c now rid n s t i) (\<lambda>(b, s', t', i').
     len (running s') - i' \<le> len (running s) - i \<and> length (running s') \<le> length (running s))"
  by (rule rpost_conseq [OF alloc_loop_rule
        [where I = "\<lambda>s' t' i'. len (running s') - i' \<le> len (running s) - i \<and> length (running s') \<le> length (running s)"
          and J = "\<lambda>s' t' i'. len (running s') - i' \<le> len (running s) - i \<and> length (running s') \<le> length (running s)"]])
    (auto dest!: rpostD [OF take_victim_running] rpostD [OF preempt_request_running])

lemma truncate_spec_running [simp]: "running (truncate_spec k rid s) = running s"
  by (simp add: truncate_spec_def)

lemma try_schedule_running:
  "rpost (try_schedule_encoder_inputs x c r a b d e s) (\<lambda>(res, s'). running s' = running s)"
  by (simp add: try_schedule_encoder_inputs_def)

lemma allocate_encoder_inputs_running:
  "rpost (allocate_encoder_inputs x rid inputs s) (\<lambda>s'. running s' = running s)"
  unfolding allocate_encoder_inputs_def by (rule rpost_rfold) (simp_all add: Let_def)

lemma commit_encoder_running:
  "rpost (commit_encoder_inputs x rid inputs nb external s t) (\<lambda>(s', t'). running s' = running s)"
  by (auto simp: commit_encoder_inputs_def intro!: rpost_conseq [OF allocate_encoder_inputs_running])

lemma commit_running_running:
  "rpost (commit_running x rid n b inputs nb external s t) (\<lambda>(s', t'). running s' = running s)"
  by (auto simp: commit_running_def schedule_spec_tokens_def Let_def intro!: rpost_conseq [OF commit_encoder_running])

text \<open>The rule for one round of the running loop, in the order of its steps.\<close>

lemma run_one_rule:
  assumes "s1 = truncate_spec k rid s0"
    and "reached_max_tokens (objs s1 rid) \<Longrightarrow> P (True, s1, t, i + 1)"
    and "rpost (if has_encoder_inputs (objs s1 rid)
        then try_schedule_encoder_inputs x c (objs s1 rid) (num_computed_tokens (objs s1 rid))
               (running_num_new_tokens c (objs s1 rid) (token_budget t)) (encoder_compute_budget t)
               (if use_eagle c then 1 else 0) s1
        else Inr (([], running_num_new_tokens c (objs s1 rid) (token_budget t), encoder_compute_budget t, []), s1)) E"
    and "\<And>inputs n1 nb external s2. E ((inputs, n1, nb, external), s2) \<Longrightarrow>
      rpost (if need_mamba_block_aligned_split c then mamba_block_aligned_split c (objs s1 rid) n1 0 0 else Inr n1)
        (M inputs nb external s2)"
    and "\<And>inputs nb external s2. M inputs nb external s2 0 \<Longrightarrow> P (True, s2, t, i + 1)"
    and "\<And>inputs nb external s2 n. M inputs nb external s2 n \<Longrightarrow> n \<noteq> 0 \<Longrightarrow>
      rpost (alloc_loop c now rid n s2 t i) (A inputs nb external n)"
    and "\<And>inputs nb external n s3 t3 i3. A inputs nb external n (None, s3, t3, i3) \<Longrightarrow> P (False, s3, t3, i3)"
    and "\<And>inputs nb external n b s3 t3 i3. A inputs nb external n (Some b, s3, t3, i3) \<Longrightarrow>
      rpost (commit_running x rid n b inputs nb external s3 t3) (\<lambda>(s4, t4). P (True, s4, t4, i3 + 1))"
  shows "rpost (run_one x c now k rid s0 t i) P"
proof -
  have last: "case nb' of None \<Rightarrow> P (False, s3, t3, i3)
      | Some b \<Rightarrow> rpost (commit_running x rid n b inputs nb external s3 t3) (\<lambda>(s4, t4). P (True, s4, t4, i3 + 1))"
    if "A inputs nb external n (nb', s3, t3, i3)" for inputs nb external n nb' s3 t3 i3
    using that assms(7,8) by (cases nb') auto
  have alloc: "rpost (alloc_loop c now rid n s2 t i) (\<lambda>(nb', s3, t3, i3). case nb' of None \<Rightarrow> P (False, s3, t3, i3)
      | Some b \<Rightarrow> rpost (commit_running x rid n b inputs nb external s3 t3) (\<lambda>(s4, t4). P (True, s4, t4, i3 + 1)))"
    if "M inputs nb external s2 n" "n \<noteq> 0" for inputs nb external s2 n
    by (rule rpost_conseq [OF assms(6) [OF that]]) (use last in auto)
  have mamba: "rpost (if need_mamba_block_aligned_split c then mamba_block_aligned_split c (objs s1 rid) n1 0 0 else Inr n1)
      (\<lambda>n. if n = 0 then P (True, s2, t, i + 1)
        else rpost (alloc_loop c now rid n s2 t i) (\<lambda>(nb', s3, t3, i3). case nb' of None \<Rightarrow> P (False, s3, t3, i3)
      | Some b \<Rightarrow> rpost (commit_running x rid n b inputs nb external s3 t3) (\<lambda>(s4, t4). P (True, s4, t4, i3 + 1))))"
    if "E ((inputs, n1, nb, external), s2)" for inputs n1 nb external s2
    by (rule rpost_conseq [OF assms(4) [OF that]]) (use assms(5) alloc in auto)
  show ?thesis
  proof (cases "reached_max_tokens (objs s1 rid)")
    case True
    then show ?thesis using assms(2) by (simp add: run_one_def assms(1) [symmetric])
  next
    case False
    show ?thesis
      unfolding run_one_def assms(1) [symmetric] Let_def if_not_P [OF False] rpost_rbind
    proof (rule rpost_conseq [OF assms(3)], clarify)
      fix inputs n1 nb external s2
      assume "E ((inputs, n1, nb, external), s2)"
      from mamba [OF this]
      show "rpost (rbind (if need_mamba_block_aligned_split c then mamba_block_aligned_split c (objs s1 rid) n1 0 0
            else Inr n1) (\<lambda>n. if n = 0 then Inr (True, s2, t, i + 1)
          else rbind (alloc_loop c now rid n s2 t i) (\<lambda>(nb', s3, t3, i3). case nb' of None \<Rightarrow> Inr (False, s3, t3, i3)
            | Some b \<Rightarrow> rbind (commit_running x rid n b inputs nb external s3 t3)
                (\<lambda>(s4, t4). Inr (True, s4, t4, i3 + 1))))) P"
        unfolding rpost_rbind by (rule rpost_conseq) (simp split: if_splits cong: option.case_cong)
    qed
  qed
qed

lemma run_one_advances:
  "rpost (run_one x c now k rid s t i) (\<lambda>(go, s', t', i'). go \<longrightarrow> len (running s') - i' < len (running s) - i)"
proof (rule run_one_rule [OF refl, where E = "\<lambda>(_, s2). running s2 = running s"
      and M = "\<lambda>_ _ _ s2 _. running s2 = running s"
      and A = "\<lambda>_ _ _ _ (_, s3, t3, i3). len (running s3) - i3 \<le> len (running s) - i"])
  fix s2 :: "'a Scheduler" and n assume "running s2 = running s"
  then show "rpost (alloc_loop c now rid n s2 t i) (\<lambda>(_, s3, t3, i3). len (running s3) - i3 \<le> len (running s) - i)"
    by (intro rpost_conseq [OF alloc_loop_running]) auto
next
  fix inputs nb external n i3 and b :: KVCacheBlocks and s3 :: "'a Scheduler" and t3 :: sched_step
  assume "case (Some b, s3, t3, i3) of (_, s3, t3, i3) \<Rightarrow> len (running s3) - i3 \<le> len (running s) - i"
  then show "rpost (commit_running x rid n b inputs nb external s3 t3)
      (\<lambda>(s4, t4). case (True, s4, t4, i3 + 1) of (go, s', t', i') \<Rightarrow> go \<longrightarrow> len (running s') - i' < len (running s) - i)"
    by (auto intro!: rpost_conseq [OF commit_running_running])
qed (auto intro!: rpost_conseq [OF try_schedule_running])

function running_loop ::
    "'e externals \<Rightarrow> sched_config \<Rightarrow> rat \<Rightarrow> int \<Rightarrow> 'e Scheduler \<Rightarrow> sched_step \<Rightarrow> int
     \<Rightarrow> ('e Scheduler \<times> sched_step) res" where
  "running_loop x c now step_active_k s t req_index =
     (if req_index < len (running s) \<and> token_budget t > 0
      then rbind (py_get (running s) req_index) (\<lambda>rid.
           rbind (run_one x c now step_active_k rid s t req_index) (\<lambda>(go, s', t', req_index').
           if go then running_loop x c now step_active_k s' t' req_index' else Inr (s', t')))
      else Inr (s, t))"
  by pat_completeness auto
termination
  by (relation "measure (\<lambda>(x, c, now, k, s, t, i). nat (len (running s) - i))")
    (auto dest!: rpostD [OF run_one_advances])

declare running_loop.simps [simp del]

lemma running_loop_rule:
  assumes "I s t i" and fin: "\<And>s t i. I s t i \<Longrightarrow> P (s, t)"
    and step: "\<And>s t i rid. I s t i \<Longrightarrow> i < len (running s) \<Longrightarrow> py_get (running s) i = Inr rid \<Longrightarrow>
      rpost (run_one x c now k rid s t i) (\<lambda>(go, s', t', i'). I s' t' i')"
  shows "rpost (running_loop x c now k s t i) P"
  using assms(1)
proof (induction "nat (len (running s) - i)" arbitrary: s t i rule: less_induct)
  case less
  show ?case
  proof (cases "i < len (running s) \<and> token_budget t > 0")
    case True
    have "rpost (run_one x c now k rid s t i) (\<lambda>(go, s', t', i').
        rpost (if go then running_loop x c now k s' t' i' else Inr (s', t')) P)"
      if "py_get (running s) i = Inr rid" for rid
      by (rule rpost_conseq [OF rpost_conj [OF run_one_advances step [OF less.prems conjunct1 [OF True] that]]])
        (use less.hyps fin True in auto)
    then have "rpost (py_get (running s) i) (\<lambda>rid. rpost (run_one x c now k rid s t i) (\<lambda>(go, s', t', i').
        rpost (if go then running_loop x c now k s' t' i' else Inr (s', t')) P))" by (rule rpostI)
    then show ?thesis
      unfolding running_loop.simps [of x c now k s t i] if_P [OF True] rpost_rbind rpost_case_prod .
  next
    case False
    show ?thesis
      unfolding running_loop.simps [of x c now k s t i] if_not_P [OF False] rpost_simps by (rule fin [OF less.prems])
  qed
qed

section \<open>The waiting requests\<close>

definition update_waiting_for_remote_kv ::
    "'e externals \<Rightarrow> sched_config \<Rightarrow> string \<Rightarrow> 'e Scheduler \<Rightarrow> 'e Scheduler res" where
  "update_waiting_for_remote_kv x c rid s =
     py_assert (has_connector x)
      (let r = objs s rid in
       rbind (if rid \<in> failed_recving_kv_req_ids s
              then rbind (if num_computed_tokens r \<noteq> 0
                          then rbind (kvm_cache_blocks (hashing c) (kv_cache_manager s) r (num_computed_tokens r))
                                 (\<lambda>(r', k). Inr (s\<lparr>kv_cache_manager := k, objs := (objs s)(rid := r')\<rparr>))
                          else rbind (kvm_free (kv_cache_manager s) r) (\<lambda>k. Inr (s\<lparr>kv_cache_manager := k\<rparr>)))
                     (\<lambda>s1. Inr (s1\<lparr>failed_recving_kv_req_ids := failed_recving_kv_req_ids s1 - {rid}\<rparr>))
              else rbind (kvm_cache_blocks (hashing c) (kv_cache_manager s) r (num_computed_tokens r)) (\<lambda>(r', k).
                   Inr (s\<lparr>kv_cache_manager := k,
                          objs := (objs s)(rid := (if num_computed_tokens r' = num_tokens r'
                            then r'\<lparr>num_computed_tokens := num_tokens r' - 1\<rparr> else r'))\<rparr>))) (\<lambda>s2.
       py_raise_if (rid \<notin> finished_recving_kv_req_ids s2) KeyError
        (Inr (s2\<lparr>finished_recving_kv_req_ids := finished_recving_kv_req_ids s2 - {rid}\<rparr>))))"

definition try_promote_blocked_waiting_request ::
    "'e externals \<Rightarrow> sched_config \<Rightarrow> string \<Rightarrow> 'e Scheduler \<Rightarrow> (bool \<times> 'e Scheduler) res" where
  "try_promote_blocked_waiting_request x c rid s =
     (case status (objs s rid) of
        WAITING_FOR_REMOTE_KVS \<Rightarrow>
          (if rid \<notin> finished_recving_kv_req_ids s then Inr (False, s)
           else rbind (update_waiting_for_remote_kv x c rid s) (\<lambda>s1.
             Inr (True, upd_req rid (\<lambda>r. r\<lparr>status := (if num_preemptions r \<noteq> 0 then PREEMPTED else WAITING)\<rparr>) s1)))
      | WAITING_FOR_STRUCTURED_OUTPUT_GRAMMAR \<Rightarrow>
          (if \<not> (use_structured_output (objs s rid) \<and> grammar_ready x (objs s rid) (ext s)) then Inr (False, s)
           else Inr (True, upd_req rid (\<lambda>r. r\<lparr>status := WAITING\<rparr>) s))
      | WAITING_FOR_STREAMING_REQ \<Rightarrow>
          py_assert (case streaming_queue (objs s rid) of None \<Rightarrow> True | Some q \<Rightarrow> q = []) (Inr (False, s))
      | _ \<Rightarrow> Inl AssertionError)"

text \<open>What is known to be computed for a request at the head of the queue: its cached blocks, the
  numbers of tokens cached locally and externally, whether these are loaded asynchronously,
  and the total; \<open>None\<close> when the connector cannot tell yet.\<close>

type_synonym computed_info = "KVCacheBlocks \<times> int \<times> int \<times> bool \<times> int \<times> int"

definition lookup_computed ::
    "'e externals \<Rightarrow> string \<Rightarrow> 'e Scheduler \<Rightarrow> (computed_info option \<times> 'e Scheduler) res" where
  "lookup_computed x rid s =
     (if num_computed_tokens (objs s rid) = 0
      then
        rbind (get_computed_blocks (kv_cache_manager s) (objs s rid)) (\<lambda>(cblocks, num_local, k).
        let s1 = s\<lparr>kv_cache_manager := k\<rparr>; r = objs s1 rid;
            answer = (if has_connector x then get_num_new_matched_tokens x r num_local (ext s1)
                      else ((Some 0, False), ext s1))
        in case answer of ((ext_tokens, load_kv_async), e) \<Rightarrow>
           let s2 = s1\<lparr>ext := e\<rparr> in
           case ext_tokens of
             None \<Rightarrow> Inr (None, s2)
           | Some num_external \<Rightarrow>
               py_assert (num_local + num_external \<le> num_tokens r)
                (rbind (case prefill_stats r of
                          None \<Rightarrow> Inr s2
                        | Some _ \<Rightarrow> py_assert (num_local + num_external \<le> num_prompt_tokens r)
                            (rbind (prefill_stats_set (num_prompt_tokens r) num_local num_external) (\<lambda>ps.
                             Inr (upd_req rid (\<lambda>r. r\<lparr>prefill_stats := Some ps\<rparr>) s2)))) (\<lambda>s3.
                 Inr (Some (cblocks, num_local, num_external, load_kv_async, num_local + num_external,
                            if has_connector x then num_tokens r - num_local else 0), s3))))
      else Inr (Some (EmptyBlocks (num_kv_cache_groups (kv_cache_manager s)), 0, 0, False,
                      num_computed_tokens (objs s rid), 0), s))"

text \<open>How many tokens of a waiting request to schedule, with its encoder inputs; \<open>None\<close> ends the
  loop over the waiting requests.\<close>

definition plan_waiting ::
    "'e externals \<Rightarrow> sched_config \<Rightarrow> string \<Rightarrow> computed_info \<Rightarrow> 'e Scheduler \<Rightarrow> sched_step
     \<Rightarrow> ((int list \<times> int \<times> int \<times> int list) option \<times> 'e Scheduler) res" where
  "plan_waiting x c rid info s t =
     (case info of (cblocks, num_local, num_external, load_kv_async, computed, queries) \<Rightarrow>
      let r = objs s rid in
      rbind (if load_kv_async
             then py_assert (num_external > 0) (Inr (Some ([], 0, encoder_compute_budget t, []), s))
             else
               let n0 = num_tokens r - computed; thr = long_prefill_token_threshold c;
                   n1 = (if 0 < thr \<and> thr < n0 then thr else n0)
               in if \<not> enable_chunked_prefill c \<and> n1 > token_budget t then Inr (None, s)
                  else
                    let n2 = min n1 (token_budget t) in
                    py_assert (n2 > 0)
                     (if has_encoder_inputs r
                      then rbind (try_schedule_encoder_inputs x c r computed n2 (encoder_compute_budget t)
                                    (if use_eagle c then 1 else 0) s) (\<lambda>((inputs, n3, nb, external), s1).
                           Inr (if n3 = 0 then None else Some (inputs, n3, nb, external), s1))
                      else Inr (Some ([], n2, encoder_compute_budget t, []), s))) (\<lambda>(p, s1).
      case p of
        None \<Rightarrow> Inr (None, s1)
      | Some (inputs, n, nb, external) \<Rightarrow>
          if need_mamba_block_aligned_split c
          then rbind (mamba_block_aligned_split c (objs s1 rid) n num_local num_external) (\<lambda>n'.
               Inr (if n' = 0 then None else Some (inputs, n', nb, external), s1))
          else Inr (p, s1)))"

definition skip_waiting ::
    "which_queue \<Rightarrow> string \<Rightarrow> 'e Scheduler \<Rightarrow> sched_step \<Rightarrow> string RequestQueue
     \<Rightarrow> (bool \<times> 'e Scheduler \<times> sched_step \<times> string RequestQueue) res" where
  "skip_waiting w rid s t sq =
     rbind (pop_request (req_lt s) (queue_of w s)) (\<lambda>(_, q).
     Inr (True, set_queue w q s, t, prepend_request (req_lt s) rid sq))"

definition exceeds_max_loras :: "sched_config \<Rightarrow> Request \<Rightarrow> sched_step \<Rightarrow> bool" where
  "exceeds_max_loras c r t \<longleftrightarrow>
     (case (max_loras c, lora_request r) of
        (Some m, Some l) \<Rightarrow> int (card (scheduled_loras t)) = m \<and> adapter_id l \<notin> scheduled_loras t
      | _ \<Rightarrow> False)"

text \<open>Giving up on a request for which no slots are left ends the loop.\<close>

definition give_up_waiting ::
    "string \<Rightarrow> 'e Scheduler \<Rightarrow> sched_step \<Rightarrow> string RequestQueue
     \<Rightarrow> (bool \<times> 'e Scheduler \<times> sched_step \<times> string RequestQueue) res" where
  "give_up_waiting rid s t sq =
     (if has_encoder_inputs (objs s rid)
      then rbind (enc_free (objs s rid) (encoder_cache_manager s)) (\<lambda>m.
           Inr (False, s\<lparr>encoder_cache_manager := m\<rparr>, t, sq))
      else Inr (False, s, t, sq))"

definition start_waiting ::
    "'e externals \<Rightarrow> sched_config \<Rightarrow> rat \<Rightarrow> string \<Rightarrow> int \<Rightarrow> int \<Rightarrow> int list \<Rightarrow> int \<Rightarrow> int list \<Rightarrow> 'e Scheduler
     \<Rightarrow> sched_step \<Rightarrow> ('e Scheduler \<times> sched_step) res" where
  "start_waiting x c now rid num_new computed inputs new_budget external s t =
     (let s1 = s\<lparr>running := running s @ [rid]\<rparr>;
          s2 = (if log_stats c then upd_req rid (record_event EV_SCHEDULED now) s1 else s1);
          r = objs s2 rid
      in rbind (if status r = WAITING then Inr (t\<lparr>new_reqs := new_reqs t @ [rid]\<rparr>)
                else if status r = PREEMPTED then Inr (t\<lparr>resumed_reqs := resumed_reqs t @ [rid]\<rparr>)
                else Inl RuntimeError) (\<lambda>t1.
         let t2 = (case (max_loras c, lora_request r) of
                     (Some m, Some l) \<Rightarrow> t1\<lparr>scheduled_loras := insert (adapter_id l) (scheduled_loras t1)\<rparr>
                   | _ \<Rightarrow> t1);
             t3 = t2\<lparr>req_to_new_blocks := (req_to_new_blocks t2)(rid \<mapsto> get_blocks (kv_cache_manager s2) rid),
                     step_tokens := AList.update rid num_new (step_tokens t2),
                     token_budget := token_budget t2 - num_new\<rparr>;
             s3 = upd_req rid (\<lambda>r. r\<lparr>status := RUNNING, num_computed_tokens := computed\<rparr>) s2
         in commit_encoder_inputs x rid inputs new_budget external s3 t3))"

definition num_encoder_tokens_for :: "sched_config \<Rightarrow> Request \<Rightarrow> int list \<Rightarrow> int res" where
  "num_encoder_tokens_for c r inputs =
     (if is_encoder_decoder c \<and> has_encoder_inputs r \<and> inputs \<noteq> []
      then rbind (rmap (\<lambda>i. get_num_encoder_embeds i r) inputs) (\<lambda>es. Inr (sum_list es))
      else Inr 0)"

definition tell_connector ::
    "'e externals \<Rightarrow> string \<Rightarrow> int \<Rightarrow> int \<Rightarrow> 'e Scheduler \<Rightarrow> 'e Scheduler" where
  "tell_connector x rid num_external queries s =
     (if has_connector x
      then
        let s1 = s\<lparr>ext := update_state_after_alloc x (objs s rid) (get_blocks (kv_cache_manager s) rid)
                    num_external (ext s)\<rparr>
        in if queries \<noteq> 0
           then s1\<lparr>connector_prefix_cache_stats := map_option
                  (stats_record queries num_external (num_preemptions (objs s rid) > 0))
                  (connector_prefix_cache_stats s1)\<rparr>
           else s1
      else s)"

text \<open>The request has slots: it leaves the queue to run, or to wait for its remote KV cache.\<close>

definition admit_waiting ::
    "'e externals \<Rightarrow> sched_config \<Rightarrow> rat \<Rightarrow> which_queue \<Rightarrow> string \<Rightarrow> computed_info \<Rightarrow> int list \<times> int \<times> int \<times> int list
     \<Rightarrow> 'e Scheduler \<Rightarrow> sched_step \<Rightarrow> string RequestQueue
     \<Rightarrow> (bool \<times> 'e Scheduler \<times> sched_step \<times> string RequestQueue) res" where
  "admit_waiting x c now w rid info plan s t sq =
     (case info of (cblocks, num_local, num_external, load_kv_async, computed, queries) \<Rightarrow>
      case plan of (inputs, num_new, new_budget, external) \<Rightarrow>
      let s1 = tell_connector x rid num_external queries s in
      rbind (pop_request (req_lt s1) (queue_of w s1)) (\<lambda>(rid', q).
      let s2 = set_queue w q s1 in
      if load_kv_async
      then let s3 = upd_req rid' (\<lambda>r. r\<lparr>status := WAITING_FOR_REMOTE_KVS\<rparr>) s2;
               sq' = prepend_request (req_lt s3) rid' sq
           in Inr (True, upd_req rid' (\<lambda>r. r\<lparr>num_computed_tokens := computed\<rparr>) s3, t, sq')
      else rbind (start_waiting x c now rid' num_new computed inputs new_budget external s2 t) (\<lambda>(s3, t3).
           Inr (True, s3, t3, sq))))"

definition allocate_waiting ::
    "'e externals \<Rightarrow> sched_config \<Rightarrow> rat \<Rightarrow> which_queue \<Rightarrow> string \<Rightarrow> computed_info \<Rightarrow> int list \<times> int \<times> int \<times> int list
     \<Rightarrow> 'e Scheduler \<Rightarrow> sched_step \<Rightarrow> string RequestQueue
     \<Rightarrow> (bool \<times> 'e Scheduler \<times> sched_step \<times> string RequestQueue) res" where
  "allocate_waiting x c now w rid info plan s t sq =
     (case info of (cblocks, num_local, num_external, load_kv_async, computed, queries) \<Rightarrow>
      case plan of (inputs, num_new, new_budget, external) \<Rightarrow>
      let r = objs s rid; lookahead = (if num_computed_tokens r = 0 then 0 else num_lookahead_tokens c) in
      rbind (num_encoder_tokens_for c r inputs) (\<lambda>num_encoder.
      rbind (if scheduler_reserve_full_isl c
             then rbind (can_fit_full_sequence (kv_cache_manager s) r num_local (Some cblocks) num_external num_encoder)
                    (\<lambda>(ok, k). Inr (ok, s\<lparr>kv_cache_manager := k\<rparr>))
             else Inr (True, s)) (\<lambda>(fits, s1).
      if \<not> fits then give_up_waiting rid s1 t sq
      else
        rbind (allocate_slots (hashing c) (kv_cache_manager s1) (objs s1 rid) num_new num_local (Some cblocks)
                 lookahead num_external load_kv_async num_encoder) (\<lambda>(new_blocks, r', k).
        let s2 = s1\<lparr>kv_cache_manager := k, objs := (objs s1)(rid := r')\<rparr> in
        case new_blocks of
          None \<Rightarrow> give_up_waiting rid s2 t sq
        | Some _ \<Rightarrow> admit_waiting x c now w rid info plan s2 t sq))))"

definition wait_one ::
    "'e externals \<Rightarrow> sched_config \<Rightarrow> rat \<Rightarrow> 'e Scheduler \<Rightarrow> sched_step \<Rightarrow> string RequestQueue
     \<Rightarrow> (bool \<times> 'e Scheduler \<times> sched_step \<times> string RequestQueue) res" where
  "wait_one x c now s t sq =
     rbind (select_waiting_queue c s) (\<lambda>sel.
     case sel of
       None \<Rightarrow> Inl AssertionError
     | Some w \<Rightarrow>
         rbind (peek_request (queue_of w s)) (\<lambda>rid.
         rbind (if is_blocked_waiting_status (status (objs s rid))
                then try_promote_blocked_waiting_request x c rid s else Inr (True, s)) (\<lambda>(ready, s1).
         if \<not> ready \<or> exceeds_max_loras c (objs s1 rid) t then skip_waiting w rid s1 t sq
         else
           rbind (lookup_computed x rid s1) (\<lambda>(info, s2).
           case info of
             None \<Rightarrow> skip_waiting w rid s2 t sq
           | Some i \<Rightarrow>
               rbind (plan_waiting x c rid i s2 t) (\<lambda>(plan, s3).
               case plan of
                 None \<Rightarrow> Inr (False, s3, t, sq)
               | Some p \<Rightarrow> allocate_waiting x c now w rid i p s3 t sq)))))"

text \<open>Every round takes a request from a waiting queue or ends the loop.\<close>

definition num_queued :: "'e Scheduler \<Rightarrow> nat" where
  "num_queued s = length (queue_list (waiting s)) + length (queue_list (skipped_waiting s))"

lemma heappop_length: "heappop lt h = Inr (r, h') \<Longrightarrow> h \<noteq> [] \<and> length h = Suc (length h')"
proof -
  assume a: "heappop lt h = Inr (r, h')"
  then have ne: "h \<noteq> []" by (auto simp: heappop_def)
  then obtain b l where h: "h = b @ [l]" by (metis append_butlast_last_id)
  have "length (siftup lt 0 (b[0 := l])) = length b" if "b \<noteq> []"
    using siftup_mset [of 0 "b[0 := l]" lt] that by (metis length_greater_0_conv length_list_update size_mset)
  then show ?thesis using a h by (cases b) (auto simp: heappop_def Let_def)
qed

lemma pop_request_length:
  "rpost (pop_request lt q) (\<lambda>(r, q'). length (queue_list q) = Suc (length (queue_list q')))"
  by (cases q) (auto intro!: rpostI simp: rbind_eq_Inr dest!: heappop_length split: list.splits if_splits)

definition same_lists :: "'e Scheduler \<Rightarrow> 'e Scheduler \<Rightarrow> bool" where
  "same_lists s s' \<longleftrightarrow> requests s' = requests s \<and> running s' = running s \<and> waiting s' = waiting s \<and>
     skipped_waiting s' = skipped_waiting s"

lemma same_lists_refl [simp]: "same_lists s s"
  by (simp add: same_lists_def)

lemma same_lists_trans: "same_lists s s' \<Longrightarrow> same_lists s' s'' \<Longrightarrow> same_lists s s''"
  by (simp add: same_lists_def)

lemma same_lists_updates [simp]:
  "same_lists s (s'\<lparr>kv_cache_manager := k\<rparr>) = same_lists s s'"
  "same_lists s (s'\<lparr>encoder_cache_manager := m\<rparr>) = same_lists s s'"
  "same_lists s (s'\<lparr>objs := f\<rparr>) = same_lists s s'"
  "same_lists s (s'\<lparr>ext := e\<rparr>) = same_lists s s'"
  "same_lists s (s'\<lparr>failed_recving_kv_req_ids := i\<rparr>) = same_lists s s'"
  "same_lists s (s'\<lparr>finished_recving_kv_req_ids := i\<rparr>) = same_lists s s'"
  "same_lists s (s'\<lparr>connector_prefix_cache_stats := st\<rparr>) = same_lists s s'"
  "same_lists s (upd_req rid u s') = same_lists s s'"
  by (simp_all add: same_lists_def)

lemma promote_lists: "rpost (try_promote_blocked_waiting_request x c rid s) (\<lambda>(b, s'). same_lists s s')"
  by (simp add: try_promote_blocked_waiting_request_def update_waiting_for_remote_kv_def Let_def
      split: RequestStatus.split prod.split)

lemma lookup_lists: "rpost (lookup_computed x rid s) (\<lambda>(i, s'). same_lists s s')"
  by (simp add: lookup_computed_def Let_def split: prod.split option.split)

lemma try_schedule_lists: "rpost (try_schedule_encoder_inputs x c r a b d e s) (\<lambda>(res, s'). same_lists s s')"
  by (simp add: try_schedule_encoder_inputs_def)

lemma plan_lists: "rpost (plan_waiting x c rid i s t) (\<lambda>(p, s'). same_lists s s')"
  by (auto simp: plan_waiting_def Let_def split: prod.split option.split
      intro!: rpost_conseq [OF try_schedule_lists])

lemma commit_encoder_lists:
  "rpost (commit_encoder_inputs x rid inputs nb external s t) (\<lambda>(s', t'). same_lists s s')"
proof -
  have a: "rpost (allocate_encoder_inputs x rid is s1) (same_lists s)" if "same_lists s s1" for "is" s1
    unfolding allocate_encoder_inputs_def using that by (rule rpost_rfold) (simp add: Let_def)
  show ?thesis
    by (auto simp: commit_encoder_inputs_def intro!: rpost_conseq [OF a] a)
qed

lemma start_waiting_lists:
  "rpost (start_waiting x c now rid n computed inputs nb external s t) (\<lambda>(s', t').
     same_lists (s\<lparr>running := running s @ [rid]\<rparr>) s')"
  unfolding start_waiting_def Let_def
  by (auto intro!: rpost_conseq [OF commit_encoder_lists] elim!: same_lists_trans [rotated])

lemma tell_connector_lists [simp]: "same_lists s (tell_connector x rid n q s') = same_lists s s'"
  by (simp add: tell_connector_def Let_def)

lemma pop_num_queued:
  "rpost (pop_request lt (queue_of w s)) (\<lambda>(r, q). num_queued (set_queue w q s) < num_queued s)"
  by (rule rpost_conseq [OF pop_request_length]) (cases w; auto simp: num_queued_def)

lemma same_lists_queued: "same_lists s s' \<Longrightarrow> num_queued s' = num_queued s \<and> queue_of w s' = queue_of w s"
  by (cases w) (simp_all add: same_lists_def num_queued_def)

lemma skip_waiting_advances:
  "same_lists s s' \<Longrightarrow> rpost (skip_waiting w rid s' t sq) (\<lambda>(go, s2, t2, sq2). num_queued s2 < num_queued s)"
  using same_lists_queued [of s s' w] pop_num_queued [of "req_lt s'" w s']
  by (auto simp: skip_waiting_def elim!: rpost_conseq)

lemma admit_waiting_advances:
  assumes "same_lists s s'"
  shows "rpost (admit_waiting x c now w rid info plan s' t sq) (\<lambda>(go, s2, t2, sq2). num_queued s2 < num_queued s)"
proof -
  obtain cb nl ne la comp q where info: "info = (cb, nl, ne, la, comp, q)" by (cases info) auto
  obtain inputs n nb ex where plan: "plan = (inputs, n, nb, ex)" by (cases plan) auto
  let ?s1 = "tell_connector x rid ne q s'"
  have e: "num_queued ?s1 = num_queued s" using same_lists_queued [of s ?s1] assms by simp
  have st: "rpost (start_waiting x c now rid' n comp inputs nb ex (set_queue w qq ?s1) t)
      (\<lambda>(s3, t3). num_queued s3 < num_queued s)" if "num_queued (set_queue w qq ?s1) < num_queued s" for qq rid'
    by (rule rpost_conseq [OF start_waiting_lists]) (use that in \<open>auto simp: same_lists_def num_queued_def\<close>)
  have up: "num_queued (upd_req r f u) = num_queued u" for r f and u :: "'a Scheduler"
    by (simp add: num_queued_def)
  show ?thesis
    unfolding admit_waiting_def info plan prod.case Let_def rpost_rbind
    by (rule rpost_conseq [OF pop_num_queued]) (use e st up in \<open>auto elim!: rpost_conseq\<close>)
qed

text \<open>Rules for one round of the waiting loop: \<open>F\<close> holds of the request at the head of the chosen
  queue, \<open>G\<close> once it is known to be ready, \<open>L\<close> and \<open>A\<close> after the cache lookup and the plan.\<close>

lemma wait_one_rule:
  assumes head: "\<And>w rid. select_waiting_queue c s = Inr (Some w) \<Longrightarrow> peek_request (queue_of w s) = Inr rid \<Longrightarrow> F w rid s"
    and promote: "\<And>w rid. F w rid s \<Longrightarrow> is_blocked_waiting_status (status (objs s rid)) \<Longrightarrow>
      rpost (try_promote_blocked_waiting_request x c rid s) (\<lambda>(ready, s1). if ready then G w rid s1 else F w rid s1)"
    and ready: "\<And>w rid. F w rid s \<Longrightarrow> \<not> is_blocked_waiting_status (status (objs s rid)) \<Longrightarrow> G w rid s"
    and GF: "\<And>w rid s1. G w rid s1 \<Longrightarrow> F w rid s1"
    and skip: "\<And>w rid s1. F w rid s1 \<Longrightarrow> rpost (skip_waiting w rid s1 t sq) P"
    and look: "\<And>w rid s1. G w rid s1 \<Longrightarrow>
      rpost (lookup_computed x rid s1) (\<lambda>(info, s2). case info of None \<Rightarrow> F w rid s2 | Some i \<Rightarrow> L w rid i s2)"
    and plan: "\<And>w rid i s2. L w rid i s2 \<Longrightarrow>
      rpost (plan_waiting x c rid i s2 t) (\<lambda>(plan, s3). case plan of None \<Rightarrow> P (False, s3, t, sq) | Some p \<Rightarrow> A w rid i p s3)"
    and alloc: "\<And>w rid i p s3. A w rid i p s3 \<Longrightarrow> rpost (allocate_waiting x c now w rid i p s3 t sq) P"
  shows "rpost (wait_one x c now s t sq) P"
proof -
  have plan': "rpost (plan_waiting x c rid i s2 t) (\<lambda>(plan, s3). rpost (case plan of None \<Rightarrow> Inr (False, s3, t, sq)
      | Some p \<Rightarrow> allocate_waiting x c now w rid i p s3 t sq) P)" if "L w rid i s2" for w rid i s2
    by (rule rpost_conseq [OF plan [OF that]]) (auto intro!: alloc split: option.splits)
  have look': "rpost (lookup_computed x rid s1) (\<lambda>(info, s2). rpost (case info of None \<Rightarrow> skip_waiting w rid s2 t sq
      | Some i \<Rightarrow> rbind (plan_waiting x c rid i s2 t) (\<lambda>(plan, s3). case plan of None \<Rightarrow> Inr (False, s3, t, sq)
      | Some p \<Rightarrow> allocate_waiting x c now w rid i p s3 t sq)) P)" if "G w rid s1" for w rid s1
    by (rule rpost_conseq [OF look [OF that]])
      (auto intro!: skip rpost_conseq [OF plan'] split: option.splits simp del: rpost_case_option)
  have go: "rpost (if \<not> rdy \<or> exceeds_max_loras c (objs s1 rid) t then skip_waiting w rid s1 t sq
      else rbind (lookup_computed x rid s1) (\<lambda>(info, s2). case info of None \<Rightarrow> skip_waiting w rid s2 t sq
      | Some i \<Rightarrow> rbind (plan_waiting x c rid i s2 t) (\<lambda>(plan, s3). case plan of None \<Rightarrow> Inr (False, s3, t, sq)
      | Some p \<Rightarrow> allocate_waiting x c now w rid i p s3 t sq))) P"
    if "if rdy then G w rid s1 else F w rid s1" for rdy w rid s1
    using that GF skip
    by (auto simp del: rpost_case_option rpost_case_prod intro!: rpost_conseq [OF look'] split: prod.splits if_splits)
  have prom: "rpost (if is_blocked_waiting_status (status (objs s rid))
      then try_promote_blocked_waiting_request x c rid s else Inr (True, s)) (\<lambda>(rdy, s1). if rdy then G w rid s1 else F w rid s1)"
    if "F w rid s" for w rid
    using promote [OF that] ready [OF that] by auto
  show ?thesis
    unfolding wait_one_def rpost_rbind
  proof (rule rpostI)
    fix sel assume sel: "select_waiting_queue c s = Inr sel"
    show "rpost (case sel of None \<Rightarrow> Inl AssertionError | Some w \<Rightarrow>
         rbind (peek_request (queue_of w s)) (\<lambda>rid.
         rbind (if is_blocked_waiting_status (status (objs s rid))
                then try_promote_blocked_waiting_request x c rid s else Inr (True, s)) (\<lambda>(ready, s1).
         if \<not> ready \<or> exceeds_max_loras c (objs s1 rid) t then skip_waiting w rid s1 t sq
         else rbind (lookup_computed x rid s1) (\<lambda>(info, s2). case info of None \<Rightarrow> skip_waiting w rid s2 t sq
           | Some i \<Rightarrow> rbind (plan_waiting x c rid i s2 t) (\<lambda>(plan, s3). case plan of None \<Rightarrow> Inr (False, s3, t, sq)
               | Some p \<Rightarrow> allocate_waiting x c now w rid i p s3 t sq))))) P"
    proof (cases sel)
      case (Some w)
      show ?thesis
        unfolding Some option.case rpost_rbind
        by (rule rpostI, rule rpost_conseq [OF prom [OF head [OF sel [unfolded Some]]]], assumption)
          (clarify, erule go)
    qed simp
  qed
qed

lemma allocate_waiting_rule:
  assumes start: "A s"
    and fit: "\<And>k. A (s\<lparr>kv_cache_manager := k\<rparr>)"
    and slots: "\<And>s1 n nl b la ne as en nb r k. A s1 \<Longrightarrow> allocate_slots (hashing c) (kv_cache_manager s1) (objs s1 rid)
      n nl b la ne as en = Inr (nb, r, k) \<Longrightarrow> A (s1\<lparr>kv_cache_manager := k, objs := (objs s1)(rid := r)\<rparr>)"
    and give_up: "\<And>s1. A s1 \<Longrightarrow> rpost (give_up_waiting rid s1 t sq) P"
    and admit: "\<And>s1. A s1 \<Longrightarrow> rpost (admit_waiting x c now w rid info plan s1 t sq) P"
  shows "rpost (allocate_waiting x c now w rid info plan s t sq) P"
proof -
  obtain cb nl ne la comp q where info: "info = (cb, nl, ne, la, comp, q)" by (cases info) auto
  obtain inputs n nb ex where plan: "plan = (inputs, n, nb, ex)" by (cases plan) auto
  have slots': "rpost (allocate_slots (hashing c) (kv_cache_manager s1) (objs s1 rid) n nl (Some cb) lk ne la en)
      (\<lambda>(new_blocks, r', k). rpost (case new_blocks of
          None \<Rightarrow> give_up_waiting rid (s1\<lparr>kv_cache_manager := k, objs := (objs s1)(rid := r')\<rparr>) t sq
        | Some _ \<Rightarrow> admit_waiting x c now w rid info plan (s1\<lparr>kv_cache_manager := k, objs := (objs s1)(rid := r')\<rparr>) t sq) P)"
    if "A s1" for s1 lk en
    by (rule rpostI) (auto dest!: slots [OF that] intro!: give_up admit split: option.splits)
  have fits: "rpost (if scheduler_reserve_full_isl c
      then rbind (can_fit_full_sequence (kv_cache_manager s) r nl (Some cb) ne en) (\<lambda>(ok, k). Inr (ok, s\<lparr>kv_cache_manager := k\<rparr>))
      else Inr (True, s)) (\<lambda>(ok, s1). A s1)" for r en
    using start fit by (auto intro!: rpostI)
  have go: "rpost (if \<not> ok then give_up_waiting rid s1 t sq
      else rbind (allocate_slots (hashing c) (kv_cache_manager s1) (objs s1 rid) n nl (Some cb) lk ne la en)
      (\<lambda>(new_blocks, r', k). case new_blocks of
          None \<Rightarrow> give_up_waiting rid (s1\<lparr>kv_cache_manager := k, objs := (objs s1)(rid := r')\<rparr>) t sq
        | Some _ \<Rightarrow> admit_waiting x c now w rid info plan (s1\<lparr>kv_cache_manager := k, objs := (objs s1)(rid := r')\<rparr>) t sq)) P"
    if "A s1" for ok s1 lk en
    using that give_up
    by (auto simp del: rpost_case_option rpost_case_prod intro!: rpost_conseq [OF slots'] split: prod.splits)
  show ?thesis
    unfolding allocate_waiting_def info plan prod.case Let_def rpost_rbind
    by (rule rpostI, rule rpost_conseq [OF fits]) (clarify, erule go [unfolded info plan])
qed

lemma wait_one_advances:
  "rpost (wait_one x c now s t sq) (\<lambda>(go, s', t', sq'). go \<longrightarrow> num_queued s' < num_queued s)"
proof (rule wait_one_rule [where F = "\<lambda>_ _. same_lists s" and G = "\<lambda>_ _. same_lists s" and L = "\<lambda>_ _ _. same_lists s"
      and A = "\<lambda>_ _ _ _. same_lists s"])
  fix w rid i p s1 assume s1: "same_lists s s1"
  show "rpost (skip_waiting w rid s1 t sq) (\<lambda>(go, s', t', sq'). go \<longrightarrow> num_queued s' < num_queued s)"
    by (rule rpost_conseq [OF skip_waiting_advances [OF s1]]) auto
  show "rpost (lookup_computed x rid s1) (\<lambda>(info, s2). case info of None \<Rightarrow> same_lists s s2 | Some i \<Rightarrow> same_lists s s2)"
    by (rule rpost_conseq [OF lookup_lists]) (use same_lists_trans [OF s1] in \<open>auto split: option.split\<close>)
  show "rpost (plan_waiting x c rid i s1 t) (\<lambda>(plan, s3). case plan of
      None \<Rightarrow> case (False, s3, t, sq) of (go, s', t', sq') \<Rightarrow> go \<longrightarrow> num_queued s' < num_queued s | Some p \<Rightarrow> same_lists s s3)"
    by (rule rpost_conseq [OF plan_lists]) (use same_lists_trans [OF s1] in \<open>auto split: option.split\<close>)
  show "rpost (allocate_waiting x c now w rid i p s1 t sq) (\<lambda>(go, s', t', sq'). go \<longrightarrow> num_queued s' < num_queued s)"
  proof (rule allocate_waiting_rule [where A = "same_lists s"])
    fix s2 assume s2: "same_lists s s2"
    show "rpost (admit_waiting x c now w rid i p s2 t sq) (\<lambda>(go, s', t', sq'). go \<longrightarrow> num_queued s' < num_queued s)"
      by (rule rpost_conseq [OF admit_waiting_advances [OF s2]]) auto
  qed (use s1 in \<open>simp_all add: give_up_waiting_def\<close>)
qed (auto intro!: rpost_conseq [OF promote_lists])

function waiting_loop ::
    "'e externals \<Rightarrow> sched_config \<Rightarrow> rat \<Rightarrow> 'e Scheduler \<Rightarrow> sched_step \<Rightarrow> string RequestQueue
     \<Rightarrow> ('e Scheduler \<times> sched_step \<times> string RequestQueue) res" where
  "waiting_loop x c now s t sq =
     (if (queue_bool (waiting s) \<or> queue_bool (skipped_waiting s)) \<and> token_budget t > 0 \<and>
         len (running s) \<noteq> max_num_running_reqs c
      then rbind (wait_one x c now s t sq) (\<lambda>(go, s', t', sq').
           if go then waiting_loop x c now s' t' sq' else Inr (s', t', sq'))
      else Inr (s, t, sq))"
  by pat_completeness auto
termination
  by (relation "measure (\<lambda>(x, c, now, s, t, sq). num_queued s)") (auto dest!: rpostD [OF wait_one_advances])

declare waiting_loop.simps [simp del]

lemma waiting_loop_rule:
  assumes "I s t sq"
    and step: "\<And>s t sq. I s t sq \<Longrightarrow> len (running s) \<noteq> max_num_running_reqs c \<Longrightarrow>
      rpost (wait_one x c now s t sq) (\<lambda>(go, s', t', sq'). I s' t' sq')"
  shows "rpost (waiting_loop x c now s t sq) (\<lambda>(s', t', sq'). I s' t' sq')"
  using assms(1)
proof (induction "num_queued s" arbitrary: s t sq rule: less_induct)
  case less
  let ?g = "(queue_bool (waiting s) \<or> queue_bool (skipped_waiting s)) \<and> token_budget t > 0 \<and>
         len (running s) \<noteq> max_num_running_reqs c"
  show ?case
  proof (cases ?g)
    case True
    have "rpost (wait_one x c now s t sq) (\<lambda>(go, s', t', sq').
        rpost (if go then waiting_loop x c now s' t' sq' else Inr (s', t', sq')) (\<lambda>(s', t', sq'). I s' t' sq'))"
      by (rule rpost_conseq [OF rpost_conj [OF wait_one_advances step [OF less.prems]]])
        (use less.hyps True in auto)
    then show ?thesis
      unfolding waiting_loop.simps [of x c now s t sq] if_P [OF True] rpost_rbind rpost_case_prod .
  next
    case False
    show ?thesis
      unfolding waiting_loop.simps [of x c now s t sq] if_not_P [OF False] rpost_simps using less.prems by simp
  qed
qed

section \<open>The step\<close>

definition running_loras :: "sched_config \<Rightarrow> 'e Scheduler \<Rightarrow> sched_step \<Rightarrow> sched_step res" where
  "running_loras c s t =
     (case max_loras c of
        None \<Rightarrow> Inr t
      | Some m \<Rightarrow>
          let loras = set (concat (map (\<lambda>rid. case lora_request (objs s rid) of
                Some l \<Rightarrow> if adapter_id l > 0 then [adapter_id l] else [] | None \<Rightarrow> []) (running_reqs t)))
          in py_assert (int (card loras) \<le> m) (Inr (t\<lparr>scheduled_loras := loras\<rparr>)))"

definition schedule_requests ::
    "'e externals \<Rightarrow> sched_config \<Rightarrow> rat \<Rightarrow> 'e Scheduler \<Rightarrow> ('e Scheduler \<times> sched_step) res" where
  "schedule_requests x c now s =
     rbind (running_loop x c now (active_num_spec_tokens s)
              (s\<lparr>kv_cache_manager := kvm_new_step_starts (kv_cache_manager s)\<rparr>) (new_step c s) 0) (\<lambda>(s1, t1).
     rbind (running_loras c s1 t1) (\<lambda>t2.
       if preempted_reqs t2 = [] \<and> pause_state s1 = UNPAUSED
       then rbind (waiting_loop x c now s1 t2 (create_request_queue (policy c))) (\<lambda>(s2, t3, sq).
            Inr (if queue_bool sq
                 then s2\<lparr>skipped_waiting := prepend_requests (req_lt s2) sq (skipped_waiting s2)\<rparr> else s2, t3))
       else Inr (s1, t2)))"

definition spec_len :: "'e Scheduler \<Rightarrow> spec_list option \<Rightarrow> int" where
  "spec_len s l = (case l of None \<Rightarrow> 0 | Some (OwnTokens ts) \<Rightarrow> len ts
     | Some SharedPlaceholders \<Rightarrow> len (spec_token_placeholders s))"

definition block_ids_of :: "'e Scheduler \<Rightarrow> sched_step \<Rightarrow> bool \<Rightarrow> string \<Rightarrow> int list list option res" where
  "block_ids_of s t allow_none rid =
     (case req_to_new_blocks t rid of
        None \<Rightarrow> Inl KeyError
      | Some b \<Rightarrow> Inr (blocks_get_block_ids (kv_pool (kv_cache_manager s)) allow_none b))"

definition cached_one ::
    "sched_config \<Rightarrow> 'e Scheduler \<Rightarrow> sched_step \<Rightarrow> nat \<times> string \<Rightarrow> CachedRequestData \<Rightarrow> CachedRequestData res" where
  "cached_one c s t ir d =
     (case ir of (idx, rid) \<Rightarrow>
      let r = objs s rid; in_prev = (rid \<in> prev_step_scheduled_req_ids s) in
      rbind (if use_pp c \<and> \<not> async_scheduling c
             then (case map_of (step_tokens t) rid of
                     None \<Rightarrow> Inl KeyError
                   | Some n \<Rightarrow> Inr (cr_new_token_ids d @ [py_slice (all_token_ids r) (num_computed_tokens r)
                       (num_computed_tokens r + (n - spec_len s (step_spec_tokens t rid)))]))
             else Inr (cr_new_token_ids d)) (\<lambda>toks.
      py_assert (idx < length (running_reqs t) \<or> \<not> in_prev)
       (rbind (block_ids_of s t True rid) (\<lambda>ids.
        Inr \<lparr>cr_req_ids = cr_req_ids d @ [rid],
             cr_resumed_req_ids = (if idx \<ge> length (running_reqs t) then insert rid (cr_resumed_req_ids d)
                                   else cr_resumed_req_ids d),
             cr_new_token_ids = toks,
             cr_all_token_ids = (if in_prev then cr_all_token_ids d
                                 else (cr_all_token_ids d)(rid \<mapsto> all_token_ids r)),
             cr_new_block_ids = cr_new_block_ids d @ [ids],
             cr_num_computed_tokens = cr_num_computed_tokens d @ [num_computed_tokens r],
             cr_num_output_tokens = cr_num_output_tokens d @ [num_output_tokens r + num_output_placeholders r]\<rparr>))))"

definition make_cached_request_data :: "sched_config \<Rightarrow> 'e Scheduler \<Rightarrow> sched_step \<Rightarrow> CachedRequestData res" where
  "make_cached_request_data c s t =
     rfold (cached_one c s t) (enumerate 0 (running_reqs t @ resumed_reqs t))
       \<lparr>cr_req_ids = [], cr_resumed_req_ids = {}, cr_new_token_ids = [], cr_all_token_ids = Map.empty,
        cr_new_block_ids = [], cr_num_computed_tokens = [], cr_num_output_tokens = []\<rparr>"

definition new_request_data :: "sched_config \<Rightarrow> 'e Scheduler \<Rightarrow> sched_step \<Rightarrow> NewRequestData list res" where
  "new_request_data c s t =
     rmap (\<lambda>rid. rbind (block_ids_of s t False rid) (\<lambda>ids.
       Inr (NewRequestData_from_request (objs s rid) (case ids of Some b \<Rightarrow> b | None \<Rightarrow> [])
         (if use_v2_model_runner c then Some (all_token_ids (objs s rid)) else None)))) (new_reqs t)"

text \<open>\<open>_update_after_schedule\<close>, of the base class and of the asynchronous scheduler.\<close>

definition advance_computed ::
    "string \<times> int \<Rightarrow> 'e Scheduler \<times> SchedulerOutput \<Rightarrow> ('e Scheduler \<times> SchedulerOutput) res" where
  "advance_computed rn so =
     (case rn of (rid, n) \<Rightarrow> case so of (s, out) \<Rightarrow>
      py_raise_if (rid \<notin> set (requests s)) KeyError
       (let s1 = upd_req rid (\<lambda>r. let k = num_computed_tokens r + n in
                   r\<lparr>num_computed_tokens := k, is_prefill_chunk := k < num_tokens r + num_output_placeholders r\<rparr>) s;
            r = objs s1 rid
        in Inr (s1, out\<lparr>has_structured_output_requests := has_structured_output_requests out \<or>
                  use_structured_output r \<and> \<not> is_prefill_chunk r\<rparr>)))"

definition add_placeholders ::
    "string \<times> int \<Rightarrow> 'e Scheduler \<times> SchedulerOutput \<Rightarrow> ('e Scheduler \<times> SchedulerOutput) res" where
  "add_placeholders rn so =
     (case rn of (rid, n) \<Rightarrow> case so of (s, out) \<Rightarrow>
      py_raise_if (rid \<notin> set (requests s)) KeyError
       (let r = objs s rid in
        if is_prefill_chunk r then Inr (s, out)
        else Inr (share_placeholders rid (upd_req rid (\<lambda>r. r\<lparr>num_output_placeholders :=
                    num_output_placeholders r + 1 + spec_len s (scheduled_spec_decode_tokens out rid)\<rparr>) s),
                  out\<lparr>pending_structured_output_tokens := pending_structured_output_tokens out \<or>
                    use_structured_output r \<and> num_output_placeholders r > 0\<rparr>)))"

definition update_after_schedule ::
    "sched_config \<Rightarrow> 'e Scheduler \<Rightarrow> SchedulerOutput \<Rightarrow> ('e Scheduler \<times> SchedulerOutput) res" where
  "update_after_schedule c s out =
     rbind (rfold advance_computed (num_scheduled_tokens out) (s, out)) (\<lambda>(s1, out1).
     let s2 = s1\<lparr>finished_req_ids := {}\<rparr> in
     if async_scheduling c then rfold add_placeholders (num_scheduled_tokens out1) (s2, out1)
     else Inr (s2, out1))"

text \<open>The assertions that close the scheduling part of the method.\<close>

definition constraints_hold :: "sched_config \<Rightarrow> 'e Scheduler \<Rightarrow> sched_step \<Rightarrow> bool" where
  "constraints_hold c s t \<longleftrightarrow>
     sum_list (map snd (step_tokens t)) \<le> max_num_scheduled_tokens c \<and> 0 \<le> token_budget t \<and>
     len (running s) \<le> max_num_running_reqs c \<and>
     len (new_reqs t) + len (resumed_reqs t) + len (running_reqs t) \<le> len (running s)"

definition build_output ::
    "'e externals \<Rightarrow> sched_config \<Rightarrow> int \<Rightarrow> 'e Scheduler \<Rightarrow> sched_step \<Rightarrow> (SchedulerOutput \<times> 'e Scheduler) res" where
  "build_output x c step_active_k s t0 =
     rbind (case running s of
              [] \<Rightarrow> Inr (replicate (num_groups c) 0, s)
            | rid # _ \<Rightarrow> rbind (kvm_get_num_common_prefix_blocks (kv_cache_manager s) rid) (\<lambda>(ns, k).
                Inr (ns, s\<lparr>kv_cache_manager := k\<rparr>))) (\<lambda>(common, s1).
     let t = (if use_v2_model_runner c then t0\<lparr>new_reqs := new_reqs t0 @ resumed_reqs t0, resumed_reqs := []\<rparr> else t0) in
     rbind (new_request_data c s1 t) (\<lambda>new_data.
     rbind (make_cached_request_data c s1 t) (\<lambda>cached_data.
     let s2 = s1\<lparr>prev_step_scheduled_req_ids := set (map fst (step_tokens t))\<rparr>;
         (zero_ids, s3) = (if zeroing_needed c
           then (case kvm_take_new_block_ids (kv_cache_manager s2) of (ids, k) \<Rightarrow>
                   (if ids = [] then None else Some ids, s2\<lparr>kv_cache_manager := k\<rparr>))
           else (None, s2));
         (hashes, m) = enc_get_freed_mm_hashes (encoder_cache_manager s3);
         s4 = s3\<lparr>encoder_cache_manager := m\<rparr>;
         out = \<lparr>scheduled_new_reqs = new_data, scheduled_cached_reqs = cached_data,
                num_scheduled_tokens = step_tokens t,
                total_num_scheduled_tokens = sum_list (map snd (step_tokens t)),
                scheduled_spec_decode_tokens = step_spec_tokens t, out_active_num_spec_tokens = step_active_k,
                scheduled_encoder_inputs = step_encoder_inputs t, num_common_prefix_blocks = common,
                preempted_req_ids = set (preempted_reqs t), out_finished_req_ids = finished_req_ids s4,
                free_encoder_mm_hashes = hashes, new_block_ids_to_zero = zero_ids,
                has_structured_output_requests = False, pending_structured_output_tokens = False,
                num_invalid_spec_tokens = None\<rparr>;
         s5 = (if has_connector x then s4\<lparr>ext := build_connector_meta x out (ext s4)\<rparr> else s4);
         s6 = (if has_ec_connector x then s5\<lparr>ext := ec_build_connector_meta x out (ext s5)\<rparr> else s5)
     in rbind (update_after_schedule c s6 out) (\<lambda>(s7, out'). Inr (out', s7)))))"

definition schedule ::
    "'e externals \<Rightarrow> sched_config \<Rightarrow> rat \<Rightarrow> 'e Scheduler \<Rightarrow> (SchedulerOutput \<times> 'e Scheduler) res" where
  "schedule x c now s =
     rbind (schedule_requests x c now s) (\<lambda>(s1, t).
     py_assert (constraints_hold c s1 t) (build_output x c (active_num_spec_tokens s) s1 t))"

end
