(* ===== verification/SchedUpdate.thy ===== *)
theory SchedUpdate
  imports SchedStep
begin

text \<open>
  The other handlers of the scheduler (\<^verbatim>\<open>vllm/v1/core/sched/scheduler.py\<close>,
  \<^verbatim>\<open>async_scheduler.py\<close>): adding and finishing requests, streaming sessions, the update with
  the output of a step, failed KV loads, draft tokens, and resets.  Log probabilities, routed
  experts and performance counters are payload the scheduler passes through; they are left out.
\<close>

section \<open>Streaming sessions\<close>

definition shift_feature :: "int \<Rightarrow> MultiModalFeatureSpec \<Rightarrow> MultiModalFeatureSpec" where
  "shift_feature base f = f\<lparr>mm_position := (mm_position f)\<lparr>offset := offset (mm_position f) + base\<rparr>\<rparr>"

definition session_request :: "block_hasher option \<Rightarrow> StreamingUpdate \<Rightarrow> Request \<Rightarrow> Request res" where
  "session_request bh u r =
     (let n = num_computed_tokens r;
          kept = py_slice (all_token_ids r) (num_prompt_tokens r) n;
          toks = py_upto (all_token_ids r) n;
          more = (case su_prompt_token_ids u of Some p \<Rightarrow> p | None \<Rightarrow> [])
      in case prompt_token_ids r of
           None \<Rightarrow> Inl AssertionError
         | Some prompt \<Rightarrow>
             let prompt' = prompt @ kept @ more in
             rbind (update_block_hashes bh
               (r\<lparr>all_token_ids := toks @ more, output_token_ids := [], prompt_token_ids := Some prompt',
                  mm_features := mm_features r @ map (shift_feature (len toks)) (su_mm_features u)\<rparr>)) (\<lambda>r1.
             Inr (r1\<lparr>num_prompt_tokens := len prompt', arrival_time := su_arrival_time u,
                     sampling_params := su_sampling_params u\<rparr>)))"

definition update_request_as_session ::
    "sched_config \<Rightarrow> rat \<Rightarrow> string \<Rightarrow> StreamingUpdate \<Rightarrow> 'e Scheduler \<Rightarrow> 'e Scheduler res" where
  "update_request_as_session c now rid u s =
     rbind (session_request (hasher c) u (objs s rid)) (\<lambda>r.
     Inr (s\<lparr>objs := (objs s)(rid :=
              (if log_stats c then record_event EV_QUEUED now (r\<lparr>status := WAITING\<rparr>) else r\<lparr>status := WAITING\<rparr>)),
            num_waiting_for_streaming_input :=
              (if status r = WAITING_FOR_STREAMING_REQ then num_waiting_for_streaming_input s - 1
               else num_waiting_for_streaming_input s)\<rparr>))"

definition handle_stopped_request :: "sched_config \<Rightarrow> rat \<Rightarrow> string \<Rightarrow> 'e Scheduler \<Rightarrow> (bool \<times> 'e Scheduler) res" where
  "handle_stopped_request c now rid s =
     (if \<not> resumable (objs s rid) then Inr (True, s)
      else
        (case streaming_queue (objs s rid) of
           Some (update # rest) \<Rightarrow>
             let s1 = upd_req rid (\<lambda>r. r\<lparr>streaming_queue := Some rest\<rparr>) s in
             (case update of
                None \<Rightarrow> Inr (True, s1)
              | Some u \<Rightarrow> rbind (update_request_as_session c now rid u s1) (\<lambda>s2.
                  Inr (False, enqueue_waiting_request rid s2)))
         | _ \<Rightarrow>
             let s1 = upd_req rid (\<lambda>r. r\<lparr>status := WAITING_FOR_STREAMING_REQ\<rparr>) s in
             Inr (False, enqueue_waiting_request rid
               (s1\<lparr>num_waiting_for_streaming_input := num_waiting_for_streaming_input s1 + 1\<rparr>))))"

section \<open>Finishing and adding requests\<close>

definition unfinished :: "'e Scheduler \<Rightarrow> string \<Rightarrow> bool" where
  "unfinished s rid \<longleftrightarrow> (case requests_get rid s of None \<Rightarrow> False | Some r \<Rightarrow> \<not> is_finished r)"

definition finish_one ::
    "'e externals \<Rightarrow> sched_config \<Rightarrow> RequestStatus \<Rightarrow> string \<Rightarrow> 'e Scheduler \<Rightarrow> 'e Scheduler res" where
  "finish_one x c finished_status rid s =
     (let remote = (status (objs s rid) = WAITING_FOR_REMOTE_KVS);
          delay = (remote \<and> rid \<notin> finished_recving_kv_req_ids s);
          s1 = (if remote then s\<lparr>finished_recving_kv_req_ids := finished_recving_kv_req_ids s - {rid},
                                failed_recving_kv_req_ids := failed_recving_kv_req_ids s - {rid}\<rparr> else s)
      in rbind (free_request x c delay rid (upd_req rid (\<lambda>r. r\<lparr>status := finished_status\<rparr>) s1)) (\<lambda>(_, s2). Inr s2))"

definition finish_requests ::
    "'e externals \<Rightarrow> sched_config \<Rightarrow> string list option \<Rightarrow> RequestStatus \<Rightarrow> 'e Scheduler
     \<Rightarrow> ((string \<times> int) list \<times> 'e Scheduler) res" where
  "finish_requests x c request_ids finished_status s =
     py_assert (status_is_finished finished_status)
      (let ids = (case request_ids of Some is \<Rightarrow> remdups is | None \<Rightarrow> requests s);
           valid = filter (unfinished s) ids;
           run = filter (\<lambda>i. status (objs s i) = RUNNING) valid;
           wait = filter (\<lambda>i. status (objs s i) \<noteq> RUNNING) valid;
           streaming = filter (\<lambda>i. status (objs s i) = WAITING_FOR_STREAMING_REQ) wait;
           s1 = s\<lparr>num_waiting_for_streaming_input := num_waiting_for_streaming_input s - len streaming\<rparr>;
           s2 = (if run \<noteq> [] then s1\<lparr>running := remove_all (running s1) run\<rparr> else s1);
           s3 = (if wait \<noteq> []
                 then s2\<lparr>waiting := remove_requests (req_lt s2) wait (waiting s2),
                         skipped_waiting := remove_requests (req_lt s2) wait (skipped_waiting s2)\<rparr>
                 else s2)
       in rbind (rfold (finish_one x c finished_status) valid s3) (\<lambda>s4.
          Inr (map (\<lambda>i. (request_id (objs s4 i), client_index (objs s4 i))) valid, s4)))"

definition sched_add_request ::
    "'e externals \<Rightarrow> sched_config \<Rightarrow> rat \<Rightarrow> Request \<Rightarrow> 'e Scheduler \<Rightarrow> 'e Scheduler res" where
  "sched_add_request x c now r s =
     (let rid = request_id r in
      if rid \<in> set (requests s)
      then
        let update = StreamingUpdate_from_request r; existing = objs s rid in
        if status existing \<noteq> WAITING_FOR_STREAMING_REQ
        then (case streaming_queue existing of
                None \<Rightarrow> Inl AssertionError
              | Some q \<Rightarrow> Inr (upd_req rid (\<lambda>e. e\<lparr>streaming_queue := Some (q @ [update])\<rparr>) s))
        else (case update of
                Some u \<Rightarrow> update_request_as_session c now rid u s
              | None \<Rightarrow> rbind (finish_requests x c (Some [rid]) FINISHED_ABORTED s) (\<lambda>(_, s1). Inr s1))
      else
        let r1 = (if resumable r then r\<lparr>streaming_queue := Some []\<rparr> else r);
            s1 = enqueue_waiting_request rid (s\<lparr>objs := (objs s)(rid := r1)\<rparr>);
            s2 = s1\<lparr>requests := requests s1 @ [rid]\<rparr>
        in Inr (if log_stats c then upd_req rid (record_event EV_QUEUED now) s2 else s2))"

section \<open>Sampled tokens\<close>

text \<open>The loop over the sampled tokens returns the tokens that are kept and whether the request
  has stopped.\<close>

fun append_tokens ::
    "block_hasher option \<Rightarrow> int \<Rightarrow> int list \<Rightarrow> int list \<Rightarrow> Request \<Rightarrow> (int list \<times> bool \<times> Request) res" where
  "append_tokens bh mml [] done r = Inr (done, False, r)"
| "append_tokens bh mml (tok # toks) done r =
     rbind (append_output_token_ids bh [tok] r) (\<lambda>r1.
     rbind (check_stop r1 mml) (\<lambda>(stopped, r2).
     if stopped then Inr (done @ [tok], True, r2) else append_tokens bh mml toks (done @ [tok]) r2))"

definition base_update_request_with_output ::
    "sched_config \<Rightarrow> string \<Rightarrow> int list \<Rightarrow> 'e Scheduler \<Rightarrow> ((int list \<times> bool) \<times> 'e Scheduler) res" where
  "base_update_request_with_output c rid toks s =
     rbind (append_tokens (hasher c) (max_model_len c) toks [] (objs s rid)) (\<lambda>(kept, stopped, r).
     Inr ((kept, stopped), s\<lparr>objs := (objs s)(rid := r)\<rparr>))"

definition update_request_with_output ::
    "sched_config \<Rightarrow> string \<Rightarrow> int list \<Rightarrow> 'e Scheduler \<Rightarrow> ((int list \<times> bool) \<times> 'e Scheduler) res" where
  "update_request_with_output c rid toks s =
     (if \<not> async_scheduling c then base_update_request_with_output c rid toks s
      else if discard_latest_async_tokens (objs s rid)
      then Inr (([], False), upd_req rid (\<lambda>r. r\<lparr>discard_latest_async_tokens := False\<rparr>) s)
      else
        rbind (base_update_request_with_output c rid toks s) (\<lambda>((kept, stopped), s1).
        let s2 = upd_req rid (\<lambda>r. r\<lparr>num_output_placeholders := num_output_placeholders r - len kept\<rparr>) s1;
            r = objs s2 rid
        in py_assert (num_output_placeholders r \<ge> 0)
            (if status (objs s rid) = RUNNING
             then rbind (kvm_cache_blocks (hashing c) (kv_cache_manager s2) r
                           (num_computed_tokens r - num_output_placeholders r)) (\<lambda>(r', k).
                  Inr ((kept, stopped), s2\<lparr>kv_cache_manager := k, objs := (objs s2)(rid := r')\<rparr>))
             else Inr ((kept, stopped), s2))))"

definition free_encoder_inputs :: "sched_config \<Rightarrow> string \<Rightarrow> 'e Scheduler \<Rightarrow> 'e Scheduler res" where
  "free_encoder_inputs c rid s =
     rfold (\<lambda>i s'. let r = objs s' rid in
       rbind (py_get (mm_features r) i) (\<lambda>f.
       if is_encoder_decoder c \<and> num_computed_tokens r > 0 \<or>
          offset (mm_position f) + pr_length (mm_position f) \<le> num_computed_tokens r
       then rbind (enc_free_encoder_input r i (encoder_cache_manager s')) (\<lambda>m. Inr (s'\<lparr>encoder_cache_manager := m\<rparr>))
       else Inr s'))
     (enc_get_cached_input_ids (objs s rid) (encoder_cache_manager s)) s"

section \<open>Failed KV loads\<close>

record invalid_scan =
  is_affected :: bool
  marked_invalid_block :: bool
  scan_computed :: int
  affected_tokens :: int
  marked_block_ids :: "int set"
  evict_ids :: "int list"

text \<open>One block of one request: \<open>idx\<close> its position, \<open>start\<close> the number of tokens computed before
  the step.\<close>

definition scan_block ::
    "int \<Rightarrow> int list \<Rightarrow> bool \<Rightarrow> int list \<Rightarrow> int \<Rightarrow> nat \<times> int \<Rightarrow> invalid_scan \<Rightarrow> invalid_scan" where
  "scan_block bs invalid evict ids start ib st =
     (case ib of (idx, b) \<Rightarrow>
      if b \<notin> set invalid then st
      else
        let st1 = st\<lparr>is_affected := True\<rparr> in
        if b \<in> marked_block_ids st then st1
        else
          let st2 = st1\<lparr>marked_block_ids := insert b (marked_block_ids st)\<rparr> in
          if marked_invalid_block st then st2
          else st2\<lparr>marked_invalid_block := True, scan_computed := int idx * bs,
                   affected_tokens := affected_tokens st + (start - int idx * bs),
                   evict_ids := evict_ids st @ (if evict then drop idx ids else [])\<rparr>)"

record invalid_total =
  affected_req_ids :: "string list"
  total_affected :: int
  total_marked :: "int set"
  blocks_to_evict :: "int list"

definition invalid_one ::
    "sched_config \<Rightarrow> int list \<Rightarrow> (string \<times> int) list \<Rightarrow> bool \<Rightarrow> string \<Rightarrow> 'e Scheduler \<times> invalid_total
     \<Rightarrow> ('e Scheduler \<times> invalid_total) res" where
  "invalid_one c invalid sched_tokens evict rid st =
     (case st of (s, tot) \<Rightarrow>
      case get_block_ids (kv_cache_manager s) rid of
        Some [ids] \<Rightarrow>
          py_raise_if (sched_block_size c = 0) ZeroDivisionError
          (let r = objs s rid;
               start = num_computed_tokens r - (case map_of sched_tokens rid of Some n \<Rightarrow> n | None \<Rightarrow> 0);
               n = (start + sched_block_size c - 1) div sched_block_size c;
               scan = fold (scan_block (sched_block_size c) invalid evict ids start)
                 (zip [0..<nat n] ids)
                 \<lparr>is_affected = False, marked_invalid_block = False, scan_computed = num_computed_tokens r,
                  affected_tokens = total_affected tot, marked_block_ids = total_marked tot,
                  evict_ids = blocks_to_evict tot\<rparr>;
               own = is_affected scan \<and> \<not> marked_invalid_block scan;
               computed = (if own then start else scan_computed scan)
           in Inr (upd_req rid (\<lambda>r. r\<lparr>num_computed_tokens := computed\<rparr>) s,
                   \<lparr>affected_req_ids = (if is_affected scan then List.insert rid (affected_req_ids tot)
                                       else affected_req_ids tot),
                    total_affected = affected_tokens scan + (if own then scan_computed scan - start else 0),
                    total_marked = marked_block_ids scan, blocks_to_evict = evict_ids scan\<rparr>))
      | _ \<Rightarrow> Inl ValueError)"

definition update_requests_with_invalid_blocks ::
    "sched_config \<Rightarrow> string list \<Rightarrow> int list \<Rightarrow> (string \<times> int) list \<Rightarrow> bool \<Rightarrow> 'e Scheduler
     \<Rightarrow> ((string list \<times> int \<times> int list) \<times> 'e Scheduler) res" where
  "update_requests_with_invalid_blocks c rids invalid sched_tokens evict s =
     rbind (rfold (invalid_one c invalid sched_tokens evict) rids
              (s, \<lparr>affected_req_ids = [], total_affected = 0, total_marked = {}, blocks_to_evict = []\<rparr>)) (\<lambda>(s1, tot).
     Inr ((affected_req_ids tot, total_affected tot, blocks_to_evict tot), s1))"

definition handle_invalid_blocks ::
    "sched_config \<Rightarrow> int list \<Rightarrow> (string \<times> int) list \<Rightarrow> 'e Scheduler \<Rightarrow> (string list \<times> 'e Scheduler) res" where
  "handle_invalid_blocks c invalid sched_tokens s =
     rbind (update_requests_with_invalid_blocks c
              (filter (\<lambda>i. status (objs s i) = WAITING_FOR_REMOTE_KVS) (queue_iter (req_lt s) (skipped_waiting s)))
              invalid sched_tokens False s) (\<lambda>((async_failed, n1, _), s1).
     rbind (update_requests_with_invalid_blocks c (running s1) invalid sched_tokens True s1)
       (\<lambda>((sync_failed, n2, evict), s2).
     if async_failed = [] \<and> sync_failed = [] then Inr ([], s2)
     else
       rbind (if evict \<noteq> [] \<and> \<not> recompute_kv_load_failures c
              then rbind (kvm_evict_blocks (hashing c) (kv_cache_manager s2) (remdups evict)) (\<lambda>k.
                   Inr (s2\<lparr>kv_cache_manager := k\<rparr>))
              else Inr s2) (\<lambda>s3.
       if \<not> recompute_kv_load_failures c then Inr (List.union async_failed sync_failed, s3)
       else Inr (sync_failed, s3\<lparr>failed_recving_kv_req_ids := failed_recving_kv_req_ids s3 \<union> set async_failed\<rparr>))))"

section \<open>The output of the workers\<close>

record KVConnectorOutput =
  finished_sending :: "string list"
  finished_recving :: "string list"
  invalid_block_ids :: "int list"

record ModelRunnerOutput =
  req_id_to_index :: "string \<Rightarrow> int option"
  sampled_token_ids :: "int list list"
  has_prompt_logprobs :: "string \<Rightarrow> bool"
  pooler_output :: "string option list"
  kv_connector_output :: "KVConnectorOutput option"
  nans_in_logits :: "string \<Rightarrow> int option"

record EngineCoreOutput =
  eo_request_id :: string
  eo_new_token_ids :: "int list"
  eo_finish_reason :: "FinishReason option"
  eo_pooling_output :: "string option"
  eo_stop_reason :: "stop_reason option"
  eo_events :: "(EngineCoreEventType \<times> rat) list option"
  eo_prefill_stats :: "PrefillStats option"
  eo_kv_transfer_params :: kv_params
  eo_num_nans_in_logits :: int

record update_step =
  step_outputs :: "(int \<times> EngineCoreOutput list) list"
  stopped_running_reqs :: "string list"
  stopped_preempted_reqs :: "string list"
  step_draft_tokens :: int
  step_accepted_tokens :: int

definition add_output :: "int \<Rightarrow> EngineCoreOutput \<Rightarrow> (int \<times> EngineCoreOutput list) list \<Rightarrow> (int \<times> EngineCoreOutput list) list" where
  "add_output ci e outs = AList.update ci ((case map_of outs ci of Some es \<Rightarrow> es | None \<Rightarrow> []) @ [e]) outs"

text \<open>The draft tokens a request was scheduled with, read when the output arrives.\<close>

definition spec_tokens_of :: "'e Scheduler \<Rightarrow> SchedulerOutput \<Rightarrow> string \<Rightarrow> int list" where
  "spec_tokens_of s out rid =
     (case scheduled_spec_decode_tokens out rid of None \<Rightarrow> [] | Some (OwnTokens ts) \<Rightarrow> ts
      | Some SharedPlaceholders \<Rightarrow> spec_token_placeholders s)"

definition account_drafts ::
    "SchedulerOutput \<Rightarrow> string \<Rightarrow> int list \<Rightarrow> 'e Scheduler \<Rightarrow> update_step \<Rightarrow> 'e Scheduler \<times> update_step" where
  "account_drafts out rid generated s u =
     (let spec = spec_tokens_of s out rid in
      if spec \<noteq> [] \<and> generated \<noteq> []
      then
        let drafts = len spec; accepted = len generated - 1;
            invalid = (case num_invalid_spec_tokens out of None \<Rightarrow> 0
                       | Some f \<Rightarrow> (case f rid of Some n \<Rightarrow> n | None \<Rightarrow> 0));
            eff_drafts = max (drafts - invalid) 0;
            eff_accepted = min (max accepted 0) eff_drafts;
            rejected = drafts - accepted
        in (upd_req rid (\<lambda>r. r\<lparr>num_computed_tokens := (if num_computed_tokens r > 0
                then num_computed_tokens r - rejected else num_computed_tokens r),
              num_output_placeholders := (if num_output_placeholders r > 0
                then num_output_placeholders r - rejected else num_output_placeholders r)\<rparr>) s,
            u\<lparr>step_draft_tokens := step_draft_tokens u + eff_drafts,
              step_accepted_tokens := step_accepted_tokens u + eff_accepted\<rparr>)
      else (s, u))"

text \<open>New tokens, pooling output and grammar: the tokens kept and whether the request stopped.\<close>

definition apply_tokens ::
    "'e externals \<Rightarrow> sched_config \<Rightarrow> string \<Rightarrow> int list \<Rightarrow> string option \<Rightarrow> 'e Scheduler
     \<Rightarrow> ((int list \<times> bool) \<times> 'e Scheduler) res" where
  "apply_tokens x c rid generated pooler s =
     rbind (if generated \<noteq> [] then update_request_with_output c rid generated s
            else if pooling_params (objs s rid) \<noteq> None \<and> pooler \<noteq> None
            then Inr (([], True), upd_req rid (\<lambda>r. r\<lparr>status := FINISHED_STOPPED\<rparr>) s)
            else Inr (([], False), s)) (\<lambda>((toks, stopped), s1).
     if toks \<noteq> [] \<and> should_advance x (objs s1 rid) (ext s1)
     then py_assert (use_structured_output (objs s1 rid) \<and> grammar_ready x (objs s1 rid) (ext s1))
           (case accept_tokens x rid toks (ext s1) of (ok, e) \<Rightarrow>
            let s2 = s1\<lparr>ext := e\<rparr> in
            if ok then Inr ((toks, stopped), s2)
            else Inr ((toks, True), upd_req rid (\<lambda>r. r\<lparr>status := FINISHED_ERROR, resumable := False\<rparr>) s2))
     else Inr ((toks, stopped), s1))"

text \<open>A request that stopped: its finish reason, and the parameters of its KV transfer.\<close>

definition stop_request ::
    "'e externals \<Rightarrow> sched_config \<Rightarrow> rat \<Rightarrow> string \<Rightarrow> RequestStatus \<Rightarrow> 'e Scheduler \<Rightarrow> update_step
     \<Rightarrow> ((FinishReason option \<times> kv_params) \<times> 'e Scheduler \<times> update_step) res" where
  "stop_request x c now rid status_before s u =
     (let reason = get_finished_reason (status (objs s rid)) in
      rbind (handle_stopped_request c now rid s) (\<lambda>(fin, s1).
      rbind (if fin then free_request x c False rid s1 else Inr (None, s1)) (\<lambda>(params, s2).
      Inr ((reason, params), s2,
           if status_before = RUNNING
           then u\<lparr>stopped_running_reqs := List.insert rid (stopped_running_reqs u)\<rparr>
           else u\<lparr>stopped_preempted_reqs := List.insert rid (stopped_preempted_reqs u)\<rparr>))))"

definition emit_output ::
    "string \<Rightarrow> ModelRunnerOutput \<Rightarrow> int list \<Rightarrow> bool \<Rightarrow> FinishReason option \<Rightarrow> kv_params \<Rightarrow> string option
     \<Rightarrow> 'e Scheduler \<Rightarrow> update_step \<Rightarrow> ('e Scheduler \<times> update_step) res" where
  "emit_output rid mo toks stopped reason params pooler s0 u =
     (let s = (case nans_in_logits mo rid of None \<Rightarrow> s0
               | Some n \<Rightarrow> upd_req rid (\<lambda>r. r\<lparr>num_nans_in_logits := n\<rparr>) s0) in
      if toks \<noteq> [] \<or> pooler \<noteq> None \<or> (params \<noteq> None \<and> params \<noteq> Some []) \<or> stopped
      then
        let (evs, r1) = take_request_events (objs s rid);
            (ps, r2) = take_prefill_stats r1
        in Inr (s\<lparr>objs := (objs s)(rid := r2)\<rparr>,
                u\<lparr>step_outputs := add_output (client_index r2)
                    \<lparr>eo_request_id = rid, eo_new_token_ids = toks, eo_finish_reason = reason,
                     eo_pooling_output = pooler, eo_stop_reason = stop_reason r2, eo_events = evs,
                     eo_prefill_stats = ps, eo_kv_transfer_params = params,
                     eo_num_nans_in_logits = num_nans_in_logits r2\<rparr> (step_outputs u)\<rparr>)
      else py_assert (\<not> has_prompt_logprobs mo rid) (Inr (s, u)))"

definition update_one ::
    "'e externals \<Rightarrow> sched_config \<Rightarrow> rat \<Rightarrow> SchedulerOutput \<Rightarrow> ModelRunnerOutput \<Rightarrow> string list \<Rightarrow> string \<times> int
     \<Rightarrow> 'e Scheduler \<times> update_step \<Rightarrow> ('e Scheduler \<times> update_step) res" where
  "update_one x c now out mo failed rn su =
     (case rn of (rid, n) \<Rightarrow> case su of (s, u) \<Rightarrow>
      py_assert (n > 0)
       (if rid \<in> set failed \<or> \<not> unfinished s rid then Inr (s, u)
        else
          (case req_id_to_index mo rid of
             None \<Rightarrow> Inl KeyError
           | Some i \<Rightarrow>
               rbind (if sampled_token_ids mo \<noteq> [] then py_get (sampled_token_ids mo) i else Inr []) (\<lambda>generated.
               case account_drafts out rid generated s u of (s1, u1) \<Rightarrow>
               rbind (if has_encoder_inputs (objs s1 rid) then free_encoder_inputs c rid s1 else Inr s1) (\<lambda>s2.
               rbind (if pooler_output mo \<noteq> [] then py_get (pooler_output mo) i else Inr None) (\<lambda>pooler.
               let status_before = status (objs s2 rid) in
               rbind (apply_tokens x c rid generated pooler s2) (\<lambda>((toks, stopped), s3).
               rbind (if stopped then stop_request x c now rid status_before s3 u1
                      else Inr ((None, None), s3, u1)) (\<lambda>((reason, params), s4, u2).
               emit_output rid mo toks stopped reason params pooler s4 u2))))))))"

definition update_from_kv_xfer_finished ::
    "'e externals \<Rightarrow> KVConnectorOutput \<Rightarrow> 'e Scheduler \<Rightarrow> 'e Scheduler res" where
  "update_from_kv_xfer_finished x ko s0 =
     (let s = (if has_connector x then s0\<lparr>ext := update_connector_output x (ext s0)\<rparr> else s0) in
      rbind (rfold (\<lambda>rid s.
               py_assert (rid \<in> set (requests s))
                (if status (objs s rid) = WAITING_FOR_REMOTE_KVS
                 then Inr (s\<lparr>finished_recving_kv_req_ids := insert rid (finished_recving_kv_req_ids s)\<rparr>)
                 else py_assert (status_is_finished (status (objs s rid))) (sched_free_blocks rid s)))
               (finished_recving ko) s) (\<lambda>s1.
      rfold (\<lambda>rid s. py_assert (rid \<in> set (requests s)) (sched_free_blocks rid s)) (finished_sending ko) s1))"

definition observe_drafts :: "update_step \<Rightarrow> 'e Scheduler \<Rightarrow> 'e Scheduler" where
  "observe_drafts u s =
     (case spec_token_controller s of
        None \<Rightarrow> s
      | Some k \<Rightarrow>
          let k' = snd (observe (step_accepted_tokens u) (step_draft_tokens u) k)
          in s\<lparr>spec_token_controller := Some k', active_num_spec_tokens := active_k k'\<rparr>)"

definition fail_requests ::
    "'e externals \<Rightarrow> sched_config \<Rightarrow> string list \<Rightarrow> 'e Scheduler \<times> update_step \<Rightarrow> ('e Scheduler \<times> update_step) res" where
  "fail_requests x c failed su =
     (case su of (s, u) \<Rightarrow>
      if failed \<noteq> [] \<and> \<not> recompute_kv_load_failures c
      then
        py_raise_if (\<not> set failed \<subseteq> set (requests s)) KeyError
         (rbind (finish_requests x c (Some failed) FINISHED_ERROR s) (\<lambda>(_, s1).
          Inr (fold (\<lambda>rid (s', u').
                 let (evs, r) = take_request_events (objs s' rid) in
                 (s'\<lparr>objs := (objs s')(rid := r)\<rparr>,
                  u'\<lparr>step_outputs := add_output (client_index r)
                     \<lparr>eo_request_id = request_id r, eo_new_token_ids = [],
                      eo_finish_reason = get_finished_reason (status r), eo_pooling_output = None,
                      eo_stop_reason = None, eo_events = evs, eo_prefill_stats = None,
                      eo_kv_transfer_params = None, eo_num_nans_in_logits = 0\<rparr> (step_outputs u')\<rparr>))
               failed (s1, u))))
      else Inr (s, u))"

definition publish_events :: "'e externals \<Rightarrow> 'e Scheduler \<Rightarrow> 'e Scheduler" where
  "publish_events x s =
     (let (es, k) = kvm_take_events (kv_cache_manager s);
          s1 = s\<lparr>kv_cache_manager := k\<rparr>;
          (ces, e) = (if has_connector x then connector_take_events x (ext s1) else ([], ext s1));
          evs = es @ ces
      in s1\<lparr>ext := (if evs \<noteq> [] then publish x evs e else e)\<rparr>)"

record SchedulerStats =
  num_running_reqs :: int
  num_waiting_reqs :: int
  num_skipped_waiting_reqs :: int
  kv_cache_usage :: rat
  st_prefix_cache_stats :: "PrefixCacheStats option"
  st_connector_prefix_cache_stats :: "PrefixCacheStats option"

definition make_stats :: "sched_config \<Rightarrow> 'e Scheduler \<Rightarrow> (SchedulerStats option \<times> 'e Scheduler) res" where
  "make_stats c s =
     (if \<not> log_stats c then Inr (None, s)
      else
        (case make_prefix_cache_stats (kv_cache_manager s) of (ps, k) \<Rightarrow>
         py_assert (ps \<noteq> None)
          (Inr (Some \<lparr>num_running_reqs = len (running s), num_waiting_reqs = queue_len (waiting s),
                     num_skipped_waiting_reqs = queue_len (skipped_waiting s), kv_cache_usage = usage k,
                     st_prefix_cache_stats = ps,
                     st_connector_prefix_cache_stats = connector_prefix_cache_stats s\<rparr>,
                s\<lparr>kv_cache_manager := k, connector_prefix_cache_stats :=
                    map_option (\<lambda>_. new_PrefixCacheStats) (connector_prefix_cache_stats s)\<rparr>))))"

record EngineCoreOutputs =
  outputs :: "EngineCoreOutput list"
  finished_requests :: "string set option"
  scheduler_stats :: "SchedulerStats option"

definition attach_finished ::
    "(int \<times> string set) list option \<Rightarrow> (int \<times> EngineCoreOutputs) list \<Rightarrow> (int \<times> EngineCoreOutputs) list" where
  "attach_finished fd outs =
     (case fd of
        None \<Rightarrow> outs
      | Some d \<Rightarrow> fold (\<lambda>(ci, ids) os.
          AList.update ci (case map_of os ci of
              Some e \<Rightarrow> e\<lparr>finished_requests := Some ids\<rparr>
            | None \<Rightarrow> \<lparr>outputs = [], finished_requests = Some ids, scheduler_stats = None\<rparr>) os) d outs)"

definition attach_stats :: "SchedulerStats option \<Rightarrow> (int \<times> EngineCoreOutputs) list \<Rightarrow> (int \<times> EngineCoreOutputs) list" where
  "attach_stats st outs =
     (case st of
        None \<Rightarrow> outs
      | Some _ \<Rightarrow>
          (case outs of
             [] \<Rightarrow> [(0, \<lparr>outputs = [], finished_requests = None, scheduler_stats = st\<rparr>)]
           | (ci, e) # rest \<Rightarrow> (ci, e\<lparr>scheduler_stats := st\<rparr>) # rest))"

definition update_from_output ::
    "'e externals \<Rightarrow> sched_config \<Rightarrow> rat \<Rightarrow> SchedulerOutput \<Rightarrow> ModelRunnerOutput \<Rightarrow> 'e Scheduler
     \<Rightarrow> ((int \<times> EngineCoreOutputs) list \<times> 'e Scheduler) res" where
  "update_from_output x c now out mo s =
     rbind (case kv_connector_output mo of
              Some ko \<Rightarrow> (if invalid_block_ids ko \<noteq> []
                then handle_invalid_blocks c (invalid_block_ids ko) (num_scheduled_tokens out) s else Inr ([], s))
            | None \<Rightarrow> Inr ([], s)) (\<lambda>(failed, s1).
     rbind (rfold (update_one x c now out mo failed) (num_scheduled_tokens out)
              (s1, \<lparr>step_outputs = [], stopped_running_reqs = [], stopped_preempted_reqs = [],
                    step_draft_tokens = 0, step_accepted_tokens = 0\<rparr>)) (\<lambda>(s2, u).
     let s3 = observe_drafts u s2;
         s4 = (if stopped_running_reqs u \<noteq> []
               then s3\<lparr>running := remove_all (running s3) (stopped_running_reqs u)\<rparr> else s3);
         s5 = (if stopped_preempted_reqs u \<noteq> []
               then s4\<lparr>waiting := remove_requests (req_lt s4) (stopped_preempted_reqs u) (waiting s4)\<rparr> else s4)
     in rbind (fail_requests x c failed (s5, u)) (\<lambda>(s6, u6).
        rbind (case kv_connector_output mo of
                 Some ko \<Rightarrow> update_from_kv_xfer_finished x ko s6 | None \<Rightarrow> Inr s6) (\<lambda>s7.
        let s8 = publish_events x s7;
            outs = map (\<lambda>(ci, es). (ci, \<lparr>outputs = es, finished_requests = None, scheduler_stats = None\<rparr>)) (step_outputs u6);
            outs1 = attach_finished (finished_req_ids_dict s8) outs;
            s9 = s8\<lparr>finished_req_ids_dict := map_option (\<lambda>_. []) (finished_req_ids_dict s8)\<rparr>
        in rbind (make_stats c s9) (\<lambda>(st, s10). Inr (attach_stats st outs1, s10))))))"

section \<open>Draft tokens\<close>

definition update_draft_token_ids ::
    "'e externals \<Rightarrow> (string \<times> int list) list \<Rightarrow> 'e Scheduler \<Rightarrow> 'e Scheduler" where
  "update_draft_token_ids x drafts s =
     fold (\<lambda>(rid, toks) s.
       if \<not> unfinished s rid then s
       else if is_prefill_chunk (objs s rid)
       then (if spec_token_ids (objs s rid) \<noteq> [] then set_spec rid [] s else s)
       else
         let t1 = (if should_advance x (objs s rid) (ext s) then validate_tokens x rid toks (ext s) else toks);
             t2 = (if spec_token_controller s \<noteq> None then py_upto t1 (active_num_spec_tokens s) else t1)
         in set_spec rid t2 s) drafts s"

definition draft_in_output ::
    "'e externals \<Rightarrow> 'e Scheduler \<Rightarrow> string \<times> int list \<Rightarrow> SchedulerOutput \<times> (string \<Rightarrow> int option)
     \<Rightarrow> (SchedulerOutput \<times> (string \<Rightarrow> int option)) res" where
  "draft_in_output x s rt st =
     (case rt of (rid, toks) \<Rightarrow> case st of (out, invalid) \<Rightarrow>
      if \<not> unfinished s rid \<or> spec_tokens_of s out rid = [] then Inr (out, invalid)
      else
        let n = len (spec_tokens_of s out rid);
            t1 = py_upto toks n;
            adv = should_advance x (objs s rid) (ext s)
        in py_assert (\<not> adv \<or> use_structured_output (objs s rid) \<and> grammar_ready x (objs s rid) (ext s))
            (let t2 = (if adv then validate_tokens x rid t1 (ext s) else t1);
                 k = n - len t2
             in Inr (out\<lparr>scheduled_spec_decode_tokens := (scheduled_spec_decode_tokens out)
                       (rid \<mapsto> OwnTokens (t2 @ py_repeat (-1) k))\<rparr>,
                     if k \<noteq> 0 then invalid(rid \<mapsto> k) else invalid)))"

definition update_draft_token_ids_in_output ::
    "'e externals \<Rightarrow> (string \<times> int list) list \<Rightarrow> SchedulerOutput \<Rightarrow> 'e Scheduler \<Rightarrow> SchedulerOutput res" where
  "update_draft_token_ids_in_output x drafts out s =
     rbind (rfold (draft_in_output x s) drafts (out, Map.empty)) (\<lambda>(out', invalid).
     Inr (out'\<lparr>num_invalid_spec_tokens := Some invalid\<rparr>))"

section \<open>Resets\<close>

fun preempt_all :: "sched_config \<Rightarrow> rat \<Rightarrow> string list \<Rightarrow> 'e Scheduler \<Rightarrow> 'e Scheduler res" where
  "preempt_all c now [] s = Inr s"
| "preempt_all c now (rid # rids) s =
     rbind (preempt_request c now rid (s\<lparr>running := butlast (running s)\<rparr>)) (\<lambda>s1.
     preempt_all c now rids (upd_req rid (\<lambda>r. r\<lparr>num_output_placeholders := 0, discard_latest_async_tokens := True\<rparr>) s1))"

definition reset_connector_cache :: "'e externals \<Rightarrow> sched_config \<Rightarrow> 'e Scheduler \<Rightarrow> (bool \<times> 'e Scheduler) res" where
  "reset_connector_cache x c s =
     (if \<not> has_connector x then Inr (False, s)
      else
        (case reset_cache x (ext s) of (ok, e) \<Rightarrow>
         let s1 = s\<lparr>ext := e\<rparr> in
         if \<not> ok then Inr (False, s1)
         else if log_stats c
         then (case connector_prefix_cache_stats s1 of
                 None \<Rightarrow> Inl AssertionError
               | Some st \<Rightarrow> Inr (True, s1\<lparr>connector_prefix_cache_stats := Some (st\<lparr>stats_reset := True\<rparr>)\<rparr>))
         else Inr (True, s1)))"

definition sched_reset_prefix_cache ::
    "'e externals \<Rightarrow> sched_config \<Rightarrow> rat \<Rightarrow> bool \<Rightarrow> bool \<Rightarrow> 'e Scheduler \<Rightarrow> (bool \<times> 'e Scheduler) res" where
  "sched_reset_prefix_cache x c now reset_running reset_connector s =
     rbind (if reset_running
            then rbind (preempt_all c now (rev (running s)) s) (\<lambda>s1. Inr (s1\<lparr>prev_step_scheduled_req_ids := {}\<rparr>))
            else Inr s) (\<lambda>s1.
     rbind (kvm_reset_prefix_cache (kv_cache_manager s1)) (\<lambda>(ok, k).
     let s2 = s1\<lparr>kv_cache_manager := k\<rparr> in
     py_raise_if (reset_running \<and> \<not> ok) RuntimeError
      (if reset_connector
       then rbind (reset_connector_cache x c s2) (\<lambda>(cok, s3). Inr (cok \<and> ok, s3))
       else Inr (ok, s2))))"

definition reset_encoder_cache :: "'e Scheduler \<Rightarrow> 'e Scheduler" where
  "reset_encoder_cache s = s\<lparr>encoder_cache_manager := enc_reset (encoder_cache_manager s)\<rparr>"

section \<open>Construction\<close>

record speculative_args =
  num_speculative_tokens :: int
  spec_use_eagle :: bool
  spec_uses_draft_model :: bool

text \<open>The settings \<open>Scheduler.__init__\<close> reads.  \<open>mm_budget\<close> is the encoder compute budget and cache
  size of a multi-modal model, with its number of modalities.\<close>

record scheduler_args =
  arg_policy :: string
  max_num_seqs :: int
  arg_max_num_scheduled_tokens :: "int option"
  max_num_batched_tokens :: int
  arg_max_model_len :: int
  arg_long_prefill_token_threshold :: int
  arg_enable_chunked_prefill :: bool
  arg_disable_chunked_mm_input :: bool
  arg_async_scheduling :: bool
  arg_max_loras :: "int option"
  speculative_config :: "speculative_args option"
  arg_is_encoder_decoder :: bool
  mm_budget :: "(int \<times> int \<times> int) option"
  kv_transfer_recompute :: "bool option"
  num_gpu_blocks_set :: "int option"
  arg_block_size :: int
  arg_hash_block_size :: "int option"
  enable_prefix_caching :: bool
  mamba_cache_mode :: string
  arg_cache_block_size :: int
  arg_reserve_full_isl :: bool
  arg_log_stats :: bool
  include_finished_set :: bool
  arg_kv_cache_events :: bool
  pipeline_parallel_size :: int
  arg_v2_model_runner :: bool
  arg_dcp :: int
  arg_pcp :: int
  arg_hashing :: hash_cfg
  arg_hasher :: "block_hasher option"

definition parse_policy :: "string \<Rightarrow> SchedulingPolicy res" where
  "parse_policy p = (if p = ''fcfs'' then Inr FCFS else if p = ''priority'' then Inr PRIORITY else Inl ValueError)"

definition make_controller :: "scheduler_args \<Rightarrow> AcceptanceRateSpecTokenController option res" where
  "make_controller a =
     (case speculative_config a of
        None \<Rightarrow> Inr None
      | Some sp \<Rightarrow> rbind (controller_init (num_speculative_tokens sp) (Some (num_speculative_tokens sp)) 1
                           (1/4) (9/20) 8 128 True) (\<lambda>k. Inr (Some k)))"

definition make_sched_config :: "scheduler_args \<Rightarrow> KVCacheConfig \<Rightarrow> SchedulingPolicy \<Rightarrow> sched_config" where
  "make_sched_config a config pol =
     (let spec = (case speculative_config a of None \<Rightarrow> 0 | Some sp \<Rightarrow> num_speculative_tokens sp);
          eagle = (case speculative_config a of None \<Rightarrow> False | Some sp \<Rightarrow> spec_use_eagle sp);
          draft = (case speculative_config a of None \<Rightarrow> False | Some sp \<Rightarrow> spec_uses_draft_model sp)
      in \<lparr>policy = pol, max_num_running_reqs = max_num_seqs a,
          max_num_scheduled_tokens = (case arg_max_num_scheduled_tokens a of
            Some n \<Rightarrow> (if n \<noteq> 0 then n else max_num_batched_tokens a) | None \<Rightarrow> max_num_batched_tokens a),
          max_model_len = arg_max_model_len a,
          long_prefill_token_threshold = arg_long_prefill_token_threshold a,
          enable_chunked_prefill = arg_enable_chunked_prefill a,
          no_chunked_mm_input = arg_disable_chunked_mm_input a, async_scheduling = arg_async_scheduling a,
          max_loras = arg_max_loras a, num_spec_tokens = spec,
          num_lookahead_tokens = (if eagle \<or> draft then spec else 0), use_eagle = eagle,
          is_encoder_decoder = arg_is_encoder_decoder a,
          encoder_input_budget = (case mm_budget a of None \<Rightarrow> 0 | Some (b, _, _) \<Rightarrow> b),
          need_mamba_block_aligned_split = (has_mamba_layers config \<and> mamba_cache_mode a = ''align''),
          cache_block_size = arg_cache_block_size a, sched_block_size = arg_block_size a,
          scheduler_reserve_full_isl = arg_reserve_full_isl a, log_stats = arg_log_stats a,
          use_pp = (pipeline_parallel_size a > 1), use_v2_model_runner = arg_v2_model_runner a,
          zeroing_needed = needs_kv_cache_zeroing config,
          recompute_kv_load_failures = (case kv_transfer_recompute a of None \<Rightarrow> True | Some b \<Rightarrow> b),
          num_groups = length (kv_cache_groups config), hashing = arg_hashing a, hasher = arg_hasher a\<rparr>)"

definition Scheduler_init ::
    "scheduler_args \<Rightarrow> KVCacheConfig \<Rightarrow> 'e \<Rightarrow> (sched_config \<times> 'e Scheduler) res" where
  "Scheduler_init a config e =
     py_assert (kv_transfer_recompute a = None \<or> \<not> arg_is_encoder_decoder a)
     (py_assert (case num_gpu_blocks_set a of None \<Rightarrow> False | Some n \<Rightarrow> n > 0)
     (rbind (parse_policy (arg_policy a)) (\<lambda>pol.
      py_assert (\<not> arg_is_encoder_decoder a \<or> (case mm_budget a of None \<Rightarrow> False | Some (_, _, n) \<Rightarrow> n \<le> 1))
      (let c = make_sched_config a config pol;
           size_of_cache = (case mm_budget a of None \<Rightarrow> 0 | Some (_, n, _) \<Rightarrow> n) in
       rbind (make_controller a) (\<lambda>ctl.
       rbind (KVCacheManager_init config (max_model_len c)
                (case arg_hash_block_size a of None \<Rightarrow> arg_block_size a | Some h \<Rightarrow> h)
                (Some (max_num_batched_tokens a)) (enable_prefix_caching a) (use_eagle c) (log_stats c)
                (arg_kv_cache_events a) (arg_dcp a) (arg_pcp a)) (\<lambda>k.
       Inr (c, \<lparr>requests = [], objs = (\<lambda>_. text_request [] []), waiting = create_request_queue pol,
         skipped_waiting = create_request_queue pol, running = [], finished_req_ids = {},
         finished_req_ids_dict = (if include_finished_set a then Some [] else None),
         prev_step_scheduled_req_ids = {}, num_waiting_for_streaming_input = 0,
         finished_recving_kv_req_ids = {}, failed_recving_kv_req_ids = {},
         connector_prefix_cache_stats =
           (if kv_transfer_recompute a \<noteq> None \<and> log_stats c then Some new_PrefixCacheStats else None),
         kv_cache_manager = k,
         encoder_cache_manager = (if is_encoder_decoder c
           then EncDecCache (EncoderDecoderCacheManager_init size_of_cache)
           else EncCache (EncoderCacheManager_init size_of_cache)),
         spec_token_controller = ctl,
         active_num_spec_tokens = (case ctl of None \<Rightarrow> 0 | Some k \<Rightarrow> active_k k),
         pause_state = UNPAUSED,
         spec_token_placeholders = py_repeat (-1) (num_spec_tokens c), placeholder_holders = {}, ext = e\<rparr>)))))))"

end
