(* ===== verification/SchedFrame.thy ===== *)
theory SchedFrame
  imports SchedUpdate
begin

text \<open>
  What the operations the scheduler calls leave unchanged.  Allocating and caching blocks
  changes nothing of a request but the memo of its prompt-embedding hashes; \<open>quiet\<close> steps keep
  all lists of the scheduler and the fields of the requests that scheduling decisions read.
\<close>

section \<open>Requests under cache operations\<close>

definition memo_only :: "Request \<Rightarrow> Request \<Rightarrow> bool" where
  "memo_only r r' \<longleftrightarrow> (\<exists>m. r' = with_memo r m)"

lemma memo_only_refl [simp]: "memo_only r r"
  by (auto simp: memo_only_def intro: exI [of _ "prompt_embeds_per_block_hashes r"])

lemma memo_only_trans: "memo_only r r' \<Longrightarrow> memo_only r' r'' \<Longrightarrow> memo_only r r''"
  by (auto simp: memo_only_def)

lemma memo_only_memo [simp]: "memo_only r (with_memo r m)"
  by (auto simp: memo_only_def)

lemma extra_keys_memo: "rpost (generate_block_hash_extra_keys cfg r s e i) (\<lambda>(k, i', r'). memo_only r r')"
  by (auto simp: generate_block_hash_extra_keys_def gen_prompt_embeds_extra_hash_keys_def Let_def
      split: option.split intro!: rpostI)

lemma event_extra_keys_memo: "rpost (event_extra_keys cfg h bs bsz is i r) (\<lambda>(k, r'). memo_only r r')"
proof (induction "is" arbitrary: i r)
  case (Cons j "is")
  have "rpost (event_extra_keys cfg h bs bsz is i' r1) (\<lambda>(k, r'). memo_only r r')" if "memo_only r r1" for i' r1
    by (rule rpost_conseq [OF Cons.IH]) (use memo_only_trans [OF that] in auto)
  then have "rpost (generate_block_hash_extra_keys cfg r (j * bsz) (j * bsz + bsz) i)
      (\<lambda>(k, i', r1). rpost (event_extra_keys cfg h bs bsz is i' r1) (\<lambda>(k, r'). memo_only r r'))"
    by (intro rpost_conseq [OF extra_keys_memo]) auto
  then show ?case using Cons.IH [of i r] by (auto intro!: rpostI dest!: rpostD split: prod.splits)
qed simp

lemma cache_full_blocks_memo: "rpost (cache_full_blocks cfg r bs a b bsz g p) (\<lambda>(r', p'). memo_only r r')"
  by (auto simp: cache_full_blocks_def Let_def intro!: rpostI dest!: rpostD [OF event_extra_keys_memo])

lemma mgr_cache_blocks_memo: "rpost (mgr_cache_blocks cfg r n m p) (\<lambda>(r', m', p'). memo_only r r')"
proof -
  have b: "rpost (base_cache_blocks cfg r n m p) (\<lambda>(r', m', p'). memo_only r r')"
    by (auto simp: base_cache_blocks_def Let_def intro!: rpost_conseq [OF cache_full_blocks_memo])
  then show ?thesis
    by (auto simp: mgr_cache_blocks_def mamba_cache_blocks_def Let_def split: manager_class.split
        intro!: rpost_conseq [OF b])
qed

lemma each_manager_rule:
  assumes "I e" "\<And>i e m p. I e \<Longrightarrow> rpost (f i e m p) (\<lambda>(e', _). I e')"
  shows "rpost (each_manager f i ms e p) (\<lambda>(e', _). I e')"
  using assms(1)
proof (induction ms arbitrary: i e p)
  case (Cons m ms)
  then show ?case
    by (auto intro!: rpost_conseq [OF assms(2) [OF Cons.prems]] rpost_conseq [OF Cons.IH] split: prod.splits)
qed simp

lemma coord_cache_blocks_memo: "rpost (coord_cache_blocks cfg r n c) (\<lambda>(r', c'). memo_only r r')"
proof -
  have "rpost (cache_step cfg n i r1 m p) (\<lambda>(r', _). memo_only r r')" if "memo_only r r1" for i r1 m p
    unfolding cache_step_def
    by (rule rpost_conseq [OF mgr_cache_blocks_memo]) (use memo_only_trans [OF that] in auto)
  then show ?thesis
    by (auto simp: coord_cache_blocks_def on_managers_def intro!: rpost_conseq [OF each_manager_rule [where I = "memo_only r"]])
qed

lemma allocate_slots_memo: "rpost (allocate_slots cfg k r n nl b la ne d en) (\<lambda>(nb, r', k'). memo_only r r')"
  by (auto simp: allocate_slots_def allocate_and_cache_def Let_def intro!: rpostI
      dest!: rpostD [OF coord_cache_blocks_memo])

lemma kvm_cache_blocks_memo: "rpost (kvm_cache_blocks cfg k r n) (\<lambda>(r', k'). memo_only r r')"
  by (auto simp: kvm_cache_blocks_def intro!: rpost_conseq [OF coord_cache_blocks_memo])

section \<open>Quiet steps\<close>

text \<open>The fields of a request that decide where it is queued and how many tokens it needs.\<close>

definition like :: "Request \<Rightarrow> Request \<Rightarrow> bool" where
  "like r r' \<longleftrightarrow> request_id r' = request_id r \<and> status r' = status r \<and>
     num_computed_tokens r' = num_computed_tokens r \<and> all_token_ids r' = all_token_ids r \<and>
     num_output_placeholders r' = num_output_placeholders r"

lemma like_refl [simp]: "like r r"
  by (simp add: like_def)

lemma like_trans: "like r r' \<Longrightarrow> like r' r'' \<Longrightarrow> like r r''"
  by (simp add: like_def)

lemma like_memo: "memo_only r r' \<Longrightarrow> like r r'"
  by (auto simp: memo_only_def like_def)

lemma like_updates [simp]:
  "like r (r'\<lparr>spec_token_ids := ts\<rparr>) = like r r'"
  "like r (r'\<lparr>prefill_stats := ps\<rparr>) = like r r'"
  "like r (record_event ev now r') = like r r'"
  by (simp_all add: like_def record_event_def)

definition quiet :: "'e Scheduler \<Rightarrow> 'e Scheduler \<Rightarrow> bool" where
  "quiet s s' \<longleftrightarrow> same_lists s s' \<and>
     num_waiting_for_streaming_input s' = num_waiting_for_streaming_input s \<and> (\<forall>i. like (objs s i) (objs s' i))"

lemma quiet_refl [simp]: "quiet s s"
  by (simp add: quiet_def)

lemma quiet_trans: "quiet s s' \<Longrightarrow> quiet s' s'' \<Longrightarrow> quiet s s''"
  unfolding quiet_def by (metis like_trans same_lists_trans)

lemma quiet_updates [simp]:
  "quiet s (s'\<lparr>kv_cache_manager := k\<rparr>) = quiet s s'"
  "quiet s (s'\<lparr>encoder_cache_manager := m\<rparr>) = quiet s s'"
  "quiet s (s'\<lparr>ext := e\<rparr>) = quiet s s'"
  "quiet s (s'\<lparr>connector_prefix_cache_stats := st\<rparr>) = quiet s s'"
  by (simp_all add: quiet_def)

lemma quiet_req: "quiet s s' \<Longrightarrow> like (objs s' rid) r \<Longrightarrow> quiet s (s'\<lparr>objs := (objs s')(rid := r)\<rparr>)"
  unfolding quiet_def by (auto intro: like_trans)

lemma quiet_upd_req: "quiet s s' \<Longrightarrow> like (objs s' rid) (f (objs s' rid)) \<Longrightarrow> quiet s (upd_req rid f s')"
  unfolding quiet_def by (auto intro: like_trans)

lemma quiet_like: "quiet s s' \<Longrightarrow> like (objs s i) (objs s' i)"
  by (simp add: quiet_def)

lemma quiet_lists: "quiet s s' \<Longrightarrow> same_lists s s'"
  by (simp add: quiet_def)

lemma quiet_set_spec: "quiet s (set_spec rid ts s)"
  by (simp add: quiet_def same_lists_def)

lemma quiet_truncate: "quiet s (truncate_spec k rid s)"
  by (auto simp: truncate_spec_def del_spec_def quiet_def same_lists_def Let_def)

lemma quiet_try_schedule: "rpost (try_schedule_encoder_inputs x c r a b d e s) (\<lambda>(res, s'). quiet s s')"
  by (simp add: try_schedule_encoder_inputs_def)

lemma quiet_commit_encoder:
  "rpost (commit_encoder_inputs x rid inputs nb external s t) (\<lambda>(s', t'). quiet s s')"
proof -
  have a: "rpost (allocate_encoder_inputs x rid is s1) (quiet s)" if "quiet s s1" for "is" s1
    unfolding allocate_encoder_inputs_def using that by (rule rpost_rfold) (simp add: Let_def)
  show ?thesis
    by (auto simp: commit_encoder_inputs_def intro!: rpost_conseq [OF a] a)
qed

lemma quiet_lookup: "rpost (lookup_computed x rid s) (\<lambda>(i, s'). quiet s s')"
  by (auto simp: lookup_computed_def Let_def intro!: quiet_upd_req rpostI split: prod.split option.split)

lemma quiet_plan: "rpost (plan_waiting x c rid i s t) (\<lambda>(p, s'). quiet s s')"
  by (auto simp: plan_waiting_def Let_def split: prod.split option.split intro!: rpost_conseq [OF quiet_try_schedule])

lemma quiet_slots:
  assumes "allocate_slots cfg (kv_cache_manager s) (objs s rid) n nl b la ne d en = Inr (nb, r, k)" "quiet s0 s"
  shows "quiet s0 (s\<lparr>kv_cache_manager := k, objs := (objs s)(rid := r)\<rparr>)"
proof -
  have "like (objs s rid) r" using rpostD [OF allocate_slots_memo assms(1)] by (simp add: like_memo)
  then show ?thesis using quiet_req [of s0 "s\<lparr>kv_cache_manager := k\<rparr>" rid r] assms(2) by simp
qed

lemma quiet_tell [simp]: "quiet s (tell_connector x rid n q s') = quiet s s'"
  by (simp add: tell_connector_def Let_def)

section \<open>Steps that move no request\<close>

text \<open>No list, no status and no identity changes.\<close>

definition same_status :: "'e Scheduler \<Rightarrow> 'e Scheduler \<Rightarrow> bool" where
  "same_status s s' \<longleftrightarrow> same_lists s s' \<and>
     num_waiting_for_streaming_input s' = num_waiting_for_streaming_input s \<and>
     (\<forall>i. status (objs s' i) = status (objs s i) \<and> request_id (objs s' i) = request_id (objs s i) \<and>
        resumable (objs s' i) = resumable (objs s i))"

lemma same_status_refl [simp]: "same_status s s"
  by (simp add: same_status_def)

lemma same_status_trans: "same_status s s' \<Longrightarrow> same_status s' s'' \<Longrightarrow> same_status s s''"
  unfolding same_status_def by (metis same_lists_trans)

lemma same_status_updates [simp]:
  "same_status s (s'\<lparr>kv_cache_manager := k\<rparr>) = same_status s s'"
  "same_status s (s'\<lparr>encoder_cache_manager := m\<rparr>) = same_status s s'"
  "same_status s (s'\<lparr>ext := e\<rparr>) = same_status s s'"
  "same_status s (s'\<lparr>connector_prefix_cache_stats := st\<rparr>) = same_status s s'"
  "same_status s (s'\<lparr>finished_req_ids := f\<rparr>) = same_status s s'"
  "same_status s (s'\<lparr>finished_req_ids_dict := fd\<rparr>) = same_status s s'"
  "same_status s (s'\<lparr>prev_step_scheduled_req_ids := pr\<rparr>) = same_status s s'"
  "same_status s (s'\<lparr>finished_recving_kv_req_ids := fr\<rparr>) = same_status s s'"
  "same_status s (s'\<lparr>failed_recving_kv_req_ids := fl\<rparr>) = same_status s s'"
  "same_status s (s'\<lparr>spec_token_controller := ct\<rparr>) = same_status s s'"
  "same_status s (s'\<lparr>active_num_spec_tokens := an\<rparr>) = same_status s s'"
  "same_status s (s'\<lparr>pause_state := p\<rparr>) = same_status s s'"
  "same_status s (s'\<lparr>placeholder_holders := h\<rparr>) = same_status s s'"
  by (simp_all add: same_status_def same_lists_def)

lemma same_status_req:
  "same_status s s' \<Longrightarrow> status r = status (objs s' rid) \<Longrightarrow> request_id r = request_id (objs s' rid) \<Longrightarrow>
     resumable r = resumable (objs s' rid) \<Longrightarrow> same_status s (s'\<lparr>objs := (objs s')(rid := r)\<rparr>)"
  by (auto simp: same_status_def same_lists_def)

lemma same_status_upd:
  "same_status s s' \<Longrightarrow> status (f (objs s' rid)) = status (objs s' rid) \<Longrightarrow>
     request_id (f (objs s' rid)) = request_id (objs s' rid) \<Longrightarrow>
     resumable (f (objs s' rid)) = resumable (objs s' rid) \<Longrightarrow> same_status s (upd_req rid f s')"
  using same_status_req by (simp add: upd_req_def)

lemma same_status_share: "same_status s s' \<Longrightarrow> same_status s (share_placeholders rid s')"
  by (auto simp: same_status_def same_lists_def)

lemma same_status_set_spec: "same_status s s' \<Longrightarrow> same_status s (set_spec rid ts s')"
  by (auto simp: same_status_def same_lists_def)

lemma update_after_schedule_status:
  "rpost (update_after_schedule c s out) (\<lambda>(s', out'). same_status s s' \<and> num_scheduled_tokens out' = num_scheduled_tokens out)"
proof -
  let ?P = "\<lambda>(s', out'). same_status s s' \<and> num_scheduled_tokens out' = num_scheduled_tokens out"
  have a: "rpost (rfold advance_computed xs (s, out)) ?P" for xs
    by (rule rpost_rfold) (auto simp: advance_computed_def Let_def intro!: same_status_upd)
  have b: "rpost (rfold add_placeholders xs (s1, out1)) ?P"
    if "same_status s s1" "num_scheduled_tokens out1 = num_scheduled_tokens out" for xs s1 out1
    by (rule rpost_rfold) (use that in \<open>auto simp: add_placeholders_def Let_def intro!: same_status_share same_status_upd\<close>)
  show ?thesis
    unfolding update_after_schedule_def Let_def
    by (auto intro!: rpost_conseq [OF a] b)
qed

lemma build_output_status:
  "rpost (build_output x c k s t) (\<lambda>(out, s'). same_status s s' \<and> num_scheduled_tokens out = step_tokens t)"
proof -
  have u: "rpost (update_after_schedule c s1 out) (\<lambda>(s7, out'). same_status s s7 \<and> num_scheduled_tokens out' = step_tokens t)"
    if "same_status s s1" "num_scheduled_tokens out = step_tokens t" for s1 out
    by (rule rpost_conseq [OF update_after_schedule_status]) (use that same_status_trans in auto)
  have c: "rpost (case running s of [] \<Rightarrow> Inr (replicate (num_groups c) 0, s)
      | rid # _ \<Rightarrow> rbind (kvm_get_num_common_prefix_blocks (kv_cache_manager s) rid) (\<lambda>(ns, k).
          Inr (ns, s\<lparr>kv_cache_manager := k\<rparr>))) (\<lambda>(common, s1). same_status s s1)"
    by (simp split: list.split)
  show ?thesis
    unfolding build_output_def rpost_rbind
    apply (rule rpost_conseq [OF c], clarify, simp only: Let_def rpost_rbind)
    apply (rule rpostI, rule rpostI)
    apply (simp only: split: prod.split)
    apply (intro allI impI, simp only: rpost_rbind)
    apply (rule rpost_conseq [OF u])
      apply (auto split: if_splits prod.splits)
    done
qed

end
