(* ===== verification/KVAllocate.thy ===== *)
theory KVAllocate
  imports KVManager
begin

text \<open>
  Slot allocation is sound: the number of blocks announced before the free-block check covers what
  the two allocation phases take, so no phase runs out of blocks after the check, and the
  invariant of managers and pool holds whatever the outcome.
\<close>

section \<open>The announced need\<close>

definition announced ::
    "string \<Rightarrow> int \<Rightarrow> nat list list \<Rightarrow> int \<Rightarrow> nat \<Rightarrow> SingleTypeKVCacheManager \<Rightarrow> BlockPool \<Rightarrow> int" where
  "announced rid n css tot i m p =
     (if num_cached_block m rid \<noteq> None then blocks_cost rid n m
      else let s = skipped m tot div mgr_block_size m; h = len (get_req_blocks rid m)
           in max (cdiv n (mgr_block_size m) - max s (len (css ! i) + h)) 0 +
              get_num_evictable_blocks (map Blk (drop (nat (s - h)) (css ! i))) p)"

lemma py_from_drop: "0 \<le> k \<Longrightarrow> py_from xs k = drop (nat k) xs"
  by (auto simp: py_from_def slice_bound_def min_def)

lemma nat_max0 [simp]: "nat (max 0 x) = nat x"
  by (simp add: max_def)

lemma need_step_eq:
  assumes "plain m" "i < length css" "num_cached_block m rid \<noteq> None \<longrightarrow> css ! i = []"
  shows "need_step rid n (map (map Blk) css) enc tot main False i acc m p =
    Inr (acc + announced rid n css tot i m p, m, p)"
proof -
  have "base_get_num_blocks_to_allocate rid n (map Blk (css ! i)) tot False m p =
      Inr (announced rid n css tot i m p)"
    using assms plain_skipped [OF assms(1)]
    by (auto simp: base_get_num_blocks_to_allocate_def announced_def blocks_cost_def Let_def
        py_assert_def py_from_drop drop_map max.commute split: option.splits)
  then show ?thesis
    using assms(1,2) by (simp add: need_step_def plain_dispatch py_get_def py_pos_def)
qed

lemma need_loop:
  assumes "\<forall>m \<in> set ms. plain m"
    and "\<forall>j < length ms. k + j < length css \<and> (num_cached_block (ms ! j) rid \<noteq> None \<longrightarrow> css ! (k + j) = [])"
  shows "each_manager (need_step rid n (map (map Blk) css) enc tot main False) k ms acc p =
    Inr (acc + costs (announced rid n css tot) k ms p, ms, p)"
  using assms
proof (induction ms arbitrary: k acc)
  case (Cons m ms)
  have "plain m" "k < length css" "num_cached_block m rid \<noteq> None \<longrightarrow> css ! k = []"
    using Cons.prems by force+
  note st = need_step_eq [OF this, where n = n and enc = enc and tot = tot and main = main and p = p]
  have "\<forall>j < length ms. Suc k + j < length css \<and> (num_cached_block (ms ! j) rid \<noteq> None \<longrightarrow> css ! (Suc k + j) = [])"
    using Cons.prems(2) by fastforce
  then show ?case using Cons.IH [of "Suc k"] Cons.prems(1) by (simp add: st)
qed simp

lemma costs_le:
  assumes "length ms' = length ms"
    and "\<forall>j < length ms. f (k + j) (ms ! j) p + g (k + j) (ms' ! j) p' \<le> h (k + j) (ms ! j) p"
  shows "costs f k ms p + costs g k ms' p' \<le> costs h k ms p"
  using assms
proof (induction ms arbitrary: ms' k)
  case (Cons m ms)
  then obtain m' ms'' where ms': "ms' = m' # ms''" by (cases ms') auto
  have "f k m p + g k m' p' \<le> h k m p" using Cons.prems(2) ms' by force
  moreover have "costs f (Suc k) ms p + costs g (Suc k) ms'' p' \<le> costs h (Suc k) ms p"
    using Cons.IH [of ms'' "Suc k"] Cons.prems ms' by fastforce
  ultimately show ?case using ms' by simp
qed simp

section \<open>The two situations of a request\<close>

text \<open>A running request holds the slots of its computed tokens, or has already had blocks cached.\<close>

definition running_in :: "string \<Rightarrow> int \<Rightarrow> SingleTypeKVCacheManager \<Rightarrow> bool" where
  "running_in rid tot m \<longleftrightarrow>
     num_cached_block m rid \<noteq> None \<or> tot \<le> len (get_req_blocks rid m) * mgr_block_size m"

text \<open>A new request holds nothing; its hits are cached blocks within its computed tokens.\<close>

definition new_in ::
    "string \<Rightarrow> nat list list \<Rightarrow> int \<Rightarrow> nat \<Rightarrow> SingleTypeKVCacheManager \<Rightarrow> BlockPool \<Rightarrow> bool" where
  "new_in rid css nl i m p \<longleftrightarrow>
     i < length css \<and> num_cached_block m rid = None \<and> get_req_blocks rid m = [] \<and>
     hit_blocks p (css ! i) \<and> (mgr_enable_caching m \<or> css ! i = []) \<and>
     len (css ! i) * mgr_block_size m \<le> nl"

lemma skipped_blocks_le:
  assumes "plain m" "0 < mgr_block_size m" "0 \<le> tot" "tot \<le> h * mgr_block_size m"
  shows "skipped m tot div mgr_block_size m \<le> h"
proof -
  have "skipped m tot \<le> h * mgr_block_size m" using skipped_bounds [OF assms(1,3)] assms(4) by simp
  then have "skipped m tot div mgr_block_size m \<le> h * mgr_block_size m div mgr_block_size m"
    using assms(2) by (rule zdiv_mono1)
  then show ?thesis using assms(2) by simp
qed

lemma announced_running:
  assumes "plain m" "0 < mgr_block_size m" "0 \<le> tot" "running_in rid tot m" "css ! i = []"
  shows "blocks_cost rid n m \<le> announced rid n css tot i m p"
proof (cases "num_cached_block m rid = None")
  case True
  then have "skipped m tot div mgr_block_size m \<le> len (get_req_blocks rid m)"
    using skipped_blocks_le [OF assms(1-3)] assms(4) by (simp add: running_in_def)
  then show ?thesis using True assms(5)
    by (simp add: announced_def blocks_cost_def Let_def get_num_evictable_blocks_def)
qed (simp add: announced_def)

lemma fresh_bounds:
  assumes "plain m" "0 < mgr_block_size m" "0 \<le> nl" "0 \<le> ne" "len cs * mgr_block_size m \<le> nl"
    and "f = fresh_for_external m (skipped m (nl + ne)) (nl + ne) ne cs"
    and "s = skipped m (nl + ne) div mgr_block_size m"
  shows "0 \<le> f" "f \<le> max 0 (cdiv (nl + ne) (mgr_block_size m) - max s (len cs))"
    "int (nat s) + len (kept_hits m (skipped m (nl + ne)) cs) = max s (len cs)"
proof -
  let ?b = "mgr_block_size m" and ?c = "cdiv (nl + ne) (mgr_block_size m)"
  have s0: "0 \<le> s" using skipped_bounds(1) [OF assms(1), of "nl + ne"] assms(2-4,7)
    by (simp add: pos_imp_zdiv_nonneg_iff)
  show sum: "int (nat s) + len (kept_hits m (skipped m (nl + ne)) cs) = max s (len cs)"
    using s0 assms(7) by (simp add: kept_hits_def)
  have tot: "nl + ne \<le> ?c * ?b" using cdiv_le_iff [OF assms(2), of "nl + ne" ?c] by simp
  have "s \<le> ?c" using skipped_blocks_le [OF assms(1,2) _ tot] assms(3,4,7) by simp
  moreover have "len cs \<le> ?c"
  proof -
    have "len cs * ?b \<le> ?c * ?b" using tot assms(4,5) by linarith
    then show ?thesis using assms(2) by simp
  qed
  ultimately show "0 \<le> f" "f \<le> max 0 (?c - max s (len cs))"
    using sum unfolding assms(6) fresh_for_external_def by (auto simp: assms(7))
qed

lemma new_in_pre:
  assumes "plain m" "0 < mgr_block_size m" "0 \<le> nl" "0 \<le> ne" "new_in rid css nl i m p"
    and "0 < ne \<longrightarrow> i = 0"
  shows "computed_pre rid css nl ne i m p"
  using assms fresh_bounds(1) [OF assms(1-4), of "css ! i"] by (simp add: new_in_def computed_pre_def)

lemma announced_new:
  assumes "plain m" "0 < mgr_block_size m" "0 \<le> nl" "0 \<le> ne" "new_in rid css nl i m p"
    and "nl + ne \<le> n" "computed_post rid css nl ne i m m'"
  shows "computed_cost css nl ne i m p + blocks_cost rid n m' \<le> announced rid n css (nl + ne) i m p"
proof -
  let ?sk = "skipped m (nl + ne)" and ?cs = "css ! i" and ?b = "mgr_block_size m"
  let ?f = "fresh_for_external m ?sk (nl + ne) ne ?cs" and ?s = "?sk div ?b"
  have cs: "len ?cs * ?b \<le> nl" using assms(5) by (simp add: new_in_def)
  note f = fresh_bounds [OF assms(1-4) cs refl refl]
  obtain ys where ys: "len ys = ?f"
    "get_req_blocks rid m' = map Blk (replicate (nat ?s) 0 @ kept_hits m ?sk ?cs @ ys)"
    "mgr_block_size m' = ?b"
    using assms(7) by (auto simp: computed_post_def Let_def others_kept_def same_mgr_def)
  have held: "len (get_req_blocks rid m') = max ?s (len ?cs) + ?f"
    using ys(1,2) f(3) by simp
  have "cdiv (nl + ne) ?b \<le> cdiv n ?b"
    using cdiv_le_iff [OF assms(2), of n "cdiv n ?b"] cdiv_le_iff [OF assms(2), of "nl + ne" "cdiv n ?b"]
      assms(6) by simp
  then have "?f + max 0 (cdiv n ?b - (max ?s (len ?cs) + ?f)) \<le> max (cdiv n ?b - max ?s (len ?cs)) 0"
    using f(1,2) by linarith
  moreover have "kept_hits m ?sk ?cs = drop (nat ?s) ?cs" by (simp add: kept_hits_def)
  ultimately show ?thesis
    using assms(5) held f(1) ys(3)
    by (simp add: computed_cost_def blocks_cost_def announced_def new_in_def Let_def)
qed

section \<open>The phases\<close>

lemma costs_zero [simp]: "costs (\<lambda>i m p. 0) k ms p = 0"
  by (induction ms arbitrary: k) simp_all

lemma others_kept_refl [simp]: "others_kept rid m m"
  by (simp add: others_kept_def)

lemma others_kept_trans: "others_kept rid m m' \<Longrightarrow> others_kept rid m' m'' \<Longrightarrow> others_kept rid m m''"
  using same_mgr_trans by (auto simp: others_kept_def)

lemma kv_inv_nth: "kv_inv ms p xs \<Longrightarrow> i < length ms \<Longrightarrow> plain (ms ! i) \<and> 0 < mgr_block_size (ms ! i)"
  by (simp add: kv_inv_def mgr_ok_def)

text \<open>What a request brings to an allocation.\<close>

definition situation ::
    "string \<Rightarrow> KVCacheBlocks \<Rightarrow> nat list list \<Rightarrow> int \<Rightarrow> int \<Rightarrow> SingleTypeKVCacheManager list \<Rightarrow> BlockPool \<Rightarrow> bool" where
  "situation rid computed css nl ne ms p \<longleftrightarrow>
     kvc_blocks computed = map (map Blk) css \<and> length css = length ms \<and>
     (if (\<exists>n. computed = EmptyBlocks n) \<and> ne = 0
      then \<forall>i < length ms. css ! i = [] \<and> running_in rid nl (ms ! i)
      else (\<forall>i < length ms. new_in rid css nl i (ms ! i) p) \<and> (0 < ne \<longrightarrow> length ms = 1))"

lemma situation_after_skip:
  assumes "situation rid computed css nl ne ms p" "chained (\<lambda>i m m' u u'. skip_post rid n m m') 0 ms ms1 u u'"
    and "same_setup p p1" "\<forall>b. hash_of p1 b = hash_of p b"
  shows "situation rid computed css nl ne ms1 p1"
proof -
  have l: "length ms1 = length ms" using chained_length [OF assms(2)] .
  have post: "skip_post rid n (ms ! i) (ms1 ! i)" if "i < length ms" for i
    using chained_nth [OF assms(2) that] by simp
  have "new_in rid css nl i (ms1 ! i) p1" if "i < length ms" "new_in rid css nl i (ms ! i) p" for i
    using that post [OF that(1)] assms(3,4)
    by (auto simp: new_in_def skip_post_def others_kept_def same_mgr_def hit_blocks_def same_setup_def)
  moreover have "running_in rid nl (ms1 ! i)" if "i < length ms" "running_in rid nl (ms ! i)" for i
    using that post [OF that(1)] by (auto simp: running_in_def skip_post_def others_kept_def same_mgr_def)
  ultimately show ?thesis using assms(1) l by (auto simp: situation_def split: if_splits)
qed

lemma situation_need:
  assumes "situation rid computed css nl ne ms p" "\<forall>m \<in> set ms. plain m"
  shows "each_manager (need_step rid n (kvc_blocks computed) enc tot main False) 0 ms 0 p =
    Inr (costs (announced rid n css tot) 0 ms p, ms, p)"
proof -
  have "\<forall>j < length ms. 0 + j < length css \<and> (num_cached_block (ms ! j) rid \<noteq> None \<longrightarrow> css ! (0 + j) = [])"
    using assms(1) by (auto simp: situation_def new_in_def split: if_splits)
  then show ?thesis
    using need_loop [OF assms(2), of 0 css rid n enc tot main 0 p] assms(1) by (simp add: situation_def)
qed

definition fill_ready ::
    "string \<Rightarrow> int \<Rightarrow> SingleTypeKVCacheManager list \<Rightarrow> SingleTypeKVCacheManager list \<Rightarrow> BlockPool \<Rightarrow> BlockPool \<Rightarrow> bool" where
  "fill_ready rid n ms ms' p p' \<longleftrightarrow> length ms' = length ms \<and> same_setup p p' \<and>
     (\<forall>i < length ms. others_kept rid (ms ! i) (ms' ! i)) \<and>
     (\<exists>xs. kv_inv ms' p' xs \<and> costs (\<lambda>i m p. blocks_cost rid n m) 0 ms' p' \<le> len xs)"

lemma running_phase:
  assumes inv: "kv_inv ms p xs" and sit: "situation rid (EmptyBlocks g) css nl 0 ms p"
    and "0 \<le> nl" and need: "costs (announced rid n css nl) 0 ms p \<le> len xs"
  shows "fill_ready rid n ms ms p p"
proof -
  have "costs (\<lambda>i m p. 0) 0 ms p + costs (\<lambda>i m p. blocks_cost rid n m) 0 ms p \<le> costs (announced rid n css nl) 0 ms p"
  proof (rule costs_le, simp, intro allI impI)
    fix j
    assume j: "j < length ms"
    then have "css ! j = []" "running_in rid nl (ms ! j)" using sit by (simp_all add: situation_def)
    then show "0 + blocks_cost rid n (ms ! j) \<le> announced rid n css nl (0 + j) (ms ! j) p"
      using announced_running [of "ms ! j" nl rid css j n p] kv_inv_nth [OF inv j] assms(3) by simp
  qed
  then show ?thesis using inv need by (auto simp: fill_ready_def same_setup_def)
qed

lemma new_phase:
  assumes inv: "kv_inv (single_type_managers c) (block_pool c) xs"
    and new: "\<forall>i < length (single_type_managers c). new_in rid css nl i (single_type_managers c ! i) (block_pool c)"
    and ext: "0 < ne \<longrightarrow> length (single_type_managers c) = 1" and nn: "0 \<le> nl" "0 \<le> ne" "nl + ne \<le> n"
    and need: "costs (announced rid n css (nl + ne)) 0 (single_type_managers c) (block_pool c) \<le> len xs"
  shows "\<exists>ms' p'. coord_allocate_new_computed_blocks cfg rid (map (map Blk) css) nl ne c =
      Inr ((), c\<lparr>single_type_managers := ms', block_pool := p'\<rparr>) \<and>
    fill_ready rid n (single_type_managers c) ms' (block_pool c) p'"
proof -
  let ?ms = "single_type_managers c" and ?p = "block_pool c"
  have pre: "\<forall>j < length ?ms. computed_pre rid css nl ne j (?ms ! j) ?p"
  proof (intro allI impI)
    fix j
    assume j: "j < length ?ms"
    have "0 < ne \<longrightarrow> j = 0" using ext j by auto
    then show "computed_pre rid css nl ne j (?ms ! j) ?p"
      using new_in_pre [of "?ms ! j" nl ne rid css j ?p] kv_inv_nth [OF inv j] nn new j by simp
  qed
  have total: "costs (computed_cost css nl ne) 0 ?ms ?p + costs (\<lambda>i m p. blocks_cost rid n m) 0 ms' p' \<le>
      costs (announced rid n css (nl + ne)) 0 ?ms ?p"
    if ch: "chained (\<lambda>i m m' u u'. computed_post rid css nl ne i m m') 0 ?ms ms' () ()" for ms' p'
  proof (rule costs_le, rule chained_length [OF ch], intro allI impI)
    fix j
    assume j: "j < length ?ms"
    have "computed_post rid css nl ne j (?ms ! j) (ms' ! j)" using chained_nth [OF ch j] by simp
    then show "computed_cost css nl ne (0 + j) (?ms ! j) ?p + blocks_cost rid n (ms' ! j) \<le>
        announced rid n css (nl + ne) (0 + j) (?ms ! j) ?p"
      using announced_new [of "?ms ! j" nl ne rid css j ?p n "ms' ! j"] kv_inv_nth [OF inv j] nn new j by simp
  qed
  have "costs (computed_cost css nl ne) 0 ?ms ?p + costs (\<lambda>i m p. 0) 0 ?ms ?p \<le>
      costs (announced rid n css (nl + ne)) 0 ?ms ?p"
  proof (rule costs_le, simp, intro allI impI)
    fix j
    assume j: "j < length ?ms"
    have c: "len (css ! j) * mgr_block_size (?ms ! j) \<le> nl" using new j by (simp add: new_in_def)
    note f = fresh_bounds [of "?ms ! j" nl ne "css ! j", OF _ _ nn(1,2) c refl refl]
    have "cdiv (nl + ne) (mgr_block_size (?ms ! j)) \<le> cdiv n (mgr_block_size (?ms ! j))"
      using cdiv_le_iff [of "mgr_block_size (?ms ! j)" n "cdiv n (mgr_block_size (?ms ! j))"]
        cdiv_le_iff [of "mgr_block_size (?ms ! j)" "nl + ne" "cdiv n (mgr_block_size (?ms ! j))"]
        kv_inv_nth [OF inv j] nn(3) by simp
    then show "computed_cost css nl ne (0 + j) (?ms ! j) ?p + 0 \<le>
        announced rid n css (nl + ne) (0 + j) (?ms ! j) ?p"
      using f(1,2) kv_inv_nth [OF inv j] new j
      by (simp add: computed_cost_def announced_def new_in_def kept_hits_def Let_def)
  qed
  then have "costs (computed_cost css nl ne) 0 ?ms ?p \<le> len xs" using need by simp
  then obtain e' ms' p' xs' where l:
    "on_managers (computed_step cfg rid (map (map Blk) css) nl ne) () c =
       Inr (e', c\<lparr>single_type_managers := ms', block_pool := p'\<rparr>)"
    "kv_inv ms' p' xs'" "len xs \<le> len xs' + costs (computed_cost css nl ne) 0 ?ms ?p"
    "chained (\<lambda>i m m' u u'. computed_post rid css nl ne i m m') 0 ?ms ms' () e'" "same_setup ?p p'"
    using computed_loop.coordinator_ok [OF inv pre] by metis
  have "others_kept rid (?ms ! i) (ms' ! i)" if "i < length ?ms" for i
    using chained_nth [OF l(4) that] by (auto simp: computed_post_def Let_def)
  moreover have "costs (\<lambda>i m p. blocks_cost rid n m) 0 ms' p' \<le> len xs'"
    using total [of ms' p'] l(3,4) need by simp
  ultimately show ?thesis
    using l(1,2,5) chained_length [OF l(4)]
    by (auto simp: fill_ready_def coord_allocate_new_computed_blocks_def)
qed

lemma chained_new_blocks:
  "chained (\<lambda>i m m' acc acc'. new_blocks_post rid n m m' acc acc') k ms ms' acc acc' \<Longrightarrow>
   \<exists>bss. acc' = acc @ bss \<and> length bss = length ms \<and>
     (\<forall>j < length ms. others_kept rid (ms ! j) (ms' ! j) \<and>
        num_cached_block (ms' ! j) = num_cached_block (ms ! j) \<and>
        get_req_blocks rid (ms' ! j) = get_req_blocks rid (ms ! j) @ bss ! j \<and>
        len (bss ! j) = blocks_cost rid n (ms ! j))"
proof (induction ms arbitrary: ms' k acc)
  case Nil
  then show ?case by (cases ms') simp_all
next
  case (Cons m ms)
  obtain m' ms'' where ms': "ms' = m' # ms''" using chained_length [OF Cons.prems] by (cases ms') auto
  obtain e1 where e1: "new_blocks_post rid n m m' acc e1"
    "chained (\<lambda>i m m' acc acc'. new_blocks_post rid n m m' acc acc') (Suc k) ms ms'' e1 acc'"
    using Cons.prems ms' by auto
  obtain bs where bs: "e1 = acc @ [bs]" "get_req_blocks rid m' = get_req_blocks rid m @ bs"
    "len bs = blocks_cost rid n m" "others_kept rid m m'" "num_cached_block m' = num_cached_block m"
    using e1(1) by (auto simp: new_blocks_post_def)
  obtain bss where r: "acc' = e1 @ bss" "length bss = length ms"
    "\<forall>j < length ms. others_kept rid (ms ! j) (ms'' ! j) \<and>
        num_cached_block (ms'' ! j) = num_cached_block (ms ! j) \<and>
        get_req_blocks rid (ms'' ! j) = get_req_blocks rid (ms ! j) @ bss ! j \<and>
        len (bss ! j) = blocks_cost rid n (ms ! j)"
    using Cons.IH [OF e1(2)] by metis
  have "acc' = acc @ (bs # bss)" "length (bs # bss) = length (m # ms)" using bs(1) r(1,2) by simp_all
  moreover have "\<forall>j < length (m # ms). others_kept rid ((m # ms) ! j) (ms' ! j) \<and>
      num_cached_block (ms' ! j) = num_cached_block ((m # ms) ! j) \<and>
      get_req_blocks rid (ms' ! j) = get_req_blocks rid ((m # ms) ! j) @ (bs # bss) ! j \<and>
      len ((bs # bss) ! j) = blocks_cost rid n ((m # ms) ! j)"
    using bs r(3) ms' by (auto simp: nth_Cons split: nat.splits)
  ultimately show ?case by blast
qed

lemma fill_phase:
  assumes "fill_ready rid n ms0 (single_type_managers c) p0 (block_pool c)"
  shows "\<exists>bss ms' p' xs'. coord_allocate_new_blocks cfg rid n main enc c =
      Inr (bss, c\<lparr>single_type_managers := ms', block_pool := p'\<rparr>) \<and> kv_inv ms' p' xs' \<and>
    same_setup p0 p' \<and> length bss = length ms0 \<and> length ms' = length ms0 \<and>
    (\<forall>j < length ms0. others_kept rid (ms0 ! j) (ms' ! j) \<and>
       (\<exists>old. get_req_blocks rid (ms' ! j) = old @ bss ! j) \<and>
       n \<le> len (get_req_blocks rid (ms' ! j)) * mgr_block_size (ms' ! j))"
proof -
  let ?ms = "single_type_managers c" and ?p = "block_pool c"
  obtain xs where xs: "kv_inv ?ms ?p xs" "costs (\<lambda>i m p. blocks_cost rid n m) 0 ?ms ?p \<le> len xs"
    and l0: "length ?ms = length ms0" and s0: "same_setup p0 ?p"
    and k0: "\<forall>i < length ms0. others_kept rid (ms0 ! i) (?ms ! i)"
    using assms by (auto simp: fill_ready_def)
  obtain bss ms' p' xs' where l:
    "on_managers (new_blocks_step cfg rid n main enc) [] c = Inr (bss, c\<lparr>single_type_managers := ms', block_pool := p'\<rparr>)"
    "kv_inv ms' p' xs'"
    "chained (\<lambda>i m m' acc acc'. new_blocks_post rid n m m' acc acc') 0 ?ms ms' [] bss" "same_setup ?p p'"
    using new_blocks_loop.coordinator_ok [OF xs(1) _ xs(2), where cfg = cfg and main = main and enc = enc and e = "[]"]
    by auto
  obtain bss' where "bss = [] @ bss'" and post: "length bss' = length ?ms"
    "\<forall>j < length ?ms. others_kept rid (?ms ! j) (ms' ! j) \<and>
       num_cached_block (ms' ! j) = num_cached_block (?ms ! j) \<and>
       get_req_blocks rid (ms' ! j) = get_req_blocks rid (?ms ! j) @ bss' ! j \<and>
       len (bss' ! j) = blocks_cost rid n (?ms ! j)"
    using chained_new_blocks [OF l(3)] by metis
  then have b: "bss = bss'" by simp
  have "others_kept rid (ms0 ! j) (ms' ! j) \<and> (\<exists>old. get_req_blocks rid (ms' ! j) = old @ bss ! j) \<and>
      n \<le> len (get_req_blocks rid (ms' ! j)) * mgr_block_size (ms' ! j)" if j: "j < length ms0" for j
  proof -
    have q: "others_kept rid (?ms ! j) (ms' ! j)"
      "get_req_blocks rid (ms' ! j) = get_req_blocks rid (?ms ! j) @ bss' ! j"
      "len (bss' ! j) = blocks_cost rid n (?ms ! j)"
      using post(2) j l0 by simp_all
    have bsz: "mgr_block_size (ms' ! j) = mgr_block_size (?ms ! j)" "0 < mgr_block_size (?ms ! j)"
      using q(1) kv_inv_nth [OF xs(1)] j l0 by (simp_all add: others_kept_def same_mgr_def)
    have "cdiv n (mgr_block_size (?ms ! j)) \<le> len (get_req_blocks rid (ms' ! j))"
      using q(2,3) by (simp add: blocks_cost_def)
    then have "n \<le> len (get_req_blocks rid (ms' ! j)) * mgr_block_size (ms' ! j)"
      using cdiv_le_iff [OF bsz(2)] bsz(1) by simp
    then show ?thesis using others_kept_trans [OF k0 [rule_format, OF j] q(1)] q(2) b by auto
  qed
  moreover have "same_setup p0 p'" using s0 l(4) by (simp add: same_setup_def)
  ultimately show ?thesis
    using l(1,2) chained_length [OF l(3)] l0 post(1) b by (auto simp: coord_allocate_new_blocks_def)
qed

text \<open>A request whose full blocks can be cached by a manager.\<close>

definition cacheable_in :: "hash_cfg \<Rightarrow> Request \<Rightarrow> int \<Rightarrow> SingleTypeKVCacheManager \<Rightarrow> BlockPool \<Rightarrow> bool" where
  "cacheable_in cfg r n m p \<longleftrightarrow> enable_caching p \<and>
     cache_request_ok cfg r (mgr_block_size m) (hash_block_size p) (n div mgr_block_size m) \<and>
     0 \<le> kv_cache_group_id m \<and> kv_cache_group_id m < 2 ^ 32"

lemma cache_phase:
  assumes inv: "kv_inv (single_type_managers c) (block_pool c) xs" and "0 \<le> n"
    and ok: "\<forall>m \<in> set (single_type_managers c). cacheable_in cfg r n m (block_pool c)"
    and slots: "\<forall>m \<in> set (single_type_managers c). n \<le> len (get_req_blocks (request_id r) m) * mgr_block_size m"
  shows "\<exists>r' ms' p' xs'. coord_cache_blocks cfg r n c = Inr (r', c\<lparr>single_type_managers := ms', block_pool := p'\<rparr>) \<and>
    kv_inv ms' p' xs' \<and> length ms' = length (single_type_managers c) \<and>
    (\<forall>j < length (single_type_managers c). same_mgr (single_type_managers c ! j) (ms' ! j) \<and>
       (\<forall>rid. get_req_blocks rid (ms' ! j) = get_req_blocks rid (single_type_managers c ! j)))"
proof -
  let ?ms = "single_type_managers c"
  have "mgr_cache_ok cfg r n (?ms ! j) (block_pool c) \<and> 0 \<le> n" if j: "j < length ?ms" for j
  proof -
    have b: "0 < mgr_block_size (?ms ! j)" using kv_inv_nth [OF inv j] by simp
    have "n \<le> len (get_req_blocks (request_id r) (?ms ! j)) * mgr_block_size (?ms ! j)" using slots j by simp
    then have "n div mgr_block_size (?ms ! j) \<le>
        len (get_req_blocks (request_id r) (?ms ! j)) * mgr_block_size (?ms ! j) div mgr_block_size (?ms ! j)"
      using b by (rule zdiv_mono1)
    then show ?thesis
      using ok [rule_format, OF nth_mem [OF j]] b assms(2) by (simp add: mgr_cache_ok_def cacheable_in_def)
  qed
  then obtain r' ms' p' xs' where l: "on_managers (cache_step cfg n) r c = Inr (r', c\<lparr>single_type_managers := ms', block_pool := p'\<rparr>)"
    "kv_inv ms' p' xs'" "chained (\<lambda>i m m' r r'. cache_post cfg n m m' r r') 0 ?ms ms' r r'"
    using cache_loop.coordinator_ok [OF inv, of cfg r n] by auto
  have "same_mgr (?ms ! j) (ms' ! j) \<and> (\<forall>rid. get_req_blocks rid (ms' ! j) = get_req_blocks rid (?ms ! j))"
    if "j < length ?ms" for j
    using chained_nth [OF l(3) that] by (auto simp: cache_post_def)
  then show ?thesis using l(1,2) chained_length [OF l(3)] by (auto simp: coord_cache_blocks_def)
qed

section \<open>Slot allocation\<close>

lemma create_blocks: "length bss = num_kv_cache_groups k \<Longrightarrow> kvc_blocks (create_kv_cache_blocks k bss) = bss"
  using replicate_length_same [of bss "[]"] by (auto simp: create_kv_cache_blocks_def)

definition allocated ::
    "KVCacheManager \<Rightarrow> KVCacheManager \<Rightarrow> string \<Rightarrow> int \<Rightarrow> KVCacheBlocks \<Rightarrow> bool" where
  "allocated k k' rid n b \<longleftrightarrow>
     (\<forall>j < length (managers k). (\<exists>old. get_req_blocks rid (managers k' ! j) = old @ kvc_blocks b ! j) \<and>
        n \<le> len (get_req_blocks rid (managers k' ! j)) * mgr_block_size (managers k' ! j))"

definition kv_step :: "KVCacheManager \<Rightarrow> KVCacheManager \<Rightarrow> string \<Rightarrow> bool" where
  "kv_step k k' rid \<longleftrightarrow> length (managers k') = length (managers k) \<and>
     (\<forall>j < length (managers k). others_kept rid (managers k ! j) (managers k' ! j))"

lemma computed_phase:
  assumes inv: "kv_inv (single_type_managers c) (block_pool c) xs"
    and sit: "situation rid computed css nl ne (single_type_managers c) (block_pool c)"
    and nn: "0 \<le> nl" "0 \<le> ne" "nl + ne \<le> n"
    and need: "costs (announced rid n css (nl + ne)) 0 (single_type_managers c) (block_pool c) \<le> len xs"
  shows "\<exists>ms' p'. (if (case computed of EmptyBlocks _ \<Rightarrow> False | KVCacheBlocks _ \<Rightarrow> True) \<or> ne > 0
      then coord_allocate_new_computed_blocks cfg rid (kvc_blocks computed) nl ne c else Inr ((), c)) =
      Inr ((), c\<lparr>single_type_managers := ms', block_pool := p'\<rparr>) \<and>
    fill_ready rid n (single_type_managers c) ms' (block_pool c) p'"
proof (cases "(\<exists>g. computed = EmptyBlocks g) \<and> ne = 0")
  case True
  then obtain g where g: "computed = EmptyBlocks g" "ne = 0" by blast
  have "fill_ready rid n (single_type_managers c) (single_type_managers c) (block_pool c) (block_pool c)"
    using running_phase [OF inv _ nn(1)] sit need g by simp
  then show ?thesis using g by (intro exI [of _ "single_type_managers c"] exI [of _ "block_pool c"]) simp
next
  case False
  have bl: "kvc_blocks computed = map (map Blk) css" using sit by (simp add: situation_def)
  have "(case computed of EmptyBlocks _ \<Rightarrow> False | KVCacheBlocks _ \<Rightarrow> True) \<or> ne > 0"
    using False nn(2) by (cases computed) auto
  moreover have "\<forall>i < length (single_type_managers c). new_in rid css nl i (single_type_managers c ! i) (block_pool c)"
    "0 < ne \<longrightarrow> length (single_type_managers c) = 1"
    using sit False by (auto simp: situation_def)
  ultimately show ?thesis using new_phase [OF inv _ _ nn need, of cfg] by (simp add: bl)
qed

lemma allocate_and_cache_ok:
  assumes inv: "kv_inv (managers k) (kv_pool k) xs" and groups: "num_kv_cache_groups k = length (managers k)"
    and sit: "situation (request_id r) computed css nl ne (managers k) (kv_pool k)"
    and nn: "0 \<le> nl" "0 \<le> ne" "nl + ne \<le> n" "0 \<le> tc" "tc \<le> n"
    and need: "costs (announced (request_id r) n css (nl + ne)) 0 (managers k) (kv_pool k) \<le> len xs"
    and cache: "kvm_enable_caching k \<and> \<not> delay \<longrightarrow> (\<forall>m \<in> set (managers k). cacheable_in cfg r tc m (kv_pool k))"
  shows "\<exists>b r' k' xs'. allocate_and_cache cfg k r computed nl ne main n tc delay enc (coordinator k) = Inr (Some b, r', k') \<and>
    kv_inv (managers k') (kv_pool k') xs' \<and> kv_step k k' (request_id r) \<and> allocated k k' (request_id r) n b"
proof -
  let ?c = "coordinator k" and ?rid = "request_id r"
  obtain ms3 p3 where c3: "(if (case computed of EmptyBlocks _ \<Rightarrow> False | KVCacheBlocks _ \<Rightarrow> True) \<or> ne > 0
      then coord_allocate_new_computed_blocks cfg ?rid (kvc_blocks computed) nl ne ?c else Inr ((), ?c)) =
      Inr ((), ?c\<lparr>single_type_managers := ms3, block_pool := p3\<rparr>)"
    "fill_ready ?rid n (managers k) ms3 (kv_pool k) p3"
    using computed_phase [OF inv sit nn(1-3) need, of cfg] by blast
  let ?c3 = "?c\<lparr>single_type_managers := ms3, block_pool := p3\<rparr>"
  obtain bss ms4 p4 xs4 where c4: "coord_allocate_new_blocks cfg ?rid n main enc ?c3 =
      Inr (bss, ?c3\<lparr>single_type_managers := ms4, block_pool := p4\<rparr>)" "kv_inv ms4 p4 xs4"
    "same_setup (kv_pool k) p4" "length bss = length (managers k)" "length ms4 = length (managers k)"
    "\<forall>j < length (managers k). others_kept ?rid (managers k ! j) (ms4 ! j) \<and>
       (\<exists>old. get_req_blocks ?rid (ms4 ! j) = old @ bss ! j) \<and>
       n \<le> len (get_req_blocks ?rid (ms4 ! j)) * mgr_block_size (ms4 ! j)"
    using fill_phase [of ?rid n "managers k" ?c3 "kv_pool k" cfg main enc] c3(2) by auto
  let ?c4 = "?c\<lparr>single_type_managers := ms4, block_pool := p4\<rparr>" and ?b = "create_kv_cache_blocks k bss"
  have b: "kvc_blocks ?b = bss" using create_blocks groups c4(4) by simp
  have run: "allocate_and_cache cfg k r computed nl ne main n tc delay enc ?c =
      (if \<not> kvm_enable_caching k \<or> delay then Inr (Some ?b, r, k\<lparr>coordinator := ?c4\<rparr>)
       else rbind (coord_cache_blocks cfg r tc ?c4) (\<lambda>(r', c5). Inr (Some ?b, r', k\<lparr>coordinator := c5\<rparr>)))"
    unfolding allocate_and_cache_def c3(1) using c4(1) by simp
  show ?thesis
  proof (cases "\<not> kvm_enable_caching k \<or> delay")
    case True
    have "kv_step k (k\<lparr>coordinator := ?c4\<rparr>) ?rid" "allocated k (k\<lparr>coordinator := ?c4\<rparr>) ?rid n ?b"
      using c4(5,6) by (simp_all add: kv_step_def allocated_def b)
    moreover have "kv_inv (managers (k\<lparr>coordinator := ?c4\<rparr>)) (kv_pool (k\<lparr>coordinator := ?c4\<rparr>)) xs4"
      using c4(2) by simp
    moreover have "allocate_and_cache cfg k r computed nl ne main n tc delay enc ?c =
        Inr (Some ?b, r, k\<lparr>coordinator := ?c4\<rparr>)"
      using run True by simp
    ultimately show ?thesis by blast
  next
    case False
    have ok: "cacheable_in cfg r tc m p4" if m: "m \<in> set ms4" for m
    proof -
      obtain j where j: "j < length (managers k)" "m = ms4 ! j" using m c4(5) by (auto simp: in_set_conv_nth)
      then have "cacheable_in cfg r tc (managers k ! j) (kv_pool k)" "same_mgr (managers k ! j) m"
        using cache False c4(6) by (simp_all add: others_kept_def)
      then show ?thesis using c4(3) by (simp add: cacheable_in_def same_mgr_def same_setup_def)
    qed
    have slots: "tc \<le> len (get_req_blocks ?rid m) * mgr_block_size m" if m: "m \<in> set ms4" for m
    proof -
      obtain j where j: "j < length (managers k)" "m = ms4 ! j" using m c4(5) by (auto simp: in_set_conv_nth)
      then show ?thesis using c4(6) nn(5) by fastforce
    qed
    obtain r' ms5 p5 xs5 where c5: "coord_cache_blocks cfg r tc ?c4 =
        Inr (r', ?c4\<lparr>single_type_managers := ms5, block_pool := p5\<rparr>)" "kv_inv ms5 p5 xs5"
      "length ms5 = length ms4" "\<forall>j < length ms4. same_mgr (ms4 ! j) (ms5 ! j) \<and>
         (\<forall>rid. get_req_blocks rid (ms5 ! j) = get_req_blocks rid (ms4 ! j))"
      using cache_phase [of ?c4 xs4 tc cfg r] c4(2) nn(4) ok slots by auto
    let ?k5 = "k\<lparr>coordinator := ?c4\<lparr>single_type_managers := ms5, block_pool := p5\<rparr>\<rparr>"
    have "others_kept ?rid (managers k ! j) (ms5 ! j)" if "j < length (managers k)" for j
      using c4(5,6) c5(4) that same_mgr_trans by (simp add: others_kept_def) blast
    then have "kv_step k ?k5 ?rid" using c5(3) c4(5) by (simp add: kv_step_def)
    moreover have "allocated k ?k5 ?rid n ?b"
      using c4(5,6) c5(4) by (simp add: allocated_def b same_mgr_def)
    moreover have "kv_inv (managers ?k5) (kv_pool ?k5) xs5" using c5(2) by simp
    moreover have "allocate_and_cache cfg k r computed nl ne main n tc delay enc ?c = Inr (Some ?b, r', ?k5)"
      using run False c5(1) by simp
    ultimately show ?thesis by blast
  qed
qed

text \<open>A call of \<open>allocate_slots\<close> as the scheduler makes it: token counts that fit the model, a request
  that is running or new, and hashes for the blocks it fills.\<close>

definition slots_call ::
    "hash_cfg \<Rightarrow> KVCacheManager \<Rightarrow> Request \<Rightarrow> int \<Rightarrow> int \<Rightarrow> KVCacheBlocks option \<Rightarrow> nat list list \<Rightarrow> int \<Rightarrow> int \<Rightarrow> bool \<Rightarrow> bool" where
  "slots_call cfg k r num_new num_new_computed new_computed css num_lookahead num_external delay \<longleftrightarrow>
     (let nl = num_computed_tokens r + num_new_computed; tot = nl + num_external in
      0 \<le> nl \<and> 0 \<le> num_new \<and> 0 \<le> num_external \<and> 0 \<le> num_lookahead \<and> (num_new \<noteq> 0 \<or> num_external \<noteq> 0) \<and>
      tot + num_new \<le> kvm_max_model_len k \<and> num_kv_cache_groups k = length (managers k) \<and>
      situation (request_id r) (computed_list k new_computed) css nl num_external (managers k) (kv_pool k) \<and>
      (kvm_enable_caching k \<and> \<not> delay \<longrightarrow>
         (\<forall>m \<in> set (managers k). cacheable_in cfg r (min (tot + num_new) (num_tokens r)) m (kv_pool k))))"

lemma skip_phase:
  assumes "kv_inv (single_type_managers c) (block_pool c) xs"
  shows "\<exists>ms p xs'. coord_remove_skipped_blocks rid n c = Inr ((), c\<lparr>single_type_managers := ms, block_pool := p\<rparr>) \<and>
    kv_inv ms p xs' \<and> len xs \<le> len xs' \<and>
    chained (\<lambda>i m m' u u'. skip_post rid n m m') 0 (single_type_managers c) ms () () \<and>
    same_setup (block_pool c) p \<and> (\<forall>b. hash_of p b = hash_of (block_pool c) b)"
  using skip_loop.coordinator_ok [OF assms, where rid = rid and n = n and e = "()"]
  by (auto simp: coord_remove_skipped_blocks_def)

lemma kv_step_trans: "kv_step k k' rid \<Longrightarrow> kv_step k' k'' rid \<Longrightarrow> kv_step k k'' rid"
  using others_kept_trans by (simp add: kv_step_def) blast

lemma allocated_cong:
  "allocated k1 k' rid n b \<Longrightarrow> length (managers k) = length (managers k1) \<Longrightarrow> allocated k k' rid n b"
  by (simp add: allocated_def)

text \<open>The state after the skipped blocks are removed decides: with fewer free blocks than announced
  the result is \<open>None\<close>, otherwise the slots are allocated.\<close>

lemma allocate_slots_outcome:
  assumes inv: "kv_inv (managers k) (kv_pool k) xs"
    and call: "slots_call cfg k r nn nnc nc css la ne delay"
    and n: "n = min (num_computed_tokens r + nnc + ne + nn + la) (kvm_max_model_len k)"
  shows "\<exists>k1 xs1. kv_inv (managers k1) (kv_pool k1) xs1 \<and> len xs \<le> len xs1 \<and> kv_step k k1 (request_id r) \<and>
    (\<forall>j < length (managers k). skip_post (request_id r) (num_computed_tokens r + nnc + ne) (managers k ! j) (managers k1 ! j)) \<and>
    (if costs (announced (request_id r) n css (num_computed_tokens r + nnc + ne)) 0 (managers k1) (kv_pool k1) > len xs1
     then allocate_slots cfg k r nn nnc nc la ne delay enc = Inr (None, r, k1)
     else \<exists>b r' k' xs'. allocate_slots cfg k r nn nnc nc la ne delay enc = Inr (Some b, r', k') \<and>
       kv_inv (managers k') (kv_pool k') xs' \<and> kv_step k k' (request_id r) \<and> allocated k k' (request_id r) n b)"
proof -
  let ?rid = "request_id r" and ?nl = "num_computed_tokens r + nnc" and ?c = "coordinator k"
  let ?tot = "?nl + ne" and ?B = "computed_list k nc" and ?tc = "min (?nl + ne + nn) (num_tokens r)"
  have call': "0 \<le> ?nl" "0 \<le> nn" "0 \<le> ne" "0 \<le> la" "nn \<noteq> 0 \<or> ne \<noteq> 0" "?tot + nn \<le> kvm_max_model_len k"
    "num_kv_cache_groups k = length (managers k)" "situation ?rid ?B css ?nl ne (managers k) (kv_pool k)"
    "kvm_enable_caching k \<and> \<not> delay \<longrightarrow> (\<forall>m \<in> set (managers k). cacheable_in cfg r ?tc m (kv_pool k))"
    using call by (simp_all add: slots_call_def Let_def)
  obtain ms1 p1 xs1 where s: "coord_remove_skipped_blocks ?rid ?tot ?c = Inr ((), ?c\<lparr>single_type_managers := ms1, block_pool := p1\<rparr>)"
    "kv_inv ms1 p1 xs1" "len xs \<le> len xs1"
    "chained (\<lambda>i m m' u u'. skip_post ?rid ?tot m m') 0 (managers k) ms1 () ()"
    "same_setup (kv_pool k) p1" "\<forall>b. hash_of p1 b = hash_of (kv_pool k) b"
    using skip_phase [OF inv, of ?rid ?tot] by metis
  let ?c1 = "?c\<lparr>single_type_managers := ms1, block_pool := p1\<rparr>"
  let ?k1 = "k\<lparr>coordinator := ?c1\<rparr>"
  have l1: "length ms1 = length (managers k)" using chained_length [OF s(4)] .
  have post: "skip_post ?rid ?tot (managers k ! j) (ms1 ! j)" if "j < length (managers k)" for j
    using chained_nth [OF s(4) that] by simp
  have kv1: "kv_step k ?k1 ?rid" using l1 post by (simp add: kv_step_def skip_post_def)
  note sit1 = situation_after_skip [OF call'(8) s(4,5,6)]
  let ?need = "costs (announced ?rid n css ?tot) 0 ms1 p1"
  have "\<forall>m \<in> set ms1. plain m" using s(2) by (simp add: kv_inv_def)
  then have need: "coord_get_num_blocks_to_allocate ?rid n (kvc_blocks ?B) enc ?tot (?tot + nn) False ?c1 = Inr (?need, ?c1)"
    using situation_need [OF sit1] by (simp add: coord_get_num_blocks_to_allocate_def on_managers_def)
  have run: "allocate_slots cfg k r nn nnc nc la ne delay enc =
      (if ?need > len xs1 then Inr (None, r, ?k1)
       else allocate_and_cache cfg k r ?B ?nl ne (?tot + nn) n ?tc delay enc ?c1)"
    using call'(2,5,6) s(1) need n pool_inv_free [OF kv_inv_pool [OF s(2)]]
    by (auto simp: allocate_slots_def Let_def py_raise_if_def min_absorb1)
  have "\<exists>b r' k' xs'. allocate_slots cfg k r nn nnc nc la ne delay enc = Inr (Some b, r', k') \<and>
       kv_inv (managers k') (kv_pool k') xs' \<and> kv_step k k' ?rid \<and> allocated k k' ?rid n b"
    if enough: "\<not> ?need > len xs1"
  proof -
    have cache1: "kvm_enable_caching ?k1 \<and> \<not> delay \<longrightarrow> (\<forall>m \<in> set (managers ?k1). cacheable_in cfg r ?tc m (kv_pool ?k1))"
    proof (intro impI ballI)
      fix m
      assume c: "kvm_enable_caching ?k1 \<and> \<not> delay" and "m \<in> set (managers ?k1)"
      then obtain j where j: "j < length (managers k)" "m = ms1 ! j" using l1 by (auto simp: in_set_conv_nth)
      then have "cacheable_in cfg r ?tc (managers k ! j) (kv_pool k)" "same_mgr (managers k ! j) m"
        using call'(9) c post [OF j(1)] by (simp_all add: skip_post_def others_kept_def)
      then show "cacheable_in cfg r ?tc m (kv_pool ?k1)"
        using s(5) by (simp add: cacheable_in_def same_mgr_def same_setup_def)
    qed
    have bounds: "?tot \<le> n" "0 \<le> ?tc" "?tc \<le> n"
      using call'(1-6) n unfolding num_tokens_def by linarith+
    obtain b r' k' xs' where a: "allocate_and_cache cfg ?k1 r ?B ?nl ne (?tot + nn) n ?tc delay enc ?c1 = Inr (Some b, r', k')"
      "kv_inv (managers k') (kv_pool k') xs'" "kv_step ?k1 k' ?rid" "allocated ?k1 k' ?rid n b"
      using allocate_and_cache_ok [of ?k1 xs1 r ?B css ?nl ne n ?tc delay cfg "?tot + nn" enc]
        s(2) call'(1,3,7) l1 sit1 bounds enough cache1 by auto
    have "allocate_and_cache cfg ?k1 r ?B ?nl ne (?tot + nn) n ?tc delay enc ?c1 =
        allocate_and_cache cfg k r ?B ?nl ne (?tot + nn) n ?tc delay enc ?c1"
      by (simp add: allocate_and_cache_def create_kv_cache_blocks_def cong: if_cong)
    then have "allocate_slots cfg k r nn nnc nc la ne delay enc = Inr (Some b, r', k')"
      using run enough a(1) by simp
    then show ?thesis
      using a(2) kv_step_trans [OF kv1 a(3)] allocated_cong [OF a(4)] l1 by auto
  qed
  then show ?thesis
    using s(2,3) kv1 post run by (intro exI [of _ ?k1] exI [of _ xs1]) auto
qed


lemma evictable_le: "get_num_evictable_blocks bs p \<le> len bs"
  by (simp add: get_num_evictable_blocks_def)

lemma announced_le: "announced rid n css tot i m p \<le> blocks_cost rid n m + len (css ! i)"
proof -
  let ?s = "skipped m tot div mgr_block_size m" and ?h = "len (get_req_blocks rid m)"
  have "get_num_evictable_blocks (map Blk (drop (nat (?s - ?h)) (css ! i))) p \<le> len (css ! i)"
    using evictable_le [of "map Blk (drop (nat (?s - ?h)) (css ! i))" p] by simp
  moreover have "max (cdiv n (mgr_block_size m) - max ?s (len (css ! i) + ?h)) 0 \<le> blocks_cost rid n m"
    by (simp add: blocks_cost_def)
  ultimately have "max (cdiv n (mgr_block_size m) - max ?s (len (css ! i) + ?h)) 0 +
      get_num_evictable_blocks (map Blk (drop (nat (?s - ?h)) (css ! i))) p \<le> blocks_cost rid n m + len (css ! i)"
    by linarith
  then show ?thesis by (simp add: announced_def Let_def)
qed

text \<open>C35: a slot allocation makes progress: when there are as many free blocks as the request lacks
  in all groups, plus its cache hits, the allocation succeeds.\<close>

theorem allocate_slots_progress:
  assumes "kv_inv (managers k) (kv_pool k) xs" "slots_call cfg k r nn nnc nc css la ne delay"
    and "n = min (num_computed_tokens r + nnc + ne + nn + la) (kvm_max_model_len k)"
    and "costs (\<lambda>i m p. blocks_cost (request_id r) n m + len (css ! i)) 0 (managers k) (kv_pool k) \<le> get_num_free_blocks (kv_pool k)"
  shows "\<exists>b r' k'. allocate_slots cfg k r nn nnc nc la ne delay enc = Inr (Some b, r', k')"
proof -
  let ?rid = "request_id r" and ?tot = "num_computed_tokens r + nnc + ne"
  obtain k1 xs1 where o: "len xs \<le> len xs1" "kv_inv (managers k1) (kv_pool k1) xs1" "kv_step k k1 ?rid"
    "\<forall>j < length (managers k). skip_post ?rid ?tot (managers k ! j) (managers k1 ! j)"
    "if costs (announced ?rid n css ?tot) 0 (managers k1) (kv_pool k1) > len xs1
     then allocate_slots cfg k r nn nnc nc la ne delay enc = Inr (None, r, k1)
     else \<exists>b r' k' xs'. allocate_slots cfg k r nn nnc nc la ne delay enc = Inr (Some b, r', k') \<and>
       kv_inv (managers k') (kv_pool k') xs' \<and> kv_step k k' ?rid \<and> allocated k k' ?rid n b"
    using allocate_slots_outcome [OF assms(1-3), of enc] by (elim exE conjE) (rule that; assumption)
  have "costs (\<lambda>i m p. 0) 0 (managers k) (kv_pool k) + costs (announced ?rid n css ?tot) 0 (managers k1) (kv_pool k1) \<le>
      costs (\<lambda>i m p. blocks_cost ?rid n m + len (css ! i)) 0 (managers k) (kv_pool k)"
  proof (rule costs_le)
    show "length (managers k1) = length (managers k)" using o(3) by (simp add: kv_step_def)
    show "\<forall>j < length (managers k). 0 + announced ?rid n css ?tot (0 + j) (managers k1 ! j) (kv_pool k1) \<le>
        blocks_cost ?rid n (managers k ! j) + len (css ! (0 + j))"
    proof (intro allI impI)
      fix j
      assume "j < length (managers k)"
      then have "blocks_cost ?rid n (managers k1 ! j) = blocks_cost ?rid n (managers k ! j)"
        using o(4) by (simp add: skip_post_def others_kept_def same_mgr_def blocks_cost_def)
      then show "0 + announced ?rid n css ?tot (0 + j) (managers k1 ! j) (kv_pool k1) \<le>
          blocks_cost ?rid n (managers k ! j) + len (css ! (0 + j))"
        using announced_le [of ?rid n css ?tot j "managers k1 ! j" "kv_pool k1"] by simp
    qed
  qed
  then have "\<not> costs (announced ?rid n css ?tot) 0 (managers k1) (kv_pool k1) > len xs1"
    using assms(4) o(1) pool_inv_free [OF kv_inv_pool [OF assms(1)]] by simp
  then show ?thesis using o(5) by auto
qed

end
