(* ===== verification/KVReach.thy ===== *)
theory KVReach
  imports KVAllocate
begin

text \<open>
  The KV cache manager over its whole life: construction establishes the invariant of managers
  and pool, every operation keeps it, and hence in every reachable state a block is free exactly
  when no request of any group lists it.
\<close>

section \<open>Construction\<close>

fun attention_spec :: "KVCacheSpec \<Rightarrow> bool" where
  "attention_spec (FullAttentionSpec a _) \<longleftrightarrow> 0 < attn_block_size a"
| "attention_spec (TQFullAttentionSpec a _ _) \<longleftrightarrow> 0 < attn_block_size a"
| "attention_spec (MLAAttentionSpec a _ _) \<longleftrightarrow> 0 < attn_block_size a"
| "attention_spec (SlidingWindowSpec a w _) \<longleftrightarrow> 0 < attn_block_size a \<and> 0 < w"
| "attention_spec (SlidingWindowMLASpec a w _ _) \<longleftrightarrow> 0 < attn_block_size a \<and> 0 < w"
| "attention_spec (ChunkedLocalAttentionSpec a c) \<longleftrightarrow> 0 < attn_block_size a \<and> 0 < c"
| "attention_spec _ \<longleftrightarrow> False"

text \<open>The tokens a block of a group holds over all context-parallel ranks.\<close>

definition group_block_size :: "int \<Rightarrow> int \<Rightarrow> KVCacheGroupSpec \<Rightarrow> int" where
  "group_block_size dcp pcp g =
     (if dcp * pcp > 1 then block_size (group_spec g) * (dcp * pcp) else block_size (group_spec g))"

definition fresh_manager :: "bool \<Rightarrow> int \<Rightarrow> int \<Rightarrow> SingleTypeKVCacheManager \<Rightarrow> bool" where
  "fresh_manager caching gid bs m \<longleftrightarrow> plain m \<and> mgr_block_size m = bs \<and> 0 < bs \<and> mgr_null_block m = Blk 0 \<and>
     req_to_blocks m = [] \<and> num_cached_block m = Map.empty \<and> mgr_enable_caching m = caching \<and>
     kv_cache_group_id m = gid"

lemma fresh_manager_ok: "fresh_manager caching gid bs m \<Longrightarrow> mgr_ok m p \<and> mgr_refs m b = 0"
  by (auto simp: fresh_manager_def mgr_ok_def req_ok_def get_req_blocks_def blocks_ok_def cached_upto_def)

lemma all_refs_zero: "(\<And>m. m \<in> set ms \<Longrightarrow> mgr_refs m b = 0) \<Longrightarrow> all_refs ms b = 0"
  by (induction ms) simp_all

lemma get_manager_ok:
  assumes "attention_spec (group_spec g)" "null_block p = Blk 0"
  shows "\<exists>m. get_manager_for_kv_cache_spec (group_spec g) batched mml caching gid dcp pcp p = Inr (m, p) \<and>
    fresh_manager caching gid (group_block_size dcp pcp g) m"
proof (cases "group_spec g")
qed (use assms in \<open>auto simp: group_block_size_def get_manager_for_kv_cache_spec_def py_cdiv_def py_raise_if_def Let_def
      fresh_manager_def base_manager_init_def plain_def intro!: mult_pos_pos\<close>)

lemma make_managers_ok:
  assumes "\<forall>g \<in> set gs. attention_spec (group_spec g)" "null_block p = Blk 0"
  shows "\<exists>ms. make_managers batched mml caching dcp pcp i gs p = Inr (ms, p) \<and> length ms = length gs \<and>
    (\<forall>j < length ms. fresh_manager caching (i + int j) (group_block_size dcp pcp (gs ! j)) (ms ! j))"
  using assms(1)
proof (induction gs arbitrary: i)
  case (Cons g gs)
  obtain m where m: "get_manager_for_kv_cache_spec (group_spec g) batched mml caching i dcp pcp p = Inr (m, p)"
    "fresh_manager caching i (group_block_size dcp pcp g) m"
    using get_manager_ok [of g p] Cons.prems assms(2) by fastforce
  obtain ms where ms: "make_managers batched mml caching dcp pcp (i + 1) gs p = Inr (ms, p)"
    "length ms = length gs" "\<forall>j < length ms. fresh_manager caching (i + 1 + int j) (group_block_size dcp pcp (gs ! j)) (ms ! j)"
    using Cons.IH [of "i + 1"] Cons.prems by auto
  have "fresh_manager caching (i + int j) (group_block_size dcp pcp ((g # gs) ! j)) ((m # ms) ! j)" if "j < length (m # ms)" for j
  proof (cases j)
    case (Suc j')
    then have "fresh_manager caching (i + 1 + int j') (group_block_size dcp pcp (gs ! j')) (ms ! j')" using ms(3) that by simp
    then show ?thesis using Suc by (simp add: add.assoc)
  qed (use m(2) in simp)
  then show ?case using m(1) ms(1,2) by (intro exI [of _ "m # ms"]) simp
qed simp

lemma KVCacheCoordinator_init_ok:
  assumes "\<forall>g \<in> set (kv_cache_groups config). attention_spec (group_spec g)" "0 < num_blocks config"
  shows "\<exists>c. KVCacheCoordinator_init cls config mml batched use_eagle caching ev dcp pcp hbs = Inr c \<and>
    kv_inv (single_type_managers c) (block_pool c) [1..<nat (num_blocks config)] \<and>
    length (single_type_managers c) = length (kv_cache_groups config) \<and>
    (\<forall>j < length (single_type_managers c). fresh_manager caching (int j)
       (group_block_size dcp pcp (kv_cache_groups config ! j)) (single_type_managers c ! j)) \<and>
    enable_caching (block_pool c) = caching \<and> hash_block_size (block_pool c) = hbs \<and>
    (\<forall>b. hash_of (block_pool c) b = None)"
proof -
  obtain p where p: "BlockPool_init (num_blocks config) caching hbs ev = Inr p"
    "pool_inv p [1..<nat (num_blocks config)]" "enable_caching p = caching" "hash_block_size p = hbs"
    "\<forall>b. rc p b = 0 \<and> hash_of p b = None"
    using BlockPool_init_ok [OF assms(2), of caching hbs ev] by auto
  have nb: "null_block p = Blk 0" using p(2) by (simp add: pool_inv_def pool_ok_def)
  obtain ms where ms: "make_managers batched mml caching dcp pcp 0 (kv_cache_groups config) p = Inr (ms, p)"
    "length ms = length (kv_cache_groups config)" "\<forall>j < length ms. fresh_manager caching (0 + int j) (group_block_size dcp pcp (kv_cache_groups config ! j)) (ms ! j)"
    using make_managers_ok [OF assms(1) nb, of batched mml caching dcp pcp 0] by blast
  have fresh: "\<exists>j bs. fresh_manager caching (int j) bs m" if "m \<in> set ms" for m
    using ms(3) that by (auto simp: in_set_conv_nth)
  have "mgr_ok m p \<and> plain m \<and> mgr_refs m b = 0" if m: "m \<in> set ms" for m b
  proof -
    obtain j bs where "fresh_manager caching (int j) bs m" using fresh [OF m] by blast
    then show ?thesis using fresh_manager_ok [of caching "int j" bs m p b] by (simp add: fresh_manager_def)
  qed
  then have "kv_inv ms p [1..<nat (num_blocks config)]"
    using p(2,5) all_refs_zero [of ms] by (auto simp: kv_inv_def hash_ok_def)
  then show ?thesis using p ms by (auto simp: KVCacheCoordinator_init_def)
qed

lemma verify_and_split_keeps:
  assumes "verify_and_split_kv_cache_groups c = Inr c'"
  shows "single_type_managers c' = single_type_managers c \<and> block_pool c' = block_pool c"
  using assms by (auto simp: verify_and_split_kv_cache_groups_def rbind_eq_Inr py_assert_def Let_def split: if_splits)

lemma get_kv_cache_coordinator_base:
  assumes "get_kv_cache_coordinator config mml batched use_eagle caching ev dcp pcp hbs = Inr c"
  obtains cls c0 where "KVCacheCoordinator_init cls config mml batched use_eagle caching ev dcp pcp hbs = Inr c0"
    "single_type_managers c = single_type_managers c0" "block_pool c = block_pool c0"
  using assms verify_and_split_keeps
  by (fastforce simp: get_kv_cache_coordinator_def NoPrefixCache_init_def Unitary_init_def Hybrid_init_def
      rbind_eq_Inr py_assert_def py_raise_if_def Let_def split: if_splits)

lemma KVCacheManager_init_inv:
  assumes "KVCacheManager_init config mml hbs batched caching use_eagle logging ev dcp pcp = Inr k"
    and "\<forall>g \<in> set (kv_cache_groups config). attention_spec (group_spec g)" "0 < num_blocks config"
  shows "kv_inv (managers k) (kv_pool k) [1..<nat (num_blocks config)]"
    "num_kv_cache_groups k = length (managers k)" "length (managers k) = length (kv_cache_groups config)"
    "\<forall>j < length (managers k). fresh_manager caching (int j) (group_block_size dcp pcp (kv_cache_groups config ! j)) (managers k ! j)"
    "enable_caching (kv_pool k) = caching" "hash_block_size (kv_pool k) = hbs"
    "kvm_enable_caching k = caching" "kvm_max_model_len k = mml" "hash_of (kv_pool k) b = None"
proof -
  obtain c where c: "get_kv_cache_coordinator config mml (case batched of Some b \<Rightarrow> b | None \<Rightarrow> mml)
      use_eagle caching ev dcp pcp hbs = Inr c" and k: "coordinator k = c" "kvm_enable_caching k = caching"
    "kvm_max_model_len k = mml" "num_kv_cache_groups k = length (kv_cache_groups config)"
    using assms(1) by (auto simp: KVCacheManager_init_def rbind_eq_Inr)
  obtain cls c0 where c0: "KVCacheCoordinator_init cls config mml (case batched of Some b \<Rightarrow> b | None \<Rightarrow> mml)
      use_eagle caching ev dcp pcp hbs = Inr c0"
    "single_type_managers c = single_type_managers c0" "block_pool c = block_pool c0"
    using get_kv_cache_coordinator_base [OF c] by blast
  note i = KVCacheCoordinator_init_ok [OF assms(2,3), of cls mml "case batched of Some b \<Rightarrow> b | None \<Rightarrow> mml"
      use_eagle caching ev dcp pcp hbs]
  show "kv_inv (managers k) (kv_pool k) [1..<nat (num_blocks config)]"
    "num_kv_cache_groups k = length (managers k)" "length (managers k) = length (kv_cache_groups config)"
    "\<forall>j < length (managers k). fresh_manager caching (int j) (group_block_size dcp pcp (kv_cache_groups config ! j)) (managers k ! j)"
    "enable_caching (kv_pool k) = caching" "hash_block_size (kv_pool k) = hbs"
    "kvm_enable_caching k = caching" "kvm_max_model_len k = mml" "hash_of (kv_pool k) b = None"
    using i c0 k by auto
qed

section \<open>The other operations\<close>

text \<open>Two managers that list the same blocks and have cached as many of them.\<close>

definition alike :: "SingleTypeKVCacheManager \<Rightarrow> SingleTypeKVCacheManager \<Rightarrow> bool" where
  "alike m m' \<longleftrightarrow> same_mgr m m' \<and> num_cached_block m' = num_cached_block m \<and>
     distinct (map fst (req_to_blocks m')) \<and> (\<forall>rid. get_req_blocks rid m' = get_req_blocks rid m) \<and>
     (\<forall>b. mgr_refs m' b = mgr_refs m b)"

lemma alike_ok: "alike m m' \<Longrightarrow> mgr_ok m p \<Longrightarrow> mgr_ok m' p"
  by (auto simp: alike_def mgr_ok_def same_mgr_def req_ok_def cached_upto_def)

lemma alike_refl: "mgr_ok m p \<Longrightarrow> alike m m"
  by (simp add: alike_def mgr_ok_def)

lemma kv_inv_alike:
  assumes "kv_inv ms p xs" "list_all2 alike ms ms'"
  shows "kv_inv ms' p xs"
proof -
  have "all_refs ms' b = all_refs ms b" for b
    using assms(2) by (induction rule: list_all2_induct) (simp_all add: alike_def)
  moreover have "mgr_ok m' p \<and> plain m'" if m': "m' \<in> set ms'" for m'
  proof -
    obtain j where j: "j < length ms'" "m' = ms' ! j" using m' by (auto simp: in_set_conv_nth)
    have a: "alike (ms ! j) m'" and m: "ms ! j \<in> set ms"
      using assms(2) j by (simp_all add: list_all2_conv_all_nth)
    then have "mgr_ok (ms ! j) p" "plain (ms ! j)" using assms(1) by (simp_all add: kv_inv_def)
    then show ?thesis using alike_ok [OF a] plain_same [of "ms ! j" m'] a by (simp add: alike_def)
  qed
  ultimately show ?thesis using assms(1) by (simp add: kv_inv_def)
qed

lemma alike_touch_req:
  assumes "mgr_ok m p"
  shows "alike m (touch_req rid m)"
proof -
  have d: "distinct (map fst (req_to_blocks m))" using assms by (simp add: mgr_ok_def)
  have "mgr_refs (touch_req rid m) b = mgr_refs m b" for b
    using list_refs_update [OF d, of rid "get_req_blocks rid m" b]
    by (simp add: touch_req_def set_req_blocks_def get_req_blocks_held)
  then show ?thesis
    using d by (simp add: alike_def) (simp add: touch_req_def set_req_blocks_def AList.distinct_update)
qed

lemma common_prefix_alike:
  assumes "\<forall>m \<in> set ms. mgr_ok m p"
    and "each_manager (\<lambda>i acc m p. case mgr_get_num_common_prefix_blocks rid m p of (n, m') \<Rightarrow> Inr (acc @ [n], m', p)) k ms acc p
       = Inr (acc', ms', p')"
  shows "list_all2 alike ms ms' \<and> p' = p"
  using assms
proof (induction ms arbitrary: k acc ms')
  case (Cons m ms)
  obtain n m1 where m1: "mgr_get_num_common_prefix_blocks rid m p = (n, m1)" by fastforce
  have "alike m m1"
    using m1 Cons.prems(1) alike_touch_req alike_refl
    by (auto simp: mgr_get_num_common_prefix_blocks_def Let_def split: if_splits)
  then show ?case using Cons m1 by (auto simp: rbind_eq_Inr)
qed simp

lemma need_step_keeps:
  "plain m \<Longrightarrow> need_step rid n nc enc tot main cap i acc m p = Inr (acc', m', p') \<Longrightarrow> m' = m \<and> p' = p"
  by (auto simp: need_step_def plain_dispatch rbind_eq_Inr)

lemma need_loop_keeps:
  "\<forall>m \<in> set ms. plain m \<Longrightarrow> each_manager (need_step rid n nc enc tot main cap) k ms acc p = Inr (acc', ms', p') \<Longrightarrow>
   ms' = ms \<and> p' = p"
proof (induction ms arbitrary: k acc ms')
  case (Cons m ms)
  then show ?case by (fastforce simp: rbind_eq_Inr dest: need_step_keeps)
qed simp

lemma kv_inv_pool_change:
  assumes "kv_inv ms p xs" "pool_inv p' xs" "same_setup p p'" "\<And>b. rc p' b = rc p b"
    and "\<And>b. hash_of p b = None \<Longrightarrow> hash_of p' b = None"
  shows "kv_inv ms p' xs"
proof -
  have "mgr_ok m p'" if "mgr_ok m p" for m
    unfolding mgr_ok_def
  proof (intro conjI allI)
    fix rid
    obtain ns where n: "get_req_blocks rid m = map Blk ns" "blocks_ok p ns"
      "0 \<le> cached_upto m rid" "cached_upto m rid \<le> len ns"
      "\<forall>b \<in> set (drop (nat (cached_upto m rid)) ns). 0 < b \<longrightarrow> own_block p b"
      using \<open>mgr_ok m p\<close> unfolding mgr_ok_def req_ok_def by meson
    show "req_ok m p' rid"
    proof (rule req_okI [OF n(1) _ n(3,4)])
      show "blocks_ok p' ns" using n(2) assms(3) by (simp add: blocks_ok_def same_setup_def)
    qed (use n(5) assms(4,5) in \<open>auto simp: own_block_def\<close>)
  qed (use that in \<open>simp_all add: mgr_ok_def\<close>)
  moreover have "hash_ok p'" using assms(1,3,5) by (auto simp: kv_inv_def hash_ok_def same_setup_def)
  ultimately show ?thesis using assms(1,2,4) by (simp add: kv_inv_def)
qed

section \<open>Reachable states\<close>

inductive kv_reach :: "hash_cfg \<Rightarrow> KVCacheManager \<Rightarrow> bool" for cfg where
  init: "KVCacheManager_init config mml hbs batched caching use_eagle logging ev dcp pcp = Inr k \<Longrightarrow>
    \<forall>g \<in> set (kv_cache_groups config). attention_spec (group_spec g) \<Longrightarrow> 0 < num_blocks config \<Longrightarrow> kv_reach cfg k"
| computed: "kv_reach cfg k \<Longrightarrow> get_computed_blocks k r = Inr (b, n, k') \<Longrightarrow> kv_reach cfg k'"
| fits: "kv_reach cfg k \<Longrightarrow> can_fit_full_sequence k r nnc nc ne enc = Inr (ok, k') \<Longrightarrow> kv_reach cfg k'"
| slots: "kv_reach cfg k \<Longrightarrow> slots_call cfg k r nn nnc nc css la ne delay \<Longrightarrow>
    allocate_slots cfg k r nn nnc nc la ne delay enc = Inr (res, r', k') \<Longrightarrow> kv_reach cfg k'"
| free: "kv_reach cfg k \<Longrightarrow> kvm_free k r = Inr k' \<Longrightarrow> kv_reach cfg k'"
| skip: "kv_reach cfg k \<Longrightarrow> kvm_remove_skipped_blocks k rid n = Inr k' \<Longrightarrow> kv_reach cfg k'"
| cache: "kv_reach cfg k \<Longrightarrow> 0 \<le> n \<Longrightarrow> \<forall>m \<in> set (managers k). cacheable_in cfg r n m (kv_pool k) \<and>
      n \<le> len (get_req_blocks (request_id r) m) * mgr_block_size m \<Longrightarrow>
    kvm_cache_blocks cfg k r n = Inr (r', k') \<Longrightarrow> kv_reach cfg k'"
| evict: "kv_reach cfg k \<Longrightarrow> (\<And>i. i \<in> set ids \<Longrightarrow> 0 \<le> i) \<Longrightarrow> kvm_evict_blocks cfg k ids = Inr k' \<Longrightarrow> kv_reach cfg k'"
| reset: "kv_reach cfg k \<Longrightarrow> kvm_reset_prefix_cache k = Inr (ok, k') \<Longrightarrow> kv_reach cfg k'"
| prefix: "kv_reach cfg k \<Longrightarrow> kvm_get_num_common_prefix_blocks k rid = Inr (ns, k') \<Longrightarrow> kv_reach cfg k'"
| events: "kv_reach cfg k \<Longrightarrow> kvm_take_events k = (es, k') \<Longrightarrow> kv_reach cfg k'"
| ids: "kv_reach cfg k \<Longrightarrow> kvm_take_new_block_ids k = (ns, k') \<Longrightarrow> kv_reach cfg k'"
| starts: "kv_reach cfg k \<Longrightarrow> kv_reach cfg (kvm_new_step_starts k)"
| stats: "kv_reach cfg k \<Longrightarrow> make_prefix_cache_stats k = (st, k') \<Longrightarrow> kv_reach cfg k'"

lemma alike_new_step: "mgr_ok m p \<Longrightarrow> alike m (mgr_new_step_starts m)"
  by (auto simp: alike_def mgr_new_step_starts_def mgr_ok_def same_mgr_def get_req_blocks_def)

lemma alike_take_ids: "mgr_ok m p \<Longrightarrow> alike m (snd (take_new_block_ids m))"
  by (auto simp: alike_def take_new_block_ids_def mgr_ok_def same_mgr_def get_req_blocks_def)

lemma kv_inv_map:
  assumes "kv_inv ms p xs" "\<And>m. mgr_ok m p \<Longrightarrow> alike m (f m)"
  shows "kv_inv (map f ms) p xs"
proof -
  have "\<forall>m \<in> set ms. mgr_ok m p" using assms(1) by (simp add: kv_inv_def)
  then have "list_all2 alike ms (map f ms)"
    using assms(2) by (simp add: list_all2_conv_all_nth)
  then show ?thesis by (rule kv_inv_alike [OF assms(1)])
qed

lemma kv_inv_events:
  assumes "kv_inv ms p xs" "take_events p = (es, p')"
  shows "kv_inv ms p' xs"
proof (cases "enable_kv_cache_events p")
  case True
  then have p': "p' = p\<lparr>kv_event_queue := []\<rparr>" using assms(2) by (simp add: take_events_def)
  have "pool_inv p' xs" using kv_inv_pool [OF assms(1)] unfolding p' pool_inv_def by (simp only: pool_ok_events)
  then show ?thesis by (rule kv_inv_pool_change [OF assms(1)]) (simp_all add: p')
next
  case False
  then show ?thesis using assms by (simp add: take_events_def)
qed

lemma kv_inv_reset:
  assumes "kv_inv ms p xs" "reset_prefix_cache p = (ok, p')"
  shows "kv_inv ms p' xs"
proof (cases "len xs = num_gpu_blocks p - 1")
  case True
  then obtain q where "reset_prefix_cache p = (True, q)" "pool_inv q xs" "same_setup p q"
    "\<forall>c. rc q c = rc p c" "\<forall>c. hash_of q c = None"
    using reset_prefix_cache_ok [OF kv_inv_pool [OF assms(1)]] by blast
  then show ?thesis using kv_inv_pool_change [OF assms(1), of p'] assms(2) by simp
next
  case False
  then show ?thesis using reset_prefix_cache_busy [OF kv_inv_pool [OF assms(1)]] assms by simp
qed

lemma kv_inv_evict:
  assumes "kv_inv ms p xs" "\<And>i. i \<in> set ids \<Longrightarrow> 0 \<le> i" "evict_blocks cfg ids p = Inr p'"
  shows "kv_inv ms p' xs"
proof -
  note pi = kv_inv_pool [OF assms(1)]
  have "0 \<le> i \<and> i < num_gpu_blocks p" if "i \<in> set ids" for i
    using evict_blocks_in_range [OF assms(3) pi that] assms(2) [OF that] by simp
  then obtain q where q: "evict_blocks cfg ids p = Inr q" "pool_inv q xs" "same_setup p q"
    "\<forall>c. rc q c = rc p c" "\<forall>c. hash_of q c = (if int c \<in> set ids then None else hash_of p c)"
    using evict_blocks_ok [OF pi, of ids cfg] by blast
  then show ?thesis using kv_inv_pool_change [OF assms(1), of p'] assms(3) by simp
qed

lemma coord_free_inv:
  assumes "kv_inv (single_type_managers c) (block_pool c) xs"
  shows "\<exists>ms p xs'. coord_free rid c = Inr ((), c\<lparr>single_type_managers := ms, block_pool := p\<rparr>) \<and>
    kv_inv ms p xs' \<and> len xs \<le> len xs' \<and> length ms = length (single_type_managers c) \<and>
    (\<forall>j < length ms. free_post rid (single_type_managers c ! j) (ms ! j))"
proof -
  obtain ms p xs' u where l: "on_managers (free_step rid) () c = Inr (u, c\<lparr>single_type_managers := ms, block_pool := p\<rparr>)"
    "kv_inv ms p xs'" "len xs \<le> len xs'" "chained (\<lambda>i m m' u u'. free_post rid m m') 0 (single_type_managers c) ms () u"
    using free_loop.coordinator_ok [OF assms, where rid = rid and e = "()"] by auto
  have "free_post rid (single_type_managers c ! j) (ms ! j)" if "j < length (single_type_managers c)" for j
    using chained_nth [OF l(4) that] by simp
  then show ?thesis using l(1-3) chained_length [OF l(4)]
    by (intro exI [of _ ms] exI [of _ p] exI [of _ xs']) (simp add: coord_free_def)
qed

lemma kv_reach_inv: "kv_reach cfg k \<Longrightarrow> \<exists>xs. kv_inv (managers k) (kv_pool k) xs"
proof (induction rule: kv_reach.induct)
  case (init config mml hbs batched caching use_eagle logging ev dcp pcp k)
  then show ?case using KVCacheManager_init_inv(1) by blast
next
  case (computed k r b n k')
  then have "coordinator k' = coordinator k"
    by (auto simp: get_computed_blocks_def rbind_eq_Inr split: if_splits option.splits)
  then show ?case using computed.IH by simp
next
  case (fits k r nnc nc ne enc ok k')
  then obtain xs where xs: "kv_inv (managers k) (kv_pool k) xs" by blast
  then have pl: "\<forall>m \<in> set (managers k). plain m" by (simp add: kv_inv_def)
  have "managers k' = managers k \<and> kv_pool k' = kv_pool k"
    using fits.hyps(2)
    by (auto simp: can_fit_full_sequence_def coord_get_num_blocks_to_allocate_def on_managers_def Let_def
        rbind_eq_Inr dest: need_loop_keeps [OF pl])
  then show ?case using xs by auto
next
  case (slots k r nn nnc nc css la ne delay enc res r' k')
  then obtain xs where xs: "kv_inv (managers k) (kv_pool k) xs" by blast
  obtain k1 xs1 where "kv_inv (managers k1) (kv_pool k1) xs1"
    "allocate_slots cfg k r nn nnc nc la ne delay enc = Inr (None, r, k1) \<or>
     (\<exists>b r' k' xs'. allocate_slots cfg k r nn nnc nc la ne delay enc = Inr (Some b, r', k') \<and>
       kv_inv (managers k') (kv_pool k') xs')"
    using allocate_slots_outcome [OF xs slots.hyps(2) refl, of enc] by meson
  then show ?case using slots.hyps(3) by (metis Inr_inject Pair_inject)
next
  case (free k r k')
  then obtain xs where xs: "kv_inv (managers k) (kv_pool k) xs" by blast
  obtain ms p xs' where "coord_free (request_id r) (coordinator k) =
      Inr ((), (coordinator k)\<lparr>single_type_managers := ms, block_pool := p\<rparr>)" and inv: "kv_inv ms p xs'"
    using coord_free_inv [OF xs, of "request_id r"] by blast
  then have "managers k' = ms" "kv_pool k' = p" using free.hyps(2) by (auto simp: kvm_free_def)
  then show ?case using inv by blast
next
  case (skip k rid n k')
  then obtain xs where xs: "kv_inv (managers k) (kv_pool k) xs" by blast
  obtain ms p xs' where "coord_remove_skipped_blocks rid n (coordinator k) =
      Inr ((), (coordinator k)\<lparr>single_type_managers := ms, block_pool := p\<rparr>)" and inv: "kv_inv ms p xs'"
    using skip_phase [OF xs, of rid n] by blast
  then have "managers k' = ms" "kv_pool k' = p" using skip.hyps(2) by (auto simp: kvm_remove_skipped_blocks_def)
  then show ?case using inv by blast
next
  case (cache k n r r' k')
  then obtain xs where xs: "kv_inv (managers k) (kv_pool k) xs" by blast
  show ?case
  proof (cases "kvm_enable_caching k")
    case True
    obtain q ms p xs' where c: "coord_cache_blocks cfg r n (coordinator k) =
        Inr (q, (coordinator k)\<lparr>single_type_managers := ms, block_pool := p\<rparr>)" and inv: "kv_inv ms p xs'"
      using cache_phase [OF xs cache.hyps(2), of cfg r] cache.hyps(3) by blast
    then have "managers k' = ms" "kv_pool k' = p" using cache.hyps(4) True by (auto simp: kvm_cache_blocks_def)
    then show ?thesis using inv by blast
  next
    case False
    then have "k' = k" using cache.hyps(4) by (simp add: kvm_cache_blocks_def)
    then show ?thesis using xs by blast
  qed
next
  case (evict k ids k')
  then obtain xs where xs: "kv_inv (managers k) (kv_pool k) xs" by blast
  obtain p where p: "evict_blocks cfg ids (kv_pool k) = Inr p" "managers k' = managers k" "kv_pool k' = p"
    using evict.hyps(3) by (auto simp: kvm_evict_blocks_def rbind_eq_Inr)
  then show ?case using kv_inv_evict [OF xs evict.hyps(2) p(1)] by auto
next
  case (reset k ok k')
  then obtain xs where xs: "kv_inv (managers k) (kv_pool k) xs" by blast
  obtain ok' p where p: "reset_prefix_cache (kv_pool k) = (ok', p)" by fastforce
  have "managers k' = managers k \<and> kv_pool k' = p"
    using reset.hyps(2) p by (auto simp: kvm_reset_prefix_cache_def Let_def split: if_splits option.splits)
  then show ?case using kv_inv_reset [OF xs p] by auto
next
  case (prefix k rid ns k')
  then obtain xs where xs: "kv_inv (managers k) (kv_pool k) xs" by blast
  then have "\<forall>m \<in> set (managers k). mgr_ok m (kv_pool k)" by (simp add: kv_inv_def)
  note al = common_prefix_alike [OF this]
  show ?case
  proof (cases "coord_class (coordinator k) = KVCacheCoordinatorNoPrefixCache")
    case True
    then show ?thesis using xs prefix.hyps(2)
      by (auto simp: kvm_get_num_common_prefix_blocks_def coord_get_num_common_prefix_blocks_def)
  next
    case False
    then obtain acc ms p where "each_manager (\<lambda>i acc m p. case mgr_get_num_common_prefix_blocks rid m p of
        (n, m') \<Rightarrow> Inr (acc @ [n], m', p)) 0 (managers k) [] (kv_pool k) = Inr (acc, ms, p)"
      "managers k' = ms" "kv_pool k' = p"
      using prefix.hyps(2)
      by (auto simp: kvm_get_num_common_prefix_blocks_def coord_get_num_common_prefix_blocks_def
          on_managers_def rbind_eq_Inr)
    then have "list_all2 alike (managers k) (managers k') \<and> kv_pool k' = kv_pool k"
      using al [where k = 0] by blast
    then show ?thesis using kv_inv_alike [OF xs] by auto
  qed
next
  case (events k es k')
  then obtain xs where xs: "kv_inv (managers k) (kv_pool k) xs" by blast
  obtain q where q: "take_events (kv_pool k) = (es, q)" "managers k' = managers k" "kv_pool k' = q"
    using events.hyps(2) by (auto simp: kvm_take_events_def split: prod.splits)
  then show ?case using kv_inv_events [OF xs q(1)] by auto
next
  case (ids k ns k')
  then obtain xs where xs: "kv_inv (managers k) (kv_pool k) xs" by blast
  have "managers k' = map (\<lambda>m. snd (take_new_block_ids m)) (managers k)" "kv_pool k' = kv_pool k"
    using ids.hyps(2) by (auto simp: kvm_take_new_block_ids_def)
  then show ?case using kv_inv_map [OF xs, of "\<lambda>m. snd (take_new_block_ids m)"] alike_take_ids by auto
next
  case (starts k)
  then obtain xs where xs: "kv_inv (managers k) (kv_pool k) xs" by blast
  have "managers (kvm_new_step_starts k) = map mgr_new_step_starts (managers k)"
    "kv_pool (kvm_new_step_starts k) = kv_pool k"
    by (simp_all add: kvm_new_step_starts_def coord_new_step_starts_def)
  then show ?case using kv_inv_map [OF xs, of mgr_new_step_starts] alike_new_step by auto
next
  case (stats k st k')
  then have "coordinator k' = coordinator k" by (auto simp: make_prefix_cache_stats_def split: if_splits)
  then show ?case using stats.IH by simp
qed

lemma all_refs_zero_iff: "all_refs ms b = 0 \<longleftrightarrow> (\<forall>m \<in> set ms. mgr_refs m b = 0)"
  by (induction ms) auto

lemma mgr_refs_zero_iff:
  assumes "mgr_ok m p"
  shows "mgr_refs m b = 0 \<longleftrightarrow> (\<forall>rid. Blk b \<notin> set (get_req_blocks rid m))"
proof
  show "\<forall>rid. Blk b \<notin> set (get_req_blocks rid m)" if "mgr_refs m b = 0"
    using that in_held_count [of b _ m] by fastforce
next
  assume a: "\<forall>rid. Blk b \<notin> set (get_req_blocks rid m)"
  have d: "distinct (map fst (req_to_blocks m))" using assms by (simp add: mgr_ok_def)
  have "Blk b \<notin> set bs" if "(rid, bs) \<in> set (req_to_blocks m)" for rid bs
  proof -
    have "get_req_blocks rid m = bs" using map_of_is_SomeI [OF d that] by (simp add: get_req_blocks_def)
    then show ?thesis using a by metis
  qed
  then have "\<forall>x \<in> set (req_to_blocks m). count_list (snd x) (Blk b) = 0"
    by (force simp: count_list_0_iff)
  then show "mgr_refs m b = 0" by (simp add: list_refs_def)
qed


section \<open>A concrete manager\<close>

text \<open>One full-attention group with blocks of four tokens and seven blocks besides the null block.\<close>

definition demo_spec :: KVCacheSpec where
  "demo_spec = FullAttentionSpec \<lparr>attn_block_size = 4, num_kv_heads = 1, head_size = 8,
     attn_dtype = ''bfloat16'', kv_quant_mode = NONE, page_size_padded = None\<rparr>
     \<lparr>head_size_v = 8, full_sliding_window = None, full_attention_chunk_size = None\<rparr>"

definition demo_config :: KVCacheConfig where
  "demo_config = \<lparr>num_blocks = 8, kv_cache_tensors = [],
     kv_cache_groups = [\<lparr>layer_names = [''l0''], group_spec = demo_spec, is_eagle_group = False\<rparr>]\<rparr>"

definition demo_kv :: KVCacheManager where
  "demo_kv = projr (KVCacheManager_init demo_config 64 4 None True False False False 1 1)"

lemma demo_config_ok:
  "\<forall>g \<in> set (kv_cache_groups demo_config). attention_spec (group_spec g)" "0 < num_blocks demo_config"
  by (simp_all add: demo_config_def demo_spec_def)

lemma demo_kv_init: "KVCacheManager_init demo_config 64 4 None True False False False 1 1 = Inr demo_kv"
proof -
  obtain c where c: "KVCacheCoordinator_init UnitaryKVCacheCoordinator demo_config 64 64 False True False 1 1 4 = Inr c"
    using KVCacheCoordinator_init_ok [OF demo_config_ok] by blast
  then have "\<exists>k. KVCacheManager_init demo_config 64 4 None True False False False 1 1 = Inr k"
    by (simp add: KVCacheManager_init_def get_kv_cache_coordinator_def Unitary_init_def)
      (simp add: demo_config_def demo_spec_def Unitary_init_def py_get_def py_pos_def py_assert_def)
  then show ?thesis by (auto simp: demo_kv_def)
qed

lemmas demo_kv_inv = KVCacheManager_init_inv [OF demo_kv_init demo_config_ok]

lemma demo_kv_reach: "kv_reach cfg demo_kv"
  by (rule kv_reach.init [OF demo_kv_init demo_config_ok])


definition demo_request :: Request where
  "demo_request = text_request ''a'' [5, 6, 7]"

lemma demo_managers: "\<exists>m. managers demo_kv = [m] \<and> fresh_manager True 0 4 m"
proof -
  obtain m where m: "managers demo_kv = [m]"
    using demo_kv_inv(3) by (auto simp: demo_config_def length_Suc_conv)
  then show ?thesis
    using demo_kv_inv(4) by (simp add: demo_config_def demo_spec_def group_block_size_def)
qed

lemma demo_call: "slots_call demo_cfg demo_kv demo_request 3 0 None [[]] 2 0 False"
proof -
  obtain m where m: "managers demo_kv = [m]" "fresh_manager True 0 4 m" using demo_managers by blast
  then have "get_req_blocks rid m = []" "mgr_block_size m = 4" "kv_cache_group_id m = 0" for rid
    by (simp_all add: fresh_manager_def get_req_blocks_def)
  then show ?thesis
    using m(1) demo_kv_inv(2,5,6,8)
    by (simp add: slots_call_def situation_def running_in_def cacheable_in_def cache_request_ok_def
        computed_list_def demo_request_def text_request_def num_tokens_def memo_ok_def
        group_hashes_def)
qed


theorem allocate_slots_progress_witness:
  "\<exists>b r' k'. allocate_slots demo_cfg demo_kv demo_request 3 0 None 2 0 False 0 = Inr (Some b, r', k')"
proof (rule allocate_slots_progress [OF demo_kv_inv(1) demo_call refl])
  obtain m where m: "managers demo_kv = [m]" "fresh_manager True 0 4 m" using demo_managers by blast
  have "get_num_free_blocks (kv_pool demo_kv) = 7"
    using pool_inv_free [OF kv_inv_pool [OF demo_kv_inv(1)]] by (simp add: demo_config_def)
  then show "costs (\<lambda>i m p. blocks_cost (request_id demo_request)
      (min (num_computed_tokens demo_request + 0 + 0 + 3 + 2) (kvm_max_model_len demo_kv)) m + len ([[]] ! i))
      0 (managers demo_kv) (kv_pool demo_kv) \<le> get_num_free_blocks (kv_pool demo_kv)"
    using m demo_kv_inv(8)
    by (simp add: blocks_cost_def fresh_manager_def get_req_blocks_def demo_request_def text_request_def cdiv_def)
qed

section \<open>Releasing\<close>

text \<open>C36: freeing a request always succeeds: afterwards it holds no block in any group, every other
  request holds what it held, no free block is lost, and when no request holds blocks any more, all
  blocks but the null block are free and the prefix cache can be reset.\<close>

theorem free_releases_blocks:
  assumes "kv_inv (managers k) (kv_pool k) xs"
  shows "\<exists>k' xs'. kvm_free k r = Inr k' \<and> kv_inv (managers k') (kv_pool k') xs' \<and> len xs \<le> len xs' \<and>
    kv_step k k' (request_id r) \<and> (\<forall>m \<in> set (managers k'). get_req_blocks (request_id r) m = []) \<and>
    ((\<forall>m \<in> set (managers k'). \<forall>rid. get_req_blocks rid m = []) \<longrightarrow>
      get_num_free_blocks (kv_pool k') = num_gpu_blocks (kv_pool k') - 1 \<and> fst (reset_prefix_cache (kv_pool k')))"
proof -
  obtain ms p xs' where c: "coord_free (request_id r) (coordinator k) =
      Inr ((), (coordinator k)\<lparr>single_type_managers := ms, block_pool := p\<rparr>)" "kv_inv ms p xs'" "len xs \<le> len xs'"
    "length ms = length (managers k)" "\<forall>j < length ms. free_post (request_id r) (managers k ! j) (ms ! j)"
    using coord_free_inv [OF assms, of "request_id r"] by blast
  let ?k = "k\<lparr>coordinator := (coordinator k)\<lparr>single_type_managers := ms, block_pool := p\<rparr>\<rparr>"
  have run: "kvm_free k r = Inr ?k" using c(1) by (simp add: kvm_free_def)
  have step: "kv_step k ?k (request_id r)" using c(4,5) by (simp add: kv_step_def free_post_def)
  have none: "\<forall>m \<in> set ms. get_req_blocks (request_id r) m = []"
    using c(4,5) by (auto simp: in_set_conv_nth free_post_def)
  have idle: "get_num_free_blocks p = num_gpu_blocks p - 1 \<and> fst (reset_prefix_cache p)"
    if i: "\<forall>m \<in> set ms. \<forall>rid. get_req_blocks rid m = []"
  proof -
    note pi = kv_inv_pool [OF c(2)]
    have "rc p b = 0" if "0 < b" for b
    proof -
      have "mgr_refs m b = 0" if "m \<in> set ms" for m
        using mgr_refs_zero_iff [of m p b] i that c(2) by (simp add: kv_inv_def)
      then show ?thesis using c(2) \<open>0 < b\<close> all_refs_zero [of ms b] by (simp add: kv_inv_def)
    qed
    then have "set xs' = {b. in_pool p b}" using pool_inv_free_iff [OF pi] by auto
    also have "\<dots> = {1..<nat (num_gpu_blocks p)}" by auto
    finally have "length xs' = card {1..<nat (num_gpu_blocks p)}"
      using distinct_card [OF pool_inv_distinct [OF pi]] by simp
    moreover have "0 < num_gpu_blocks p" using pi by (simp add: pool_inv_def pool_ok_def)
    ultimately have "len xs' = num_gpu_blocks p - 1" by simp
    then show ?thesis using pool_inv_free [OF pi] reset_prefix_cache_ok [OF pi] by auto
  qed
  show ?thesis using run step none idle c(2,3) by (intro exI [of _ ?k] exI [of _ xs']) simp
qed

theorem free_releases_blocks_witness:
  "\<exists>k'. kvm_free demo_kv demo_request = Inr k' \<and> (\<forall>m \<in> set (managers k'). get_req_blocks ''a'' m = [])"
  using free_releases_blocks [OF demo_kv_inv(1), of demo_request]
  by (auto simp: demo_request_def text_request_def)

end
