(* ===== verification/SchedDemo.thy ===== *)
theory SchedDemo
  imports SchedUpdate KVReach
begin

text \<open>
  A small scheduler without connectors, on which the theorems about scheduling are applied: two KV
  blocks of four tokens, four tokens per step, at most three running requests.
\<close>

definition demo_args :: scheduler_args where
  "demo_args = \<lparr>arg_policy = ''fcfs'', max_num_seqs = 3, arg_max_num_scheduled_tokens = None,
     max_num_batched_tokens = 4, arg_max_model_len = 64, arg_long_prefill_token_threshold = 0,
     arg_enable_chunked_prefill = True, arg_disable_chunked_mm_input = False, arg_async_scheduling = False,
     arg_max_loras = None, speculative_config = None, arg_is_encoder_decoder = False, mm_budget = None,
     kv_transfer_recompute = None, num_gpu_blocks_set = Some 3, arg_block_size = 4, arg_hash_block_size = None,
     enable_prefix_caching = False, mamba_cache_mode = ''none'', arg_cache_block_size = 4,
     arg_reserve_full_isl = False, arg_log_stats = False, include_finished_set = False,
     arg_kv_cache_events = False, pipeline_parallel_size = 1, arg_v2_model_runner = False,
     arg_dcp = 1, arg_pcp = 1, arg_hashing = demo_cfg, arg_hasher = None\<rparr>"

definition no_externals :: "unit externals" where
  "no_externals = \<lparr>has_connector = False, supports_hma = False,
     get_num_new_matched_tokens = (\<lambda>r n e. ((Some 0, False), e)), update_state_after_alloc = (\<lambda>r b n e. e),
     request_finished = (\<lambda>r b e. ((False, None), e)), request_finished_all_groups = (\<lambda>r b e. ((False, None), e)),
     build_connector_meta = (\<lambda>out e. e), reset_cache = (\<lambda>e. (True, e)), update_connector_output = (\<lambda>e. e),
     connector_take_events = (\<lambda>e. ([], e)), publish = (\<lambda>evs e. e), has_ec_connector = False,
     ec_has_cache_item = (\<lambda>h e. False), ec_update_state_after_alloc = (\<lambda>r i e. e),
     ec_build_connector_meta = (\<lambda>out e. e), grammar_ready = (\<lambda>r e. True), should_advance = (\<lambda>r e. False),
     accept_tokens = (\<lambda>rid ts e. (True, e)), validate_tokens = (\<lambda>rid ts e. ts)\<rparr>"

definition small_config :: KVCacheConfig where
  "small_config = \<lparr>num_blocks = 3, kv_cache_tensors = [],
     kv_cache_groups = [\<lparr>layer_names = [''l0''], group_spec = demo_spec, is_eagle_group = False\<rparr>]\<rparr>"

text \<open>Two requests have arrived and none runs yet.\<close>

definition demo_state :: "(sched_config \<times> unit Scheduler) res" where
  "demo_state =
     rbind (Scheduler_init demo_args small_config ()) (\<lambda>(c, s0).
     rbind (sched_add_request no_externals c 0 (text_request ''a'' [1, 2, 3]) s0) (\<lambda>s1.
     rbind (sched_add_request no_externals c 0 (text_request ''b'' [1, 2]) s1) (\<lambda>s2.
     Inr (c, s2))))"

text \<open>The first step has run, and a third request has arrived.\<close>

definition demo_state2 :: "(sched_config \<times> unit Scheduler) res" where
  "demo_state2 =
     rbind demo_state (\<lambda>(c, s).
     rbind (schedule no_externals c 0 s) (\<lambda>(out, s1).
     rbind (sched_add_request no_externals c 0 (text_request ''d'' [7]) s1) (\<lambda>s2.
     Inr (c, s2))))"

end
