(* ===== verification/SchedLimits.thy ===== *)
theory SchedLimits
  imports SchedFrame SchedDemo
begin

text \<open>
  What one scheduling step may do: it keeps to its token budget and to the number of running
  requests, and it neither loses nor duplicates a request.
\<close>

section \<open>Queues\<close>

lemma heappush_mset: "mset (heappush lt x h) = add_mset x (mset h)"
  using siftdown_mset [of "length h" "h @ [x]" lt 0] by (simp add: heappush_def)

lemma heappop_mset: "heappop lt h = Inr (r, h') \<Longrightarrow> mset h = add_mset r (mset h') \<and> r = h ! 0"
proof -
  assume a: "heappop lt h = Inr (r, h')"
  then have ne: "h \<noteq> []" by (auto simp: heappop_def)
  then obtain b l where h: "h = b @ [l]" by (metis append_butlast_last_id)
  show ?thesis
  proof (cases b)
    case (Cons y ys)
    have "mset (siftup lt 0 (b[0 := l])) = mset (b[0 := l])"
      using siftup_mset [of 0 "b[0 := l]" lt] Cons by simp
    then show ?thesis using a h Cons by (auto simp: heappop_def Let_def)
  qed (use a h in \<open>auto simp: heappop_def Let_def\<close>)
qed

lemma add_request_mset: "mset (queue_list (add_request lt r q)) = add_mset r (mset (queue_list q))"
  by (cases q) (simp_all add: heappush_mset)

lemma prepend_request_mset: "mset (queue_list (prepend_request lt r q)) = add_mset r (mset (queue_list q))"
  by (cases q) (simp_all add: heappush_mset)

lemma pop_request_mset:
  "rpost (pop_request lt q) (\<lambda>(r, q'). mset (queue_list q) = add_mset r (mset (queue_list q')) \<and> peek_request q = Inr r)"
  by (cases q) (auto intro!: rpostI simp: rbind_eq_Inr dest!: heappop_mset split: list.splits if_splits)

lemma heap_iter_mset: "length h = n \<Longrightarrow> mset (heap_iter lt n h) = mset h"
proof (induction n arbitrary: h)
  case (Suc n)
  then have "h \<noteq> []" by auto
  then obtain r h' where p: "heappop lt h = Inr (r, h')"
    by (cases "butlast h = []") (auto simp: heappop_def Let_def)
  then have "mset h = add_mset r (mset h')" by (simp add: heappop_mset)
  moreover from this have "length h' = n" using Suc.prems by (metis size_mset size_add_mset Suc_inject)
  ultimately show ?case using Suc.IH [of h'] p by simp
qed simp

lemma prepend_requests_mset:
  "mset (queue_list (prepend_requests lt rs q)) = mset (queue_list rs) + mset (queue_list q)"
proof -
  have i: "mset (queue_iter lt rs) = mset (queue_list rs)" by (cases rs) (simp_all add: heap_iter_mset)
  have "mset (queue_list (fold (add_request lt) xs q)) = mset xs + mset (queue_list q)" for xs
    by (induction xs arbitrary: q) (simp_all add: add_request_mset)
  moreover have "mset (fold (\<lambda>r acc. r # acc) xs ys) = mset xs + mset ys" for xs and ys :: "'a list"
    by (induction xs arbitrary: ys) simp_all
  ultimately show ?thesis using i by (cases q) simp_all
qed

section \<open>Bounds on the number of tokens\<close>

definition config_ok :: "sched_config \<Rightarrow> bool" where
  "config_ok c \<longleftrightarrow> 0 \<le> max_num_scheduled_tokens c \<and> (need_mamba_block_aligned_split c \<longrightarrow> 0 < cache_block_size c)"

text \<open>The tokens computed for a request never exceed those it has and those that are on their way.\<close>

definition tokens_ok :: "sched_config \<Rightarrow> Request \<Rightarrow> bool" where
  "tokens_ok c r \<longleftrightarrow> num_computed_tokens r \<le> max_model_len c - 1 \<and>
     num_computed_tokens r \<le> num_tokens r + num_output_placeholders r"

lemma tokens_ok_like: "like r r' \<Longrightarrow> tokens_ok c r' = tokens_ok c r"
  by (simp add: like_def tokens_ok_def num_tokens_def)

lemma running_num_new_bounds:
  "tokens_ok c r \<Longrightarrow> 0 \<le> budget \<Longrightarrow>
     0 \<le> running_num_new_tokens c r budget \<and> running_num_new_tokens c r budget \<le> budget"
  by (auto simp: running_num_new_tokens_def tokens_ok_def Let_def num_tokens_def num_tokens_with_spec_def)

lemma encoder_loop_bounds:
  "0 \<le> es_new st \<Longrightarrow> rpost (encoder_inputs_loop x e c r computed shift fs st)
     (\<lambda>st'. 0 \<le> es_new st' \<and> es_new st' \<le> es_new st)"
proof (induction fs arbitrary: st)
  case (Cons p fs)
  obtain i f where p: "p = (i, f)" by (cases p)
  let ?P = "\<lambda>st'. 0 \<le> es_new st' \<and> es_new st' \<le> es_new st"
  have ih: "rpost (encoder_inputs_loop x e c r computed shift fs st1) ?P" if "es_new st1 = es_new st" for st1
    using Cons.IH [of st1] Cons.prems that by simp
  show ?case
    unfolding p encoder_inputs_loop.simps Let_def
    using Cons.prems by (auto simp: ih)
qed simp

lemma try_schedule_bounds:
  "0 \<le> n \<Longrightarrow> rpost (try_schedule_encoder_inputs x c r computed n b shift s)
     (\<lambda>((inputs, n', nb, ext'), s'). 0 \<le> n' \<and> n' \<le> n)"
  by (auto simp: try_schedule_encoder_inputs_def intro!: rpost_conseq [OF encoder_loop_bounds])

lemma mamba_split_bounds:
  assumes "0 \<le> n" "0 < cache_block_size c"
  shows "rpost (mamba_block_aligned_split c r n nl ne) (\<lambda>n'. 0 \<le> n' \<and> n' \<le> n)"
proof -
  have "0 \<le> n div cache_block_size c * cache_block_size c"
    using assms by (simp add: pos_imp_zdiv_nonneg_iff)
  moreover have "n div cache_block_size c * cache_block_size c \<le> n"
    using assms(2) by (metis div_mod_decomp_int le_add_same_cancel1 pos_mod_sign)
  ultimately show ?thesis using assms(1) by (auto simp: mamba_block_aligned_split_def Let_def)
qed

section \<open>The invariant of the loop over the running requests\<close>

definition listed :: "'e Scheduler \<Rightarrow> string list" where
  "listed s = running s @ queue_list (waiting s) @ queue_list (skipped_waiting s)"

text \<open>The books of a step with budget \<open>B\<close>: every scheduled request has tokens, and what has been
  given out and what is left add up to the budget.\<close>

definition book :: "int \<Rightarrow> sched_step \<Rightarrow> bool" where
  "book B t \<longleftrightarrow> distinct (map fst (step_tokens t)) \<and> (\<forall>(k, n) \<in> set (step_tokens t). 0 < n) \<and>
     sum_list (map snd (step_tokens t)) + token_budget t = B \<and> 0 \<le> token_budget t"

definition run_inv :: "string multiset \<Rightarrow> int \<Rightarrow> sched_config \<Rightarrow> 'e Scheduler \<Rightarrow> sched_step \<Rightarrow> bool" where
  "run_inv M B c s t \<longleftrightarrow> mset (listed s) = M \<and> book B t \<and> len (running s) \<le> max_num_running_reqs c \<and>
     (\<forall>rid \<in> set (running s). tokens_ok c (objs s rid)) \<and> new_reqs t = [] \<and> resumed_reqs t = [] \<and>
     distinct (running_reqs t) \<and> set (map fst (step_tokens t)) = set (running_reqs t)"

text \<open>The requests scheduled so far stand before position \<open>i\<close>.\<close>

definition before_pos :: "'e Scheduler \<Rightarrow> sched_step \<Rightarrow> int \<Rightarrow> bool" where
  "before_pos s t i \<longleftrightarrow> 0 \<le> i \<and> set (running_reqs t) \<subseteq> set (take (nat i) (running s))"

text \<open>While slots are sought for \<open>rid\<close>, the requests scheduled so far stand before it.\<close>

definition before_req :: "string \<Rightarrow> 'e Scheduler \<Rightarrow> sched_step \<Rightarrow> int \<Rightarrow> bool" where
  "before_req rid s t i \<longleftrightarrow> (\<exists>A C. running s = A @ rid # C \<and> set (running_reqs t) \<subseteq> set A \<and> len A \<le> i)"

abbreviation one_place :: "string multiset \<Rightarrow> bool" where
  "one_place M \<equiv> \<exists>xs. distinct xs \<and> mset xs = M"

lemma run_inv_distinct:
  assumes "run_inv M B c s t" "one_place M"
  shows "distinct (listed s)" "distinct (running s)"
proof -
  show "distinct (listed s)" using assms mset_eq_imp_distinct_iff unfolding run_inv_def by blast
  then show "distinct (running s)" by (simp add: listed_def)
qed

lemma listed_same: "same_lists s s' \<Longrightarrow> listed s' = listed s"
  by (simp add: same_lists_def listed_def)

lemma run_inv_quiet: "run_inv M B c s t \<Longrightarrow> quiet s s' \<Longrightarrow> run_inv M B c s' t"
  using tokens_ok_like [OF quiet_like, of s s'] quiet_lists [of s s'] listed_same [of s s']
  by (simp add: run_inv_def same_lists_def)

lemma before_req_quiet: "before_req rid s t i \<Longrightarrow> quiet s s' \<Longrightarrow> before_req rid s' t i"
  using quiet_lists [of s s'] by (simp add: before_req_def same_lists_def)

lemma preempt_request_mset:
  "rpost (preempt_request c now v s) (\<lambda>s'. mset (listed s') = add_mset v (mset (listed s)) \<and>
     skipped_waiting s' = skipped_waiting s \<and> requests s' = requests s \<and>
     num_waiting_for_streaming_input s' = num_waiting_for_streaming_input s \<and>
     objs s' = (objs s)(v := preempted c now (objs s v)))"
  by (simp add: preempt_request_def Let_def listed_def prepend_request_mset)

lemma butlast_remove1: "distinct xs \<Longrightarrow> xs \<noteq> [] \<Longrightarrow> butlast xs = remove1 (last xs) xs"
  by (induction xs) auto

lemma sum_delete:
  "distinct (map fst al) \<Longrightarrow> map_of al k = Some n \<Longrightarrow>
     sum_list (map snd (AList.delete k al)) = sum_list (map snd al) - n"
  for n :: int
proof (induction al)
  case (Cons a al)
  have "AList.delete k al = al" if "k \<notin> fst ` set al"
    using that by (force simp: AList.delete_eq filter_id_conv)
  then show ?case using Cons by (auto simp: AList.delete_eq split: if_splits)
qed simp

lemma delete_positive:
  "book B t \<Longrightarrow> \<forall>(k, n) \<in> set (AList.delete v (step_tokens t)). 0 < n"
  by (auto simp: book_def AList.delete_eq)

lemma unschedule_book:
  assumes "book B t"
  shows "rpost (unschedule v s t) (\<lambda>t'. book B t' \<and> running_reqs t' = remove1 v (running_reqs t) \<and>
    new_reqs t' = new_reqs t \<and> resumed_reqs t' = resumed_reqs t \<and> token_budget t \<le> token_budget t' \<and>
    fst ` set (step_tokens t') = fst ` set (step_tokens t) - {v})"
proof -
  have "0 < n" if "map_of (step_tokens t) v = Some n" for n
    using assms map_of_SomeD [OF that] by (auto simp: book_def)
  moreover have "fst ` set (AList.delete v (step_tokens t)) = fst ` set (step_tokens t) - {v}"
    by (auto simp: AList.delete_eq)
  ultimately show ?thesis
    using assms delete_positive [OF assms, of v]
    by (fastforce simp: unschedule_def book_def sum_delete AList.distinct_delete split: option.split)
qed

definition victim_taken :: "string \<Rightarrow> 'e Scheduler \<Rightarrow> sched_step \<Rightarrow> 'e Scheduler \<Rightarrow> sched_step \<Rightarrow> bool" where
  "victim_taken v s t s1 t1 \<longleftrightarrow> v \<in> set (running s) \<and> s1 = s\<lparr>running := remove1 v (running s)\<rparr> \<and>
     running_reqs t1 = remove1 v (running_reqs t) \<and> new_reqs t1 = new_reqs t \<and> resumed_reqs t1 = resumed_reqs t \<and>
     token_budget t \<le> token_budget t1 \<and> fst ` set (step_tokens t1) = fst ` set (step_tokens t) - {v}"

lemma take_victim_taken:
  assumes "run_inv M B c s t" "before_req rid s t i" "one_place M"
  shows "rpost (take_victim c s t i) (\<lambda>(v, s1, t1, i1). victim_taken v s t s1 t1 \<and> book B t1 \<and>
    i1 = (if v \<in> set (running_reqs t) then i - 1 else i))"
proof -
  have b: "book B t" and k: "fst ` set (step_tokens t) = set (running_reqs t)" using assms(1) by (simp_all add: run_inv_def)
  have d: "distinct (running s)" using run_inv_distinct [OF assms(1,3)] by simp
  obtain A C where a: "running s = A @ rid # C" "set (running_reqs t) \<subseteq> set A"
    using assms(2) by (auto simp: before_req_def)
  have "last (running s) \<in> set (rid # C)" unfolding a(1) last_appendR [OF list.simps(3)] by (rule last_in_set) simp
  then have l: "last (running s) \<notin> set (running_reqs t)" "running s \<noteq> []" using a d by auto
  have m: "rpost (max_by_key (objs s) (running s)) (\<lambda>v. v \<in> set (running s))"
    by (rule rpostI) (rule max_by_key_in)
  show ?thesis
    unfolding take_victim_def Let_def
    using l b k by (auto simp: victim_taken_def butlast_remove1 [OF d] remove1_idem
        intro!: rpost_conseq [OF m] rpost_conseq [OF unschedule_book])
qed

lemma take_victim_run_inv:
  assumes "run_inv M B c s t" "one_place M" "victim_taken v s t s1 t1" "book B t1" "preempt_request c now v s1 = Inr s3"
  shows "run_inv M B c s3 (t1\<lparr>preempted_reqs := preempted_reqs t1 @ [v]\<rparr>)" "running s3 = remove1 v (running s)"
proof -
  have d: "distinct (running s)" using run_inv_distinct [OF assms(1,2)] by simp
  have r: "running s3 = remove1 v (running s)"
    using rpostD [OF preempt_request_running assms(5)] assms(3) by (simp add: victim_taken_def)
  have l: "mset (listed s3) = mset (listed s)"
    using rpostD [OF preempt_request_mset assms(5)] assms(3) by (auto simp: victim_taken_def listed_def)
  have o: "objs s3 k = objs s k" if "k \<in> set (running s3)" for k
    using rpostD [OF preempt_request_mset assms(5)] assms(3) that d r by (auto simp: victim_taken_def)
  show "run_inv M B c s3 (t1\<lparr>preempted_reqs := preempted_reqs t1 @ [v]\<rparr>)"
    using assms(1,3,4) l o r d unfolding run_inv_def
    by (auto simp: victim_taken_def book_def length_remove1)
  show "running s3 = remove1 v (running s)" by (rule r)
qed

lemma before_req_victim:
  assumes "before_req rid s t i" "distinct (running s)" "victim_taken v s t s1 t1" "distinct (running_reqs t)"
    and "running s3 = remove1 v (running s)" "i1 = (if v \<in> set (running_reqs t) then i - 1 else i)"
    and "running_reqs t3 = running_reqs t1"
  shows "if v = rid then before_pos s3 t3 i1 else before_req rid s3 t3 i1"
proof -
  obtain A C where a: "running s = A @ rid # C" "set (running_reqs t) \<subseteq> set A" "len A \<le> i"
    using assms(1) by (auto simp: before_req_def)
  have r: "set (running_reqs t3) = set (running_reqs t) - {v}" using assms(3,4,7) by (simp add: victim_taken_def)
  show ?thesis
  proof (cases "v = rid")
    case True
    have "take (nat i) (A @ C) = A @ take (nat i - length A) C" using a(3) by simp
    then show ?thesis using True a assms(2,5,6) r by (auto simp: before_pos_def remove1_append)
  next
    case False
    show ?thesis
    proof (cases "v \<in> set A")
      case True
      have "running s3 = remove1 v A @ rid # C" using True a(1) assms(5) by (simp add: remove1_append)
      moreover have "set (running_reqs t3) \<subseteq> set (remove1 v A)" using a(1,2) assms(2) r by auto
      moreover have "len (remove1 v A) = len A - 1" using True length_pos_if_in_set [OF True]
        by (simp add: length_remove1 of_nat_diff Suc_leI)
      then have "len (remove1 v A) \<le> i1" using a(3) assms(6) by auto
      ultimately show ?thesis using False by (auto simp: before_req_def)
    next
      case out: False
      have "running s3 = A @ rid # remove1 v C" using out a(1) assms(5) False by (simp add: remove1_append)
      moreover have "i1 = i" using out a(2) assms(6) by auto
      ultimately show ?thesis using False a r by (auto simp: before_req_def)
    qed
  qed
qed

lemma before_pos_quiet: "before_pos s t i \<Longrightarrow> quiet s s' \<Longrightarrow> before_pos s' t i"
  using quiet_lists [of s s'] by (simp add: before_pos_def same_lists_def)

lemma alloc_loop_inv:
  assumes "run_inv M B c s t" "before_req rid s t i" "n \<le> token_budget t" "one_place M"
  shows "rpost (alloc_loop c now rid n s t i) (\<lambda>(b, s', t', i'). run_inv M B c s' t' \<and>
    (if b = None then before_pos s' t' i' else before_req rid s' t' i' \<and> n \<le> token_budget t'))"
proof -
  let ?I = "\<lambda>s t i. run_inv M B c s t \<and> before_req rid s t i \<and> n \<le> token_budget t"
  let ?J = "\<lambda>s t i. run_inv M B c s t \<and> before_pos s t i"
  have "rpost (alloc_loop c now rid n s t i) (\<lambda>(b, s', t', i'). if b = None then ?J s' t' i' else ?I s' t' i')"
  proof (rule alloc_loop_rule)
    show "?I s t i" using assms(1-3) by simp
    show "?I (s\<lparr>kv_cache_manager := k, objs := (objs s)(rid := r)\<rparr>) t i"
      if "?I s t i" "allocate_slots (hashing c) (kv_cache_manager s) (objs s rid) n 0 None
        (num_lookahead_tokens c) 0 False 0 = Inr (nb, r, k)" for s :: "'a Scheduler" and t i nb r k
      using that(1) quiet_slots [OF that(2) quiet_refl] by (blast intro: run_inv_quiet before_req_quiet)
    show "if v = rid then ?J s3 (t2\<lparr>preempted_reqs := preempted_reqs t2 @ [v]\<rparr>) i2
        else ?I s3 (t2\<lparr>preempted_reqs := preempted_reqs t2 @ [v]\<rparr>) i2"
      if "?I s t i" "take_victim c s t i = Inr (v, s2, t2, i2)" "preempt_request c now v s2 = Inr s3"
      for s :: "'a Scheduler" and t i v s2 t2 i2 s3
    proof -
      have i: "run_inv M B c s t" "before_req rid s t i" "n \<le> token_budget t" using that(1) by auto
      from rpostD [OF take_victim_taken [OF i(1,2) assms(4)] that(2)]
      have v: "victim_taken v s t s2 t2" "book B t2" "i2 = (if v \<in> set (running_reqs t) then i - 1 else i)" by auto
      note r = take_victim_run_inv [OF i(1) assms(4) v(1,2) that(3)]
      have "distinct (running s)" "distinct (running_reqs t)"
        using run_inv_distinct [OF i(1) assms(4)] i(1) by (simp_all add: run_inv_def)
      note before_req_victim [OF i(2) this(1) v(1) this(2) r(2) v(3),
          of "t2\<lparr>preempted_reqs := preempted_reqs t2 @ [v]\<rparr>"]
      then show ?thesis using r(1) v(1) i(3) by (auto simp: victim_taken_def)
    qed
  qed
  then show ?thesis by (rule rpost_conseq) auto
qed

lemma update_new: "k \<notin> fst ` set al \<Longrightarrow> AList.update k v al = al @ [(k, v)]"
  by (induction al) auto

lemma book_add:
  "book B t \<Longrightarrow> rid \<notin> fst ` set (step_tokens t) \<Longrightarrow> 0 < n \<Longrightarrow> n \<le> token_budget t \<Longrightarrow>
     step_tokens t' = AList.update rid n (step_tokens t) \<Longrightarrow> token_budget t' = token_budget t - n \<Longrightarrow> book B t'"
  by (auto simp: book_def update_new)

lemma commit_encoder_step:
  "rpost (commit_encoder_inputs x rid inputs nb external s t) (\<lambda>(s', t'). quiet s s' \<and>
     new_reqs t' = new_reqs t \<and> resumed_reqs t' = resumed_reqs t \<and> running_reqs t' = running_reqs t \<and>
     step_tokens t' = step_tokens t \<and> token_budget t' = token_budget t)"
proof -
  have "rpost (commit_encoder_inputs x rid inputs nb external s t) (\<lambda>(s', t').
     new_reqs t' = new_reqs t \<and> resumed_reqs t' = resumed_reqs t \<and> running_reqs t' = running_reqs t \<and>
     step_tokens t' = step_tokens t \<and> token_budget t' = token_budget t)"
    by (simp add: commit_encoder_inputs_def)
  from rpost_conj [OF quiet_commit_encoder this] show ?thesis by (rule rpost_conseq) auto
qed

lemma run_inv_commit:
  assumes "run_inv M B c s t" "before_req rid s t i" "0 < n" "n \<le> token_budget t" "one_place M"
  shows "rpost (commit_running x rid n b inputs nb external s t)
    (\<lambda>(s', t'). run_inv M B c s' t' \<and> before_pos s' t' (i + 1))"
proof -
  obtain A C where a: "running s = A @ rid # C" "set (running_reqs t) \<subseteq> set A" "len A \<le> i"
    using assms(2) by (auto simp: before_req_def)
  have n: "rid \<notin> set (running_reqs t)" using a run_inv_distinct [OF assms(1,5)] by auto
  obtain s1 t1 where 1: "schedule_spec_tokens rid n s (t\<lparr>running_reqs := running_reqs t @ [rid],
      req_to_new_blocks := (req_to_new_blocks t)(rid \<mapsto> b), step_tokens := AList.update rid n (step_tokens t),
      token_budget := token_budget t - n\<rparr>) = (s1, t1)" by fastforce
  then have q: "quiet s s1" and t1: "running_reqs t1 = running_reqs t @ [rid]" "token_budget t1 = token_budget t - n"
      "step_tokens t1 = AList.update rid n (step_tokens t)" "new_reqs t1 = new_reqs t" "resumed_reqs t1 = resumed_reqs t"
    by (auto simp: schedule_spec_tokens_def Let_def quiet_set_spec split: if_splits)
  have g: "run_inv M B c s1 t2 \<and> before_pos s1 t2 (i + 1)" if "running_reqs t2 = running_reqs t1" "token_budget t2 = token_budget t1"
      "step_tokens t2 = step_tokens t1" "new_reqs t2 = new_reqs t1" "resumed_reqs t2 = resumed_reqs t1" for t2
  proof
    have k: "fst ` set (step_tokens t) = set (running_reqs t)" "book B t" using assms(1) by (simp_all add: run_inv_def)
    then have "book B t2" using book_add [of B t rid n t2] n assms(3,4) that t1 by simp
    then show "run_inv M B c s1 t2"
      using run_inv_quiet [OF assms(1) q] that t1 n k by (simp add: run_inv_def update_new)
    have r: "running s1 = A @ rid # C" using quiet_lists [OF q] a(1) by (simp add: same_lists_def)
    have "nat (i + 1) - length A = Suc (nat i - length A)" "length A \<le> nat (i + 1)" using a(3) by linarith+
    then have "set (A @ [rid]) \<subseteq> set (take (nat (i + 1)) (running s1))" unfolding r take_append by auto
    then show "before_pos s1 t2 (i + 1)" using a that t1 by (auto simp: before_pos_def)
  qed
  show ?thesis
    unfolding commit_running_def 1 case_prod_conv
    by (rule rpost_conseq [OF commit_encoder_step]) (use g in \<open>blast intro: run_inv_quiet before_pos_quiet\<close>)
qed

lemma before_pos_mono: "before_pos s t i \<Longrightarrow> before_pos s t (i + 1)"
  using set_take_subset_set_take [of "nat i" "nat (i + 1)" "running s"] by (force simp: before_pos_def)

lemma before_pos_req:
  assumes "before_pos s t i" "py_get (running s) i = Inr rid" "i < len (running s)"
  shows "before_req rid s t i" "rid \<in> set (running s)"
proof -
  have "0 \<le> i" using assms(1) by (simp add: before_pos_def)
  then have "rid = running s ! nat i" "nat i < length (running s)" using assms(2,3)
    by (auto simp: py_get_def py_pos_def split: if_splits)
  then show "before_req rid s t i" "rid \<in> set (running s)"
    using id_take_nth_drop [of "nat i" "running s"] assms(1) \<open>0 \<le> i\<close>
    by (auto simp: before_req_def before_pos_def intro!: exI [of _ "take (nat i) (running s)"] exI)
qed

lemma run_one_inv:
  assumes "run_inv M B c s t" "before_pos s t i" "before_req rid s t i" "rid \<in> set (running s)" "one_place M" "config_ok c"
  shows "rpost (run_one x c now k rid s t i) (\<lambda>(go, s', t', i'). run_inv M B c s' t' \<and> before_pos s' t' i')"
proof -
  let ?s = "truncate_spec k rid s"
  let ?n = "\<lambda>n. 0 \<le> n \<and> n \<le> token_budget t"
  have q: "quiet s ?s" by (rule quiet_truncate)
  have ok: "tokens_ok c (objs ?s rid)"
    using assms(1,4) tokens_ok_like [OF quiet_like [OF q]] by (simp add: run_inv_def)
  have b: "0 \<le> token_budget t" using assms(1) by (simp add: run_inv_def book_def)
  note n0 = running_num_new_bounds [OF ok b]
  show ?thesis
  proof (rule run_one_rule [OF refl, where E = "\<lambda>((_, n1, _, _), s2). quiet s s2 \<and> ?n n1"
        and M = "\<lambda>_ _ _ s2 n. quiet s s2 \<and> ?n n"
        and A = "\<lambda>_ _ _ n (b, s', t', i'). 0 < n \<and> run_inv M B c s' t' \<and>
          (if b = None then before_pos s' t' i' else before_req rid s' t' i' \<and> n \<le> token_budget t')"],
      goal_cases)
    case 1
    then show ?case using run_inv_quiet [OF assms(1) q] before_pos_mono [OF before_pos_quiet [OF assms(2) q]] by simp
  next
    case 2
    show ?case
      using q n0 quiet_trans [OF q]
      by (auto intro!: rpost_conseq [OF rpost_conj [OF quiet_try_schedule try_schedule_bounds]])
  next
    case (3 inputs n1 nb external s2)
    then show ?case
      using assms(6) by (auto simp: config_ok_def intro!: rpost_conseq [OF mamba_split_bounds])
  next
    case (4 inputs nb external s2)
    then show ?case using run_inv_quiet [OF assms(1)] before_pos_mono [OF before_pos_quiet [OF assms(2)]] by simp
  next
    case (5 inputs nb external s2 n)
    then show ?case
      using run_inv_quiet [OF assms(1)] before_req_quiet [OF assms(3)] assms(5)
      by (auto intro!: rpost_conseq [OF alloc_loop_inv [of M B c s2 t rid i n]])
  next
    case (7 inputs nb external n b s3 t3 i3)
    then show ?case
      using assms(5) by (auto intro!: rpost_conseq [OF run_inv_commit])
  qed simp
qed

lemma running_loop_inv:
  assumes "run_inv M B c s t" "before_pos s t i" "one_place M" "config_ok c"
  shows "rpost (running_loop x c now k s t i) (\<lambda>(s', t'). run_inv M B c s' t' \<and> set (running_reqs t') \<subseteq> set (running s'))"
proof (rule running_loop_rule [where I = "\<lambda>s t i. run_inv M B c s t \<and> before_pos s t i"])
  fix s :: "'a Scheduler" and t i rid
  assume i: "run_inv M B c s t \<and> before_pos s t i" and r: "i < len (running s)" "py_get (running s) i = Inr rid"
  then show "rpost (run_one x c now k rid s t i) (\<lambda>(go, s', t', i'). run_inv M B c s' t' \<and> before_pos s' t' i')"
    using run_one_inv [OF _ _ before_pos_req [OF _ r(2,1)] assms(3,4)] by blast
next
  fix s :: "'a Scheduler" and t i
  assume "run_inv M B c s t \<and> before_pos s t i"
  then show "case (s, t) of (s', t') \<Rightarrow> run_inv M B c s' t' \<and> set (running_reqs t') \<subseteq> set (running s')"
    using set_take_subset [of "nat i" "running s"] by (auto simp: before_pos_def)
qed (use assms in simp)

section \<open>The invariant of the loop over the waiting requests\<close>

definition sched_ids :: "sched_step \<Rightarrow> string list" where
  "sched_ids t = new_reqs t @ resumed_reqs t @ running_reqs t"

definition wait_inv ::
    "string multiset \<Rightarrow> int \<Rightarrow> sched_config \<Rightarrow> 'e Scheduler \<Rightarrow> sched_step \<Rightarrow> string RequestQueue \<Rightarrow> bool" where
  "wait_inv M B c s t sq \<longleftrightarrow> mset (listed s) + mset (queue_list sq) = M \<and> book B t \<and>
     len (running s) \<le> max_num_running_reqs c \<and> distinct (sched_ids t) \<and>
     fst ` set (step_tokens t) = set (sched_ids t) \<and> set (sched_ids t) \<subseteq> set (running s)"

lemma wait_inv_distinct:
  assumes "wait_inv M B c s t sq" "one_place M"
  shows "distinct (listed s @ queue_list sq)"
proof -
  have "mset (listed s @ queue_list sq) = M" using assms(1) by (simp add: wait_inv_def)
  then show ?thesis using assms(2) mset_eq_imp_distinct_iff by blast
qed

lemma wait_inv_lists: "wait_inv M B c s t sq \<Longrightarrow> same_lists s s' \<Longrightarrow> wait_inv M B c s' t sq"
  by (simp add: wait_inv_def listed_same) (simp add: same_lists_def)

lemma listed_set_queue:
  assumes "mset (queue_list (queue_of w s)) = add_mset rid (mset (queue_list q))"
  shows "mset (listed s) = add_mset rid (mset (listed (set_queue w q s)))"
  using assms by (cases w) (simp_all add: listed_def)

lemma skip_waiting_inv:
  assumes "wait_inv M B c s t sq" "peek_request (queue_of w s) = Inr rid"
  shows "rpost (skip_waiting w rid s t sq) (\<lambda>(go, s', t', sq'). wait_inv M B c s' t' sq')"
proof -
  have "wait_inv M B c (set_queue w q s) t (prepend_request lt rid sq)"
    if "mset (queue_list (queue_of w s)) = add_mset rid (mset (queue_list q))" for q and lt
    using assms(1) listed_set_queue [OF that] by (cases w) (simp_all add: wait_inv_def prepend_request_mset)
  then show ?thesis
    unfolding skip_waiting_def rpost_rbind
    by (intro rpost_conseq [OF pop_request_mset]) (use assms(2) in auto)
qed

lemma start_waiting_step:
  "rpost (start_waiting x c now rid n computed inputs nb external s t) (\<lambda>(s', t').
     step_tokens t' = AList.update rid n (step_tokens t) \<and> token_budget t' = token_budget t - n \<and>
     mset (sched_ids t') = add_mset rid (mset (sched_ids t)))"
  by (simp add: start_waiting_def commit_encoder_inputs_def Let_def sched_ids_def split: option.split)

lemma start_waiting_inv:
  assumes "mset (listed s) + mset (queue_list sq) + {#rid#} = M" "one_place M" "len (running s) < max_num_running_reqs c"
    and "wait_inv (M - {#rid#}) B c s t sq" "0 < n" "n \<le> token_budget t"
  shows "rpost (start_waiting x c now rid n computed inputs nb external s t)
    (\<lambda>(s', t'). wait_inv M B c s' t' sq)"
proof -
  have "mset (listed s @ queue_list sq @ [rid]) = M" using assms(1) by simp
  then have "distinct (listed s @ queue_list sq @ [rid])" using assms(2) mset_eq_imp_distinct_iff by blast
  then have n: "rid \<notin> fst ` set (step_tokens t)" using assms(4) by (auto simp: wait_inv_def listed_def)
  have g: "wait_inv M B c s' t' sq"
    if l: "same_lists (s\<lparr>running := running s @ [rid]\<rparr>) s'" and k: "step_tokens t' = AList.update rid n (step_tokens t)"
      "token_budget t' = token_budget t - n" and r: "mset (sched_ids t') = add_mset rid (mset (sched_ids t))"
    for s' :: "'a Scheduler" and t'
  proof -
    have "book B t'" using book_add [OF _ n assms(5,6) k(1,2)] assms(4) by (simp add: wait_inv_def)
    moreover have "mset (listed s') + mset (queue_list sq) = M"
      using assms(1) l by (auto simp: listed_def same_lists_def)
    moreover have "len (running s') \<le> max_num_running_reqs c" "set (running s') = insert rid (set (running s))"
      using l assms(3) by (auto simp: same_lists_def)
    moreover have "rid \<notin> set (sched_ids t)" using n assms(4) by (simp add: wait_inv_def)
    moreover have "mset (sched_ids t') = mset (rid # sched_ids t)" using r by simp
    then have "distinct (sched_ids t') = distinct (rid # sched_ids t)" "set (sched_ids t') = set (rid # sched_ids t)"
      by (rule mset_eq_imp_distinct_iff, rule mset_eq_setD)
    ultimately show ?thesis using n assms(4) k(1) by (auto simp: wait_inv_def update_new)
  qed
  show ?thesis
    by (rule rpost_conseq [OF rpost_conj [OF start_waiting_lists start_waiting_step]]) (use g in auto)
qed

text \<open>A plan gives a positive number of tokens within the budget, or loads the cache from afar.\<close>

definition plan_ok :: "sched_step \<Rightarrow> computed_info \<Rightarrow> int list \<times> int \<times> int \<times> int list \<Rightarrow> bool" where
  "plan_ok t i p \<longleftrightarrow> (case i of (_, _, _, load_kv_async, _, _) \<Rightarrow> load_kv_async \<or>
     (case p of (_, n, _, _) \<Rightarrow> 0 < n \<and> n \<le> token_budget t))"

lemma plan_waiting_ok:
  assumes "config_ok c"
  shows "rpost (plan_waiting x c rid i s t) (\<lambda>(p, s'). \<forall>q. p = Some q \<longrightarrow> plan_ok t i q)"
proof -
  obtain cb nl ne la comp q where i: "i = (cb, nl, ne, la, comp, q)" by (cases i) auto
  have sub: "rpost (try_schedule_encoder_inputs x c r comp n b sh s) (\<lambda>((inputs, n', nb, ex), s1). 0 \<le> n' \<and> n' \<le> token_budget t)"
    if "0 < n" "n \<le> token_budget t" for r n b sh
    by (rule rpost_conseq [OF try_schedule_bounds]) (use that in auto)
  have mamba: "rpost (mamba_block_aligned_split c r n nl ne) (\<lambda>n'. 0 \<le> n' \<and> n' \<le> token_budget t)"
    if "need_mamba_block_aligned_split c" "0 < n" "n \<le> token_budget t" for r n
    by (rule rpost_conseq [OF mamba_split_bounds]) (use that assms in \<open>auto simp: config_ok_def\<close>)
  show ?thesis
  proof (cases la)
    case True
    then show ?thesis by (simp add: i plan_ok_def rpost_def)
  next
    case False
    then show ?thesis
      unfolding i plan_waiting_def prod.case Let_def
      by (auto simp: plan_ok_def intro!: rpost_conseq [OF sub] rpost_conseq [OF mamba])
  qed
qed

lemma wait_inv_pop:
  assumes "wait_inv M B c s t sq" "mset (queue_list (queue_of w s)) = add_mset rid (mset (queue_list q))"
  shows "mset (listed (set_queue w q s)) + mset (queue_list sq) + {#rid#} = M"
    "wait_inv (M - {#rid#}) B c (set_queue w q s) t sq"
    "wait_inv M B c (set_queue w q s) t (prepend_request lt rid sq)"
proof -
  have r: "running (set_queue w q s) = running s" by (cases w) simp_all
  show m: "mset (listed (set_queue w q s)) + mset (queue_list sq) + {#rid#} = M"
    using assms(1) listed_set_queue [OF assms(2)] by (simp add: wait_inv_def)
  then have "mset (listed (set_queue w q s)) + mset (queue_list sq) = M - {#rid#}" by auto
  then show "wait_inv (M - {#rid#}) B c (set_queue w q s) t sq"
    using assms(1) r by (simp add: wait_inv_def)
  show "wait_inv M B c (set_queue w q s) t (prepend_request lt rid sq)"
    using assms(1) r m by (simp add: wait_inv_def prepend_request_mset)
qed

lemma admit_waiting_inv:
  assumes "wait_inv M B c s t sq" "plan_ok t i p" "len (running s) < max_num_running_reqs c" "one_place M"
  shows "rpost (admit_waiting x c now w rid i p s t sq) (\<lambda>(go, s', t', sq'). wait_inv M B c s' t' sq')"
proof -
  obtain cb nl ne la comp qu where i: "i = (cb, nl, ne, la, comp, qu)" by (cases i) auto
  obtain inputs n nb ex where p: "p = (inputs, n, nb, ex)" by (cases p) auto
  let ?s = "tell_connector x rid ne qu s"
  have l: "same_lists s ?s" by simp
  note w1 = wait_inv_lists [OF assms(1) l]
  have r: "running (set_queue w q ?s) = running s" for q using l by (cases w) (simp_all add: same_lists_def)
  have up: "wait_inv M B c (upd_req a f u) t' sq' = wait_inv M B c u t' sq'" for a f t' sq' and u :: "'a Scheduler"
    by (simp add: wait_inv_def listed_def)
  have st: "rpost (start_waiting x c now rid' n comp inputs nb ex (set_queue w q ?s) t) (\<lambda>(s', t'). wait_inv M B c s' t' sq)"
    if "mset (queue_list (queue_of w ?s)) = add_mset rid' (mset (queue_list q))" "\<not> la" for rid' q
    by (rule start_waiting_inv [OF wait_inv_pop(1) [OF w1 that(1)] assms(4) _ wait_inv_pop(2) [OF w1 that(1)]])
      (use assms(2,3) that(2) r in \<open>auto simp: plan_ok_def i p\<close>)
  show ?thesis
    unfolding admit_waiting_def i p prod.case Let_def rpost_rbind
    by (rule rpost_conseq [OF pop_request_mset]) (auto simp: up intro!: rpost_conseq [OF st] wait_inv_pop(3) [OF w1])
qed

lemma wait_one_inv:
  assumes "wait_inv M B c s t sq" "len (running s) < max_num_running_reqs c" "one_place M" "config_ok c"
  shows "rpost (wait_one x c now s t sq) (\<lambda>(go, s', t', sq'). wait_inv M B c s' t' sq')"
proof -
  define G where "G w rid s1 \<longleftrightarrow> same_lists s s1 \<and> peek_request (queue_of w s) = Inr rid"
    for w rid and s1 :: "'a Scheduler"
  have G: "wait_inv M B c s1 t sq" "peek_request (queue_of w s1) = Inr rid" "len (running s1) < max_num_running_reqs c"
    if "G w rid s1" for w rid s1
    using that wait_inv_lists [OF assms(1)] same_lists_queued [of s s1 w] assms(2)
    by (auto simp: G_def) (simp add: same_lists_def)
  have Gl: "G w rid s2" if "G w rid s1" "same_lists s1 s2" for w rid s1 s2
    using that same_lists_trans by (auto simp: G_def)
  let ?P = "\<lambda>(go :: bool, s' :: 'a Scheduler, t', sq'). wait_inv M B c s' t' sq'"
  show ?thesis
  proof (rule wait_one_rule [where F = G and G = G and L = "\<lambda>w rid _. G w rid"
        and A = "\<lambda>w rid i p s1. G w rid s1 \<and> plan_ok t i p"], goal_cases)
    case (2 w rid)
    show ?case by (rule rpost_conseq [OF promote_lists]) (use Gl [OF 2(1)] in auto)
  next
    case (5 w rid s1)
    then show ?case using skip_waiting_inv [OF G(1,2)] by simp
  next
    case (6 w rid s1)
    show ?case by (rule rpost_conseq [OF lookup_lists]) (use Gl [OF 6] in \<open>auto split: option.split\<close>)
  next
    case (7 w rid i s2)
    show ?case
      by (rule rpost_conseq [OF rpost_conj [OF plan_lists plan_waiting_ok [OF assms(4)]]])
        (use Gl [OF 7] G(1) [OF Gl [OF 7]] in \<open>auto split: option.split\<close>)
  next
    case (8 w rid i p s3)
    then have p: "plan_ok t i p" and g3: "G w rid s3" by auto
    show ?case
    proof (rule allocate_waiting_rule [where A = "G w rid"])
      fix s1 assume g: "G w rid s1"
      show "rpost (give_up_waiting rid s1 t sq) ?P"
        using wait_inv_lists [OF G(1) [OF g]] by (simp add: give_up_waiting_def)
      show "rpost (admit_waiting x c now w rid i p s1 t sq) ?P"
        by (rule admit_waiting_inv [OF G(1) [OF g] p G(3) [OF g] assms(3)])
    qed (use g3 in \<open>simp_all add: G_def\<close>)
  qed (auto simp: G_def)
qed

lemma waiting_loop_inv:
  assumes "wait_inv M B c s t sq" "one_place M" "config_ok c"
  shows "rpost (waiting_loop x c now s t sq) (\<lambda>(s', t', sq'). wait_inv M B c s' t' sq')"
proof (rule waiting_loop_rule [where I = "wait_inv M B c"])
  fix s :: "'a Scheduler" and t sq
  assume w: "wait_inv M B c s t sq" and "len (running s) \<noteq> max_num_running_reqs c"
  then have "len (running s) < max_num_running_reqs c" by (simp add: wait_inv_def)
  then show "rpost (wait_one x c now s t sq) (\<lambda>(go, s', t', sq'). wait_inv M B c s' t' sq')"
    by (rule wait_one_inv [OF w _ assms(2,3)])
qed (rule assms(1))

section \<open>The step\<close>

text \<open>What the state must look like when a step starts.\<close>

definition sched_ready :: "sched_config \<Rightarrow> 'e Scheduler \<Rightarrow> bool" where
  "sched_ready c s \<longleftrightarrow> config_ok c \<and> distinct (listed s) \<and> len (running s) \<le> max_num_running_reqs c \<and>
     (\<forall>rid \<in> set (running s). tokens_ok c (objs s rid))"

lemma schedule_requests_inv:
  assumes "sched_ready c s"
  shows "rpost (schedule_requests x c now s) (\<lambda>(s', t). book (token_budget (new_step c s)) t \<and>
    mset (listed s') = mset (listed s) \<and> len (running s') \<le> max_num_running_reqs c \<and> distinct (sched_ids t) \<and>
    fst ` set (step_tokens t) = set (sched_ids t) \<and> set (sched_ids t) \<subseteq> set (running s'))"
proof -
  let ?B = "token_budget (new_step c s)" and ?M = "mset (listed s)"
  let ?s = "s\<lparr>kv_cache_manager := kvm_new_step_starts (kv_cache_manager s)\<rparr>"
  have one: "one_place ?M" and cfg: "config_ok c" using assms by (auto simp: sched_ready_def)
  have "run_inv ?M ?B c ?s (new_step c s)"
    using assms by (simp add: run_inv_def sched_ready_def new_step_def book_def config_ok_def listed_def)
  moreover have "before_pos ?s (new_step c s) 0" by (simp add: before_pos_def new_step_def)
  ultimately have run: "rpost (running_loop x c now (active_num_spec_tokens s) ?s (new_step c s) 0)
      (\<lambda>(s1, t1). run_inv ?M ?B c s1 t1 \<and> set (running_reqs t1) \<subseteq> set (running s1))"
    using one cfg by (rule running_loop_inv)
  have lor: "rpost (running_loras c s1 t1) (\<lambda>t2. wait_inv ?M ?B c s1 t2 (create_request_queue (policy c)))"
    if "run_inv ?M ?B c s1 t1" "set (running_reqs t1) \<subseteq> set (running s1)" for s1 :: "'a Scheduler" and t1
    using that by (cases "policy c")
      (auto simp: running_loras_def Let_def run_inv_def wait_inv_def sched_ids_def book_def split: option.split)
  have fin: "queue_bool sq \<Longrightarrow> wait_inv ?M ?B c
      (s2\<lparr>skipped_waiting := prepend_requests (req_lt s2) sq (skipped_waiting s2)\<rparr>) t3 (FCFSRequestQueue [])"
    "\<not> queue_bool sq \<Longrightarrow> wait_inv ?M ?B c s2 t3 (FCFSRequestQueue [])"
    if "wait_inv ?M ?B c s2 t3 sq" for s2 :: "'a Scheduler" and t3 sq
    using that by (auto simp: wait_inv_def listed_def prepend_requests_mset ac_simps queue_bool_def)
  have nil: "wait_inv ?M ?B c s1 t2 (FCFSRequestQueue [])"
    if "wait_inv ?M ?B c s1 t2 (create_request_queue (policy c))" for s1 :: "'a Scheduler" and t2
    using that by (cases "policy c") (simp_all add: wait_inv_def)
  have wait: "rpost (waiting_loop x c now s1 t2 (create_request_queue (policy c)))
      (\<lambda>(s2, t3, sq). wait_inv ?M ?B c s2 t3 sq)"
    if "wait_inv ?M ?B c s1 t2 (create_request_queue (policy c))" for s1 t2
    using that one cfg by (rule waiting_loop_inv)
  have "rpost (schedule_requests x c now s) (\<lambda>(s', t). wait_inv ?M ?B c s' t (FCFSRequestQueue []))"
    unfolding schedule_requests_def
    by (auto intro!: rpost_conseq [OF run] rpost_conseq [OF lor] rpost_conseq [OF wait] intro: fin nil)
  then show ?thesis by (rule rpost_conseq) (auto simp: wait_inv_def)
qed

lemma distinct_subset_len: "distinct xs \<Longrightarrow> set xs \<subseteq> set ys \<Longrightarrow> len xs \<le> len ys"
  using card_mono [of "set ys" "set xs"] distinct_card [of xs] card_length [of ys] by simp

lemma book_constraints:
  assumes "book (token_budget (new_step c s)) t" "config_ok c" "len (running s') \<le> max_num_running_reqs c"
    and "distinct (sched_ids t)" "set (sched_ids t) \<subseteq> set (running s')"
  shows "constraints_hold c s' t"
  using assms distinct_subset_len [OF assms(4,5)]
  by (auto simp: constraints_hold_def book_def new_step_def config_ok_def sched_ids_def split: if_splits)



section \<open>No request is lost\<close>

text \<open>C6: a scheduling step neither loses nor duplicates a request: every request that was running
  or queued is afterwards running or queued, in exactly one place, whichever requests were
  preempted, skipped, promoted or admitted, and what the step has scheduled is running.\<close>

theorem schedule_conserves_requests:
  assumes "sched_ready c s" "schedule x c now s = Inr (out, s')"
  shows "mset (listed s') = mset (listed s) \<and> distinct (listed s') \<and>
    set (map fst (num_scheduled_tokens out)) \<subseteq> set (running s')"
proof -
  obtain s1 t where r: "schedule_requests x c now s = Inr (s1, t)" and o: "build_output x c (active_num_spec_tokens s) s1 t = Inr (out, s')"
    using assms(2) by (auto simp: schedule_def rbind_eq_Inr py_assert_Inr)
  have b: "same_lists s1 s'" "num_scheduled_tokens out = step_tokens t"
    using rpostD [OF build_output_status o] by (auto simp: same_status_def)
  have "mset (listed s') = mset (listed s)"
    using rpostD [OF schedule_requests_inv [OF assms(1)] r] listed_same [OF b(1)] by simp
  moreover from this have "distinct (listed s')"
    using mset_eq_imp_distinct_iff assms(1) unfolding sched_ready_def by blast
  moreover have "set (map fst (num_scheduled_tokens out)) \<subseteq> set (running s')"
    using rpostD [OF schedule_requests_inv [OF assms(1)] r] b by (auto simp: same_lists_def)
  ultimately show ?thesis by blast
qed

theorem schedule_conserves_requests_witness:
  "\<exists>c s out s'. demo_state2 = Inr (c, s) \<and> schedule no_externals c 0 s = Inr (out, s') \<and>
     num_scheduled_tokens out = [(''b'', 1)] \<and> mset (listed s') = mset (listed s)"
proof -
  have "rbind demo_state2 (\<lambda>(c, s). rbind (schedule no_externals c 0 s) (\<lambda>(out, s').
      Inr (sched_ready c s, num_scheduled_tokens out))) = Inr (True, [(''b'', 1)])" by code_simp
  then obtain c s out s' where "demo_state2 = Inr (c, s)" "schedule no_externals c 0 s = Inr (out, s')"
    "sched_ready c s" "num_scheduled_tokens out = [(''b'', 1)]" by (auto simp: rbind_eq_Inr)
  then show ?thesis using schedule_conserves_requests [of c s no_externals 0 out s'] by blast
qed

end
