(* ===== verification/SchedInv.thy ===== *)
theory SchedInv
  imports SchedLimits
begin

text \<open>
  Where the scheduler keeps its requests: every unfinished request stands in exactly one place of
  the running list and the two waiting queues, with a status that fits the place, and the number of
  sessions waiting for input is counted right.  The invariant is stated over multisets, so that a
  move from one place to another is a request taken out and put in again.
\<close>

section \<open>Places\<close>

definition placed ::
    "string set \<Rightarrow> (string \<Rightarrow> RequestStatus) \<Rightarrow> string multiset \<Rightarrow> string multiset \<Rightarrow> string multiset \<Rightarrow> int \<Rightarrow> bool" where
  "placed Q st R W K n \<longleftrightarrow>
     (\<forall>i. count (R + W + K) i = (if i \<in> Q \<and> \<not> status_is_finished (st i) then 1 else 0)) \<and>
     (\<forall>i \<in># R. st i = RUNNING) \<and> (\<forall>i \<in># W. st i \<in> {WAITING, PREEMPTED}) \<and> (\<forall>i \<in># K. st i \<noteq> RUNNING) \<and>
     n = int (size {#i \<in># K. st i = WAITING_FOR_STREAMING_REQ#})"

lemma placed_in:
  assumes "placed Q st R W K n" "i \<in># R + W + K"
  shows "i \<in> Q" "\<not> status_is_finished (st i)"
proof -
  have "count (R + W + K) i \<noteq> 0" using assms(2) by (simp only: count_eq_zero_iff not_not)
  then show "i \<in> Q" "\<not> status_is_finished (st i)"
    using assms(1) unfolding placed_def by (metis (mono_tags))+
qed

lemma placed_cong:
  assumes "placed Q st R W K n" "\<And>i. i \<in> Q \<Longrightarrow> st' i = st i"
  shows "placed Q st' R W K n"
proof -
  have s: "st' i = st i" if "i \<in># R + W + K" for i using assms(2) placed_in(1) [OF assms(1) that] by simp
  have "{#i \<in># K. st' i = WAITING_FOR_STREAMING_REQ#} = {#i \<in># K. st i = WAITING_FOR_STREAMING_REQ#}"
    by (rule filter_mset_cong) (use s in auto)
  then show ?thesis using assms s unfolding placed_def by simp
qed

lemma placed_once:
  assumes "placed Q st R W K n"
  shows "v \<in># R \<Longrightarrow> v \<notin># W \<and> v \<notin># K \<and> count R v = 1" "v \<in># W \<Longrightarrow> v \<notin># R \<and> v \<notin># K \<and> count W v = 1"
    "v \<in># K \<Longrightarrow> v \<notin># R \<and> v \<notin># W \<and> count K v = 1"
proof -
  have "count R v + count W v + count K v \<le> 1"
    using assms unfolding placed_def by (metis count_union le_refl zero_le_one)
  moreover have "v \<in># A \<longleftrightarrow> 0 < count A v" for A by (simp add: count_greater_zero_iff)
  ultimately show "v \<in># R \<Longrightarrow> v \<notin># W \<and> v \<notin># K \<and> count R v = 1" "v \<in># W \<Longrightarrow> v \<notin># R \<and> v \<notin># K \<and> count W v = 1"
    "v \<in># K \<Longrightarrow> v \<notin># R \<and> v \<notin># W \<and> count K v = 1"
    by (simp_all only:) linarith+
qed

lemma placed_take_running:
  assumes "placed Q st (add_mset v R) W K n"
  shows "placed (Q - {v}) st R W K n"
  using assms placed_once(1) [OF assms, of v] placed_in [OF assms, of v] unfolding placed_def
  by (auto simp: not_in_iff split: if_splits)

lemma placed_take_waiting:
  assumes "placed Q st R (add_mset v W) K n"
  shows "placed (Q - {v}) st R W K n"
  using assms placed_once(2) [OF assms, of v] placed_in [OF assms, of v] unfolding placed_def
  by (auto simp: not_in_iff split: if_splits)

lemma placed_take_skipped:
  assumes "placed Q st R W (add_mset v K) n"
  shows "placed (Q - {v}) st R W K (if st v = WAITING_FOR_STREAMING_REQ then n - 1 else n)"
  using assms placed_once(3) [OF assms, of v] placed_in [OF assms, of v] unfolding placed_def
  by (auto simp: not_in_iff split: if_splits)

lemma placed_new:
  assumes "placed Q st R W K n" "v \<notin> Q"
  shows "v \<notin># R" "v \<notin># W" "v \<notin># K"
  using assms placed_in(1) [OF assms(1), of v] by auto

lemma placed_put_running:
  assumes "placed Q st R W K n" "v \<notin> Q" "st v = RUNNING"
  shows "placed (insert v Q) st (add_mset v R) W K n"
  using assms placed_new [OF assms(1,2)] unfolding placed_def
  by (auto simp: not_in_iff status_finished_iff)

lemma placed_put_waiting:
  assumes "placed Q st R W K n" "v \<notin> Q" "st v \<in> {WAITING, PREEMPTED}"
  shows "placed (insert v Q) st R (add_mset v W) K n"
  using assms placed_new [OF assms(1,2)] unfolding placed_def
  by (auto simp: not_in_iff status_finished_iff)

lemma placed_put_skipped:
  assumes "placed Q st R W K n" "v \<notin> Q" "\<not> status_is_finished (st v)" "st v \<noteq> RUNNING"
  shows "placed (insert v Q) st R W (add_mset v K) (if st v = WAITING_FOR_STREAMING_REQ then n + 1 else n)"
  using assms placed_new [OF assms(1,2)] unfolding placed_def
  by (auto simp: not_in_iff)

lemma placed_put_finished:
  assumes "placed Q st R W K n" "v \<notin> Q" "status_is_finished (st v)"
  shows "placed (insert v Q) st R W K n"
  using assms placed_new [OF assms(1,2)] unfolding placed_def by (auto simp: not_in_iff)

lemma placed_drop_finished:
  assumes "placed Q st R W K n" "status_is_finished (st v)"
  shows "placed (Q - {v}) st R W K n"
  using assms unfolding placed_def by auto

text \<open>A change of status within the skipped queue.\<close>

lemma placed_restatus:
  assumes "placed Q st R W K n" "v \<in># K" "\<And>i. i \<noteq> v \<Longrightarrow> st' i = st i"
    and "\<not> status_is_finished (st' v)" "st' v \<noteq> RUNNING"
  shows "placed Q st' R W K (n - (if st v = WAITING_FOR_STREAMING_REQ then 1 else 0)
    + (if st' v = WAITING_FOR_STREAMING_REQ then 1 else 0))"
proof -
  obtain K' where K: "K = add_mset v K'" using assms(2) by (metis multi_member_split)
  have v: "v \<in> Q" using placed_in(1) [OF assms(1), of v] assms(2) by simp
  have "placed (Q - {v}) st' R W K' (if st v = WAITING_FOR_STREAMING_REQ then n - 1 else n)"
    by (rule placed_cong [OF placed_take_skipped [OF assms(1) [unfolded K]]]) (use assms(3) in auto)
  from placed_put_skipped [OF this _ assms(4,5)] show ?thesis
    using v by (simp add: K insert_absorb split: if_splits)
qed

section \<open>The invariant of the scheduler\<close>

abbreviation stat :: "'e Scheduler \<Rightarrow> string \<Rightarrow> RequestStatus" where
  "stat s i \<equiv> status (objs s i)"

text \<open>Within the loop over the waiting requests, \<open>sq\<close> holds the requests skipped in this step.\<close>

definition sched_at :: "sched_config \<Rightarrow> 'e Scheduler \<Rightarrow> string multiset \<Rightarrow> bool" where
  "sched_at c s sq \<longleftrightarrow> distinct (requests s) \<and> (\<forall>i \<in> set (requests s). request_id (objs s i) = i) \<and>
     len (running s) \<le> max_num_running_reqs c \<and>
     placed (set (requests s)) (stat s) (mset (running s)) (mset (queue_list (waiting s)))
       (mset (queue_list (skipped_waiting s)) + sq) (num_waiting_for_streaming_input s)"

definition sched_inv :: "sched_config \<Rightarrow> 'e Scheduler \<Rightarrow> bool" where
  "sched_inv c s = sched_at c s {#}"

lemma sched_at_status:
  assumes "sched_at c s sq" "same_lists s s'"
    and "num_waiting_for_streaming_input s' = num_waiting_for_streaming_input s"
    and "\<And>i. i \<in> set (requests s) \<Longrightarrow> stat s' i = stat s i \<and> request_id (objs s' i) = request_id (objs s i)"
  shows "sched_at c s' sq"
  using assms placed_cong [of "set (requests s)" "stat s"] by (auto simp: sched_at_def same_lists_def)

lemma sched_at_quiet: "sched_at c s sq \<Longrightarrow> quiet s s' \<Longrightarrow> sched_at c s' sq"
  by (rule sched_at_status) (auto simp: quiet_def like_def)

lemma sched_at_updates [simp]:
  "sched_at c (s\<lparr>kv_cache_manager := k\<rparr>) sq = sched_at c s sq"
  "sched_at c (s\<lparr>encoder_cache_manager := m\<rparr>) sq = sched_at c s sq"
  "sched_at c (s\<lparr>ext := e\<rparr>) sq = sched_at c s sq"
  "sched_at c (s\<lparr>finished_req_ids := f\<rparr>) sq = sched_at c s sq"
  "sched_at c (s\<lparr>finished_req_ids_dict := fd\<rparr>) sq = sched_at c s sq"
  "sched_at c (s\<lparr>prev_step_scheduled_req_ids := pr\<rparr>) sq = sched_at c s sq"
  "sched_at c (s\<lparr>finished_recving_kv_req_ids := fr\<rparr>) sq = sched_at c s sq"
  "sched_at c (s\<lparr>failed_recving_kv_req_ids := fl\<rparr>) sq = sched_at c s sq"
  "sched_at c (s\<lparr>connector_prefix_cache_stats := cs\<rparr>) sq = sched_at c s sq"
  "sched_at c (s\<lparr>spec_token_controller := ct\<rparr>) sq = sched_at c s sq"
  "sched_at c (s\<lparr>active_num_spec_tokens := an\<rparr>) sq = sched_at c s sq"
  "sched_at c (s\<lparr>pause_state := p\<rparr>) sq = sched_at c s sq"
  "sched_at c (s\<lparr>placeholder_holders := h\<rparr>) sq = sched_at c s sq"
  by (simp_all add: sched_at_def)

section \<open>Preemption\<close>

lemma take_victim_list:
  "rpost (take_victim c s t i) (\<lambda>(v, s1, t1, i1). \<exists>R. s1 = s\<lparr>running := R\<rparr> \<and> mset (running s) = add_mset v (mset R))"
proof -
  have m: "rpost (max_by_key (objs s) (running s)) (\<lambda>v. mset (running s) = add_mset v (mset (remove1 v (running s))))"
    by (rule rpostI) (simp add: max_by_key_in)
  have l: "running s \<noteq> [] \<Longrightarrow> mset (running s) = add_mset (last (running s)) (mset (butlast (running s)))"
    by (cases "running s" rule: rev_cases) simp_all
  have r: "\<exists>R. s\<lparr>running := R0\<rparr> = s\<lparr>running := R\<rparr> \<and> mset (running s) = add_mset v (mset R)"
    if "mset (running s) = add_mset v (mset R0)" for v R0 using that by blast
  show ?thesis
  proof (cases "policy c = PRIORITY")
    case True
    then show ?thesis
      by (simp add: take_victim_def Let_def) (rule rpost_conseq [OF m], simp add: r)
  next
    case False
    then show ?thesis using l r by (simp add: take_victim_def)
  qed
qed

lemma preempted_fields [simp]:
  "status (preempted c now r) = PREEMPTED" "request_id (preempted c now r) = request_id r"
  "resumable (preempted c now r) = resumable r"
  by (simp_all add: preempted_def record_event_def Let_def)

lemma preempt_request_inv:
  assumes "sched_at c s sq" "mset (running s) = add_mset v (mset R)"
  shows "rpost (preempt_request c now v (s\<lparr>running := R\<rparr>)) (\<lambda>s'. sched_at c s' sq)"
proof (rule rpostI)
  fix s' assume p: "preempt_request c now v (s\<lparr>running := R\<rparr>) = Inr s'"
  let ?K = "mset (queue_list (skipped_waiting s)) + sq" and ?n = "num_waiting_for_streaming_input s"
  from rpostD [OF preempt_request_mset p] rpostD [OF preempt_request_running p]
  have s': "mset (queue_list (waiting s')) = add_mset v (mset (queue_list (waiting s)))" "running s' = R"
      "skipped_waiting s' = skipped_waiting s" "requests s' = requests s" "num_waiting_for_streaming_input s' = ?n"
      "objs s' = (objs s)(v := preempted c now (objs s v))"
    by (auto simp: listed_def)
  have pl: "placed (set (requests s)) (stat s) (add_mset v (mset R)) (mset (queue_list (waiting s))) ?K ?n"
    using assms by (simp add: sched_at_def)
  have v: "v \<in> set (requests s)" using placed_in(1) [OF pl, of v] by simp
  from placed_take_running [OF pl]
  have "placed (set (requests s) - {v}) (stat s') (mset R) (mset (queue_list (waiting s))) ?K ?n"
    by (rule placed_cong) (simp add: s')
  from placed_put_waiting [OF this, of v]
  have "placed (set (requests s)) (stat s') (mset R) (add_mset v (mset (queue_list (waiting s)))) ?K ?n"
    using v by (simp add: s' insert_absorb)
  moreover have "length R \<le> length (running s)" using arg_cong [OF assms(2), of size] by simp
  ultimately show "sched_at c s' sq" using assms(1) by (auto simp: sched_at_def s')
qed

section \<open>The loop over the running requests\<close>

lemma alloc_loop_at:
  assumes "sched_at c s sq"
  shows "rpost (alloc_loop c now rid n s t i) (\<lambda>(b, s', t', i'). sched_at c s' sq)"
proof -
  have "rpost (alloc_loop c now rid n s t i) (\<lambda>(b, s', t', i'). if b = None then sched_at c s' sq else sched_at c s' sq)"
  proof (rule alloc_loop_rule [where I = "\<lambda>s _ _. sched_at c s sq" and J = "\<lambda>s _ _. sched_at c s sq"])
    fix s :: "'a Scheduler" and t i nb r k
    assume "sched_at c s sq" "allocate_slots (hashing c) (kv_cache_manager s) (objs s rid) n 0 None
      (num_lookahead_tokens c) 0 False 0 = Inr (nb, r, k)"
    then show "sched_at c (s\<lparr>kv_cache_manager := k, objs := (objs s)(rid := r)\<rparr>) sq"
      using sched_at_quiet quiet_slots quiet_refl by blast
  next
    fix s :: "'a Scheduler" and t i v s2 t2 i2 s3
    assume a: "sched_at c s sq" "take_victim c s t i = Inr (v, s2, t2, i2)" "preempt_request c now v s2 = Inr s3"
    obtain R where "s2 = s\<lparr>running := R\<rparr>" "mset (running s) = add_mset v (mset R)"
      using rpostD [OF take_victim_list a(2)] by auto
    then have "sched_at c s3 sq" using rpostD [OF preempt_request_inv [OF a(1)]] a(3) by blast
    then show "if v = rid then sched_at c s3 sq else sched_at c s3 sq" by simp
  qed (rule assms)
  then show ?thesis by (rule rpost_conseq) (auto split: if_splits)
qed

lemma commit_running_quiet: "rpost (commit_running x rid n b inputs nb external s t) (\<lambda>(s', t'). quiet s s')"
proof -
  obtain s1 t1 where 1: "schedule_spec_tokens rid n s (t\<lparr>running_reqs := running_reqs t @ [rid],
      req_to_new_blocks := (req_to_new_blocks t)(rid \<mapsto> b), step_tokens := AList.update rid n (step_tokens t),
      token_budget := token_budget t - n\<rparr>) = (s1, t1)" by fastforce
  then have q: "quiet s s1" by (auto simp: schedule_spec_tokens_def Let_def quiet_set_spec split: if_splits)
  show ?thesis
    unfolding commit_running_def 1 case_prod_conv
    by (rule rpost_conseq [OF quiet_commit_encoder]) (use quiet_trans [OF q] in auto)
qed

lemma run_one_at:
  assumes "sched_at c s sq"
  shows "rpost (run_one x c now k rid s t i) (\<lambda>(go, s', t', i'). sched_at c s' sq)"
proof (rule run_one_rule [OF refl, where E = "\<lambda>(_, s2). sched_at c s2 sq" and M = "\<lambda>_ _ _ s2 _. sched_at c s2 sq"
      and A = "\<lambda>_ _ _ _ (_, s3, _, _). sched_at c s3 sq"], goal_cases)
  case 2
  show ?case using sched_at_quiet [OF assms quiet_truncate]
    by (auto intro!: rpost_conseq [OF quiet_try_schedule] dest: sched_at_quiet)
next
  case (5 inputs nb external s2 n)
  then show ?case by (auto intro!: rpost_conseq [OF alloc_loop_at])
next
  case (7 inputs nb external n b s3 t3 i3)
  then show ?case by (auto intro!: rpost_conseq [OF commit_running_quiet] dest: sched_at_quiet)
qed (use sched_at_quiet [OF assms quiet_truncate] in \<open>auto intro!: rpostI\<close>)

section \<open>The loop over the waiting requests\<close>

lemma peek_in: "peek_request q = Inr r \<Longrightarrow> r \<in> set (queue_list q)"
  by (cases q) (auto split: list.splits if_splits)


lemma remote_kv_places: "rpost (update_waiting_for_remote_kv x c rid s) (\<lambda>s'. same_lists s s' \<and>
     num_waiting_for_streaming_input s' = num_waiting_for_streaming_input s \<and>
     (\<forall>i. stat s' i = stat s i \<and> request_id (objs s' i) = request_id (objs s i)))"
proof -
  have k: "rpost (kvm_cache_blocks (hashing c) (kv_cache_manager s) (objs s rid) n) (\<lambda>(r', k). status r' = stat s rid \<and>
      request_id r' = request_id (objs s rid))" for n
    by (rule rpost_conseq [OF kvm_cache_blocks_memo]) (auto simp: memo_only_def)
  show ?thesis
    by (auto simp: update_waiting_for_remote_kv_def Let_def same_lists_def intro!: rpostI dest!: rpostD [OF k])
qed

lemma promote_status:
  "rpost (try_promote_blocked_waiting_request x c rid s) (\<lambda>(ready, s'). same_lists s s' \<and>
     num_waiting_for_streaming_input s' = num_waiting_for_streaming_input s \<and>
     (\<forall>i. request_id (objs s' i) = request_id (objs s i)) \<and> (\<forall>i. i \<noteq> rid \<longrightarrow> stat s' i = stat s i) \<and>
     (if ready then stat s rid \<in> {WAITING_FOR_REMOTE_KVS, WAITING_FOR_STRUCTURED_OUTPUT_GRAMMAR} \<and>
        stat s' rid \<in> {WAITING, PREEMPTED} else stat s' rid = stat s rid))"
proof -
  have "rpost (update_waiting_for_remote_kv x c rid s) (\<lambda>s1. same_lists s s1 \<and>
     num_waiting_for_streaming_input s1 = num_waiting_for_streaming_input s \<and>
     (\<forall>i. stat s1 i = stat s i \<and> request_id (objs s1 i) = request_id (objs s i)))" by (rule remote_kv_places)
  then show ?thesis
    by (cases "stat s rid")
      (auto simp: try_promote_blocked_waiting_request_def same_lists_def elim!: rpost_conseq)
qed

text \<open>A request that leaves a queue.\<close>

lemma placed_pop:
  assumes "sched_at c s sq" "mset (queue_list (queue_of w s)) = add_mset rid (mset (queue_list q))"
    and "stat s rid \<noteq> WAITING_FOR_STREAMING_REQ"
  shows "rid \<in> set (requests s)"
    "placed (set (requests s) - {rid}) (stat s) (mset (running s)) (mset (queue_list (waiting (set_queue w q s))))
       (mset (queue_list (skipped_waiting (set_queue w q s))) + sq) (num_waiting_for_streaming_input s)"
proof -
  have p: "placed (set (requests s)) (stat s) (mset (running s)) (mset (queue_list (waiting s)))
      (mset (queue_list (skipped_waiting s)) + sq) (num_waiting_for_streaming_input s)"
    using assms(1) by (simp add: sched_at_def)
  have "rid \<in># mset (queue_list (queue_of w s))" using assms(2) by simp
  then show "rid \<in> set (requests s)" using placed_in(1) [OF p, of rid] by (cases w) auto
  show "placed (set (requests s) - {rid}) (stat s) (mset (running s)) (mset (queue_list (waiting (set_queue w q s))))
       (mset (queue_list (skipped_waiting (set_queue w q s))) + sq) (num_waiting_for_streaming_input s)"
  proof (cases w)
    case WaitingQueue
    then show ?thesis using placed_take_waiting p assms(2) by simp
  next
    case SkippedQueue
    then show ?thesis using placed_take_skipped [of _ _ _ _ rid] p assms(2,3) by fastforce
  qed
qed

lemma sched_at_put:
  assumes "sched_at c s sq" "rid \<in> set (requests s)" "requests s' = requests s"
    and "\<And>i. i \<in> set (requests s) \<Longrightarrow> request_id (objs s' i) = request_id (objs s i)"
    and "len (running s') \<le> max_num_running_reqs c"
    and "placed (insert rid (set (requests s) - {rid})) (stat s') (mset (running s')) (mset (queue_list (waiting s')))
      (mset (queue_list (skipped_waiting s')) + sq') (num_waiting_for_streaming_input s')"
  shows "sched_at c s' sq'"
  using assms by (auto simp: sched_at_def insert_absorb)

lemma set_queue_fields [simp]:
  "running (set_queue w q s) = running s" "requests (set_queue w q s) = requests s" "objs (set_queue w q s) = objs s"
  "num_waiting_for_streaming_input (set_queue w q s) = num_waiting_for_streaming_input s"
  by (cases w; simp)+

lemma skip_waiting_at:
  assumes "sched_at c s sq" "peek_request (queue_of w s) = Inr rid" "sq = mset (queue_list qq)"
  shows "rpost (skip_waiting w rid s t qq) (\<lambda>(go, s', t', qq'). sched_at c s' (mset (queue_list qq')))"
proof -
  have "sched_at c (set_queue w q s) (add_mset rid sq)"
    if m: "mset (queue_list (queue_of w s)) = add_mset rid (mset (queue_list q))" for q
  proof (cases w)
    case WaitingQueue
    have p: "placed (set (requests s)) (stat s) (mset (running s)) (add_mset rid (mset (queue_list q)))
        (mset (queue_list (skipped_waiting s)) + sq) (num_waiting_for_streaming_input s)"
      using assms(1) m WaitingQueue by (simp add: sched_at_def)
    have st: "stat s rid \<in> {WAITING, PREEMPTED}" using p by (simp add: placed_def)
    then have ns: "stat s rid \<noteq> WAITING_FOR_STREAMING_REQ" "stat s rid \<noteq> RUNNING" "\<not> status_is_finished (stat s rid)"
      by (auto simp: status_finished_iff)
    note o = placed_pop [OF assms(1) m ns(1)]
    show ?thesis
      using placed_put_skipped [OF o(2) _ ns(3,2)] ns(1) assms(1)
      by (intro sched_at_put [OF assms(1) o(1)]) (simp_all add: sched_at_def)
  next
    case SkippedQueue
    then show ?thesis using assms(1) m by (simp add: sched_at_def)
  qed
  then show ?thesis
    unfolding skip_waiting_def rpost_rbind
    by (intro rpost_conseq [OF pop_request_mset]) (use assms(2,3) in \<open>auto simp: prepend_request_mset\<close>)
qed

lemma start_waiting_objs:
  "rpost (start_waiting x c now rid n computed inputs nb external s t) (\<lambda>(s', t').
     num_waiting_for_streaming_input s' = num_waiting_for_streaming_input s \<and> stat s' rid = RUNNING \<and>
     (\<forall>i. request_id (objs s' i) = request_id (objs s i)) \<and> (\<forall>i. i \<noteq> rid \<longrightarrow> stat s' i = stat s i))"
proof -
  let ?P = "\<lambda>(s', t' :: sched_step). num_waiting_for_streaming_input s' = num_waiting_for_streaming_input s \<and>
     stat s' rid = RUNNING \<and> (\<forall>i. request_id (objs s' i) = request_id (objs s i)) \<and>
     (\<forall>i. i \<noteq> rid \<longrightarrow> stat s' i = stat s i)"
  have c: "rpost (commit_encoder_inputs x rid inputs nb external s3 t3) ?P" if "?P (s3, t3)" for s3 t3
    by (rule rpost_conseq [OF quiet_commit_encoder]) (use that in \<open>auto simp: quiet_def like_def\<close>)
  show ?thesis
    unfolding start_waiting_def Let_def
    by (auto intro!: c simp: record_event_def split: if_splits)
qed

lemma admit_waiting_at:
  assumes "sched_at c s sq" "\<not> is_blocked_waiting_status (stat s rid)" "peek_request (queue_of w s) = Inr rid"
    and "sq = mset (queue_list qq)" "len (running s) < max_num_running_reqs c"
  shows "rpost (admit_waiting x c now w rid i p s t qq) (\<lambda>(go, s', t', qq'). sched_at c s' (mset (queue_list qq')))"
proof -
  obtain cb nl ne la comp qu where i: "i = (cb, nl, ne, la, comp, qu)" by (cases i) auto
  obtain inputs n nb ex where p: "p = (inputs, n, nb, ex)" by (cases p) auto
  let ?s = "tell_connector x rid ne qu s"
  have q: "quiet s ?s" by simp
  have at: "sched_at c ?s sq" by (rule sched_at_quiet [OF assms(1) q])
  have f: "queue_of w ?s = queue_of w s" "running ?s = running s" "stat ?s rid = stat s rid"
    using q same_lists_queued [of s ?s w] by (auto simp: quiet_def like_def same_lists_def)
  have ns: "stat ?s rid \<noteq> WAITING_FOR_STREAMING_REQ" using assms(2) f(3) by (auto simp: is_blocked_waiting_status_def)
  have put: "sched_at c s3 (mset (queue_list (prepend_request lt rid qq)))"
    if "mset (queue_list (queue_of w ?s)) = add_mset rid (mset (queue_list q))"
      "s3 = upd_req rid (\<lambda>r. r\<lparr>num_computed_tokens := comp\<rparr>) (upd_req rid (\<lambda>r. r\<lparr>status := WAITING_FOR_REMOTE_KVS\<rparr>) (set_queue w q ?s))"
    for q s3 lt
  proof -
    note o = placed_pop [OF at that(1) ns]
    have "placed (set (requests ?s) - {rid}) (stat s3) (mset (running ?s)) (mset (queue_list (waiting (set_queue w q ?s))))
        (mset (queue_list (skipped_waiting (set_queue w q ?s))) + sq) (num_waiting_for_streaming_input ?s)"
      by (rule placed_cong [OF o(2)]) (simp add: that(2))
    from placed_put_skipped [OF this, of rid] show ?thesis
      using at by (intro sched_at_put [OF at o(1)])
        (auto simp: that(2) prepend_request_mset assms(4) status_finished_iff sched_at_def)
  qed
  have st: "rpost (start_waiting x c now rid n comp inputs nb ex (set_queue w q ?s) t) (\<lambda>(s', t'). sched_at c s' sq)"
    if m: "mset (queue_list (queue_of w ?s)) = add_mset rid (mset (queue_list q))" for q
  proof (rule rpost_conseq [OF rpost_conj [OF start_waiting_lists start_waiting_objs]], clarify)
    fix s3 t3
    assume a: "same_lists (set_queue w q ?s\<lparr>running := running (set_queue w q ?s) @ [rid]\<rparr>) s3"
      "num_waiting_for_streaming_input s3 = num_waiting_for_streaming_input (set_queue w q ?s)" "stat s3 rid = RUNNING"
      "\<forall>i. request_id (objs s3 i) = request_id (objs (set_queue w q ?s) i)"
      "\<forall>i. i \<noteq> rid \<longrightarrow> stat s3 i = stat (set_queue w q ?s) i"
    note o = placed_pop [OF at m ns]
    have "placed (set (requests ?s) - {rid}) (stat s3) (mset (running ?s)) (mset (queue_list (waiting (set_queue w q ?s))))
        (mset (queue_list (skipped_waiting (set_queue w q ?s))) + sq) (num_waiting_for_streaming_input ?s)"
      by (rule placed_cong [OF o(2)]) (simp add: a(5))
    from placed_put_running [OF this _ a(3)] show "sched_at c s3 sq"
      using a assms(5) f(2) by (intro sched_at_put [OF at o(1)]) (simp_all add: same_lists_def)
  qed
  show ?thesis
    unfolding admit_waiting_def i p prod.case Let_def rpost_rbind
    by (rule rpost_conseq [OF pop_request_mset])
      (use assms(3,4) f(1) in \<open>auto intro!: put rpost_conseq [OF st]\<close>)
qed

lemma promote_at:
  assumes "sched_at c s sq" "rid \<in> set (queue_list (queue_of w s))"
  shows "rpost (try_promote_blocked_waiting_request x c rid s) (\<lambda>(ready, s1). sched_at c s1 sq \<and> same_lists s s1 \<and>
    (ready \<longrightarrow> \<not> is_blocked_waiting_status (stat s1 rid)))"
proof (rule rpost_conseq [OF promote_status], clarify)
  fix ready s1
  assume a: "same_lists s s1" "num_waiting_for_streaming_input s1 = num_waiting_for_streaming_input s"
    "\<forall>i. request_id (objs s1 i) = request_id (objs s i)" "\<forall>i. i \<noteq> rid \<longrightarrow> stat s1 i = stat s i"
    "if ready then stat s rid \<in> {WAITING_FOR_REMOTE_KVS, WAITING_FOR_STRUCTURED_OUTPUT_GRAMMAR} \<and>
      stat s1 rid \<in> {WAITING, PREEMPTED} else stat s1 rid = stat s rid"
  let ?K = "mset (queue_list (skipped_waiting s)) + sq"
  have p: "placed (set (requests s)) (stat s) (mset (running s)) (mset (queue_list (waiting s))) ?K
      (num_waiting_for_streaming_input s)" using assms(1) by (simp add: sched_at_def)
  have "sched_at c s1 sq"
  proof (cases ready)
    case False
    then have "stat s1 i = stat s i" for i using a(4,5) by (cases "i = rid") auto
    then show ?thesis using sched_at_status [OF assms(1) a(1,2)] a(3) by simp
  next
    case True
    then have "rid \<notin># mset (queue_list (waiting s))" using p a(5) by (fastforce simp: placed_def)
    then have "rid \<in># ?K" using assms(2) by (cases w) auto
    from placed_restatus [OF p this, of "stat s1"]
    have "placed (set (requests s)) (stat s1) (mset (running s)) (mset (queue_list (waiting s))) ?K
        (num_waiting_for_streaming_input s)" using True a(4,5) by (auto simp: status_finished_iff)
    then show ?thesis using assms(1) a(1-3) by (auto simp: sched_at_def same_lists_def)
  qed
  then show "sched_at c s1 sq \<and> same_lists s s1 \<and> (ready \<longrightarrow> \<not> is_blocked_waiting_status (stat s1 rid))"
    using a(1,5) by (auto simp: is_blocked_waiting_status_def)
qed

lemma give_up_waiting_quiet: "rpost (give_up_waiting rid s t sq) (\<lambda>(go, s', t', sq'). quiet s s' \<and> sq' = sq)"
  by (simp add: give_up_waiting_def)

lemma wait_one_at:
  assumes "sched_at c s (mset (queue_list sq))" "len (running s) < max_num_running_reqs c"
  shows "rpost (wait_one x c now s t sq) (\<lambda>(go, s', t', sq'). sched_at c s' (mset (queue_list sq')))"
proof -
  let ?q = "mset (queue_list sq)"
  define F where "F w rid s1 \<longleftrightarrow> sched_at c s1 ?q \<and> peek_request (queue_of w s1) = Inr rid \<and>
    len (running s1) < max_num_running_reqs c" for w rid and s1 :: "'a Scheduler"
  define G where "G w rid s1 \<longleftrightarrow> F w rid s1 \<and> \<not> is_blocked_waiting_status (stat s1 rid)"
    for w rid and s1 :: "'a Scheduler"
  have Gq: "G w rid s2" if "G w rid s1" "quiet s1 s2" for w rid s1 s2
  proof -
    have "same_lists s1 s2" "stat s2 rid = stat s1 rid" using that(2) by (simp_all add: quiet_def like_def)
    then show ?thesis
      using that(1) sched_at_quiet [OF _ that(2)] same_lists_queued [of s1 s2 w]
      by (auto simp: G_def F_def) (simp add: same_lists_def)
  qed
  have pr: "rpost (try_promote_blocked_waiting_request x c rid s) (\<lambda>(ready, s1). if ready then G w rid s1 else F w rid s1)"
    if "F w rid s" for w rid
  proof (rule rpost_conseq [OF promote_at [of c s ?q rid w]], goal_cases)
    case (3 r)
    then show ?case
      using that same_lists_queued [of s "snd r" w] by (auto simp: G_def F_def) (auto simp: same_lists_def)
  qed (use that peek_in in \<open>auto simp: F_def\<close>)
  let ?P = "\<lambda>(go :: bool, s' :: 'a Scheduler, t' :: sched_step, sq'). sched_at c s' (mset (queue_list sq'))"
  show ?thesis
  proof (rule wait_one_rule [where F = F and G = G and L = "\<lambda>w rid _. G w rid" and A = "\<lambda>w rid i p. G w rid"], goal_cases)
    case (2 w rid)
    then show ?case by (intro pr)
  next
    case (5 w rid s1)
    then show ?case by (intro skip_waiting_at [OF _ _ refl]) (simp_all add: F_def)
  next
    case (6 w rid s1)
    show ?case by (rule rpost_conseq [OF quiet_lookup]) (use Gq [OF 6] in \<open>auto simp: G_def split: option.split\<close>)
  next
    case (7 w rid i s2)
    show ?case by (rule rpost_conseq [OF quiet_plan]) (use Gq [OF 7] in \<open>auto simp: G_def F_def split: option.split\<close>)
  next
    case (8 w rid i p s3)
    show ?case
    proof (rule allocate_waiting_rule [where A = "G w rid"])
      fix s1 assume g: "G w rid s1"
      show "rpost (give_up_waiting rid s1 t sq) ?P"
        by (rule rpost_conseq [OF give_up_waiting_quiet]) (use Gq [OF g] in \<open>auto simp: G_def F_def\<close>)
      show "rpost (admit_waiting x c now w rid i p s1 t sq) ?P"
        by (rule admit_waiting_at) (use g in \<open>auto simp: G_def F_def\<close>)
      fix n nl b la ne as en nb r k
      assume "allocate_slots (hashing c) (kv_cache_manager s1) (objs s1 rid) n nl b la ne as en = Inr (nb, r, k)"
      then show "G w rid (s1\<lparr>kv_cache_manager := k, objs := (objs s1)(rid := r)\<rparr>)"
        by (intro Gq [OF g] quiet_slots [OF _ quiet_refl])
    qed (use 8 Gq [OF 8] in simp_all)
  qed (use assms in \<open>auto simp: G_def F_def\<close>)
qed

section \<open>The step\<close>

lemma schedule_requests_at:
  assumes "sched_inv c s"
  shows "rpost (schedule_requests x c now s) (\<lambda>(s', t). sched_inv c s')"
proof -
  have run: "rpost (running_loop x c now (active_num_spec_tokens s)
      (s\<lparr>kv_cache_manager := kvm_new_step_starts (kv_cache_manager s)\<rparr>) (new_step c s) 0) (\<lambda>(s1, t1). sched_at c s1 {#})"
    by (rule running_loop_rule [where I = "\<lambda>s _ _. sched_at c s {#}"])
      (use assms in \<open>auto simp: sched_inv_def intro!: rpost_conseq [OF run_one_at]\<close>)
  have wait: "rpost (waiting_loop x c now s1 t2 (create_request_queue (policy c)))
      (\<lambda>(s2, t3, sq). sched_at c s2 (mset (queue_list sq)))" if "sched_at c s1 {#}" for s1 :: "'a Scheduler" and t2
  proof (rule waiting_loop_rule [where I = "\<lambda>s _ sq. sched_at c s (mset (queue_list sq))"])
    show "sched_at c s1 (mset (queue_list (create_request_queue (policy c))))" using that by (cases "policy c") simp_all
  next
    fix s :: "'a Scheduler" and t sq
    assume a: "sched_at c s (mset (queue_list sq))" "len (running s) \<noteq> max_num_running_reqs c"
    then show "rpost (wait_one x c now s t sq) (\<lambda>(go, s', t', sq'). sched_at c s' (mset (queue_list sq')))"
      by (intro wait_one_at) (auto simp: sched_at_def)
  qed
  have fin: "queue_bool sq \<Longrightarrow> sched_at c (s2\<lparr>skipped_waiting := prepend_requests (req_lt s2) sq (skipped_waiting s2)\<rparr>) {#}"
    "\<not> queue_bool sq \<Longrightarrow> sched_at c s2 {#}"
    if "sched_at c s2 (mset (queue_list sq))" for s2 :: "'a Scheduler" and sq
    using that by (auto simp: sched_at_def prepend_requests_mset queue_bool_def ac_simps)
  show ?thesis
    unfolding schedule_requests_def sched_inv_def
    by (auto intro!: rpostI dest!: rpostD [OF run] dest: rpostD [OF wait] fin)
qed

lemma sched_at_same: "sched_at c s sq \<Longrightarrow> same_status s s' \<Longrightarrow> sched_at c s' sq"
  by (rule sched_at_status) (auto simp: same_status_def)

lemma schedule_at:
  assumes "sched_inv c s"
  shows "rpost (schedule x c now s) (\<lambda>(out, s'). sched_inv c s')"
proof -
  have b: "rpost (build_output x c k s1 t) (\<lambda>(out, s'). sched_inv c s')" if "sched_inv c s1" for k s1 t
    by (rule rpost_conseq [OF build_output_status]) (use that sched_at_same in \<open>auto simp: sched_inv_def\<close>)
  show ?thesis
    unfolding schedule_def by (auto intro!: rpost_conseq [OF schedule_requests_at [OF assms]] b)
qed

end
