(* ===== verification/SchedFinish.thy ===== *)
theory SchedFinish
  imports SchedInv
begin

text \<open>
  Finishing requests keeps every request where it belongs, and new tokens keep of a request what the
  scheduler relies on: its identity, its session queue, and its status unless it stops.
\<close>

section \<open>Removing requests from the queues\<close>

lemma siftup_fold_mset: "(\<And>i. i \<in> set is \<Longrightarrow> i < length h) \<Longrightarrow> mset (fold (siftup lt) is h) = mset h"
proof (induction "is" arbitrary: h)
  case (Cons i "is")
  have "mset (siftup lt i h) = mset h" "length (siftup lt i h) = length h"
    using siftup_mset [of i h lt] Cons.prems by simp_all
  then show ?case using Cons by simp
qed simp

lemma heapify_mset: "mset (heapify lt h) = mset h"
  unfolding heapify_def by (rule siftup_fold_mset) auto

lemma remove_requests_mset: "mset (queue_list (remove_requests lt rs q)) = {#i \<in># mset (queue_list q). i \<notin> set rs#}"
  by (cases q) (simp_all add: heapify_mset)

lemma remove_all_filter: "distinct xs \<Longrightarrow> remove_all xs ys = filter (\<lambda>i. i \<notin> set ys) xs"
  by (cases "length ys = 1") (auto simp: remove_all_def distinct_remove1_removeAll removeAll_filter_not_eq length_Suc_conv
      intro!: filter_cong)

lemma sched_at_distinct: "sched_at c s sq \<Longrightarrow> distinct (running s)"
  using placed_once(1) by (fastforce simp: sched_at_def distinct_count_atmost_1 count_mset_0_iff)

text \<open>All requests of a set are taken out at once.\<close>

lemma placed_remove:
  assumes "placed Q st R W K n"
  shows "placed (Q - V) st {#i \<in># R. i \<notin> V#} {#i \<in># W. i \<notin> V#} {#i \<in># K. i \<notin> V#}
    (n - int (size {#i \<in># K. i \<in> V \<and> st i = WAITING_FOR_STREAMING_REQ#}))"
proof -
  have "{#i \<in># K. st i = WAITING_FOR_STREAMING_REQ#} = {#i \<in># {#i \<in># K. i \<notin> V#}. st i = WAITING_FOR_STREAMING_REQ#} +
      {#i \<in># K. i \<in> V \<and> st i = WAITING_FOR_STREAMING_REQ#}"
    by (rule multiset_eqI) auto
  then have "int (size {#i \<in># {#i \<in># K. i \<notin> V#}. st i = WAITING_FOR_STREAMING_REQ#}) =
      n - int (size {#i \<in># K. i \<in> V \<and> st i = WAITING_FOR_STREAMING_REQ#})"
    using assms by (simp add: placed_def)
  moreover have "count ({#i \<in># R. i \<notin> V#} + {#i \<in># W. i \<notin> V#} + {#i \<in># K. i \<notin> V#}) i =
      (if i \<notin> V then count (R + W + K) i else 0)" for i by simp
  ultimately show ?thesis using assms unfolding placed_def by auto
qed

lemma placed_streaming:
  assumes "placed Q st R W K n" "distinct vs" "\<forall>i \<in> set vs. i \<in> Q \<and> \<not> status_is_finished (st i)"
  shows "int (size {#i \<in># K. i \<in> set vs \<and> st i = WAITING_FOR_STREAMING_REQ#}) =
    len (filter (\<lambda>i. st i = WAITING_FOR_STREAMING_REQ) vs)"
proof -
  have "{#i \<in># K. i \<in> set vs \<and> st i = WAITING_FOR_STREAMING_REQ#} = mset (filter (\<lambda>i. st i = WAITING_FOR_STREAMING_REQ) vs)"
  proof (rule multiset_eqI)
    fix i
    show "count {#i \<in># K. i \<in> set vs \<and> st i = WAITING_FOR_STREAMING_REQ#} i =
        count (mset (filter (\<lambda>i. st i = WAITING_FOR_STREAMING_REQ) vs)) i"
    proof (cases "i \<in> set vs \<and> st i = WAITING_FOR_STREAMING_REQ")
      case True
      have "count (R + W + K) i = 1" using assms(1,3) True by (simp add: placed_def status_finished_iff)
      moreover have "i \<notin># R" "i \<notin># W" using assms(1) True by (auto simp: placed_def)
      ultimately have "count K i = 1" by (simp add: not_in_iff)
      moreover have "count (mset vs) i = 1" using assms(2) True by (metis distinct_count_atmost_1)
      ultimately show ?thesis using True by (simp add: mset_filter)
    qed (auto simp: mset_filter)
  qed
  then show ?thesis by (simp only: size_mset)
qed

section \<open>Finishing requests\<close>

text \<open>The state when \<open>V\<close> have left their lists but are not finished yet.\<close>

definition sched_without :: "sched_config \<Rightarrow> string set \<Rightarrow> 'e Scheduler \<Rightarrow> bool" where
  "sched_without c V s \<longleftrightarrow> distinct (requests s) \<and> (\<forall>i \<in> set (requests s). request_id (objs s i) = i) \<and>
     len (running s) \<le> max_num_running_reqs c \<and> V \<subseteq> set (requests s) \<and>
     placed (set (requests s) - V) (stat s) (mset (running s)) (mset (queue_list (waiting s)))
       (mset (queue_list (skipped_waiting s))) (num_waiting_for_streaming_input s)"

lemma sched_without_none: "sched_without c {} s = sched_inv c s"
  by (simp add: sched_without_def sched_inv_def sched_at_def)

lemma free_request_frame:
  "rpost (free_request x c d rid s) (\<lambda>(p, s'). objs s' = objs s \<and> running s' = running s \<and> waiting s' = waiting s \<and>
     skipped_waiting s' = skipped_waiting s \<and>
     num_waiting_for_streaming_input s' = num_waiting_for_streaming_input s \<and> is_finished (objs s rid) \<and>
     (requests s' = requests s \<or> requests s' = remove1 rid (requests s)))"
proof -
  let ?f = "\<lambda>s'. objs s' = objs s \<and> running s' = running s \<and> waiting s' = waiting s \<and>
     skipped_waiting s' = skipped_waiting s \<and> requests s' = requests s \<and>
     num_waiting_for_streaming_input s' = num_waiting_for_streaming_input s"
  have c: "rpost (connector_finished x c rid s) (\<lambda>(p, s'). ?f s')"
    by (auto simp: connector_finished_def Let_def intro!: rpostI split: prod.splits if_splits)
  show ?thesis
    unfolding free_request_def
    by (auto simp: note_finished_def sched_free_blocks_def Let_def rbind_eq_Inr py_assert_Inr py_raise_if_def
        intro!: rpostI dest!: rpostD [OF c] split: if_splits)
qed

lemma free_request_inv:
  fixes s :: "'e Scheduler"
  assumes "sched_without c (insert rid V) s" "rid \<notin> V"
  shows "rpost (free_request x c d rid s) (\<lambda>(p, s'). sched_without c V s' \<and> objs s' = objs s \<and>
     running s' = running s \<and> waiting s' = waiting s)"
proof (rule rpost_conseq [OF free_request_frame], clarify)
  fix p and s' :: "'e Scheduler"
  assume a: "objs s' = objs s" "running s' = running s" "waiting s' = waiting s" "skipped_waiting s' = skipped_waiting s"
     "num_waiting_for_streaming_input s' = num_waiting_for_streaming_input s" "is_finished (objs s rid)"
     "requests s' = requests s \<or> requests s' = remove1 rid (requests s)"
  let ?p = "\<lambda>Q. placed Q (stat s) (mset (running s)) (mset (queue_list (waiting s)))
       (mset (queue_list (skipped_waiting s))) (num_waiting_for_streaming_input s)"
  have p: "?p (set (requests s) - insert rid V)" and d: "distinct (requests s)" "rid \<in> set (requests s)"
    using assms(1) by (auto simp: sched_without_def)
  have "?p (set (requests s') - V)"
  proof (cases "requests s' = requests s")
    case True
    have "?p (insert rid (set (requests s) - insert rid V))"
      by (rule placed_put_finished [OF p]) (use a(6) in \<open>simp_all add: is_finished_def\<close>)
    moreover have "insert rid (set (requests s) - insert rid V) = set (requests s') - V"
      using d(2) assms(2) True by auto
    ultimately show ?thesis by simp
  next
    case False
    then have "set (requests s') - V = set (requests s) - insert rid V" using a(7) d(1) by auto
    then show ?thesis using p by simp
  qed
  moreover have "set (requests s') \<subseteq> set (requests s)" "distinct (requests s')"
    using a(7) d(1) set_remove1_subset by fastforce+
  moreover have "V \<subseteq> set (requests s')" using assms a(7) d(1) by (auto simp: sched_without_def)
  ultimately show "sched_without c V s' \<and> objs s' = objs s \<and> running s' = running s \<and> waiting s' = waiting s"
    using assms(1) a by (auto simp: sched_without_def)
qed

lemma sched_without_restatus:
  assumes "sched_without c V s" "same_lists s s'"
    and "num_waiting_for_streaming_input s' = num_waiting_for_streaming_input s"
    and "\<And>i. i \<in> set (requests s) \<Longrightarrow> request_id (objs s' i) = request_id (objs s i)"
    and "\<And>i. i \<in> set (requests s) - V \<Longrightarrow> stat s' i = stat s i"
  shows "sched_without c V s'"
  using assms placed_cong [of "set (requests s) - V" "stat s"] by (auto simp: sched_without_def same_lists_def)

lemma finish_one_inv:
  assumes "sched_without c (insert rid V) s" "rid \<notin> V"
  shows "rpost (finish_one x c fs rid s) (sched_without c V)"
proof -
  have "sched_without c (insert rid V) (upd_req rid (\<lambda>r. r\<lparr>status := fs\<rparr>) s1)"
    if "s1 = s \<or> s1 = s\<lparr>finished_recving_kv_req_ids := A, failed_recving_kv_req_ids := B\<rparr>" for s1 A B
    by (rule sched_without_restatus [OF assms(1)]) (use that in \<open>auto simp: same_lists_def\<close>)
  note f = free_request_inv [OF this assms(2)]
  show ?thesis
    unfolding finish_one_def Let_def by (auto intro!: rpost_conseq [OF f])
qed

lemma finish_fold_inv:
  assumes "sched_without c (set rids) s" "distinct rids"
  shows "rpost (rfold (finish_one x c fs) rids s) (sched_inv c)"
  using assms
proof (induction rids arbitrary: s)
  case (Cons rid rids)
  have "rpost (finish_one x c fs rid s) (sched_without c (set rids))"
    using Cons.prems by (intro finish_one_inv) auto
  then show ?case using Cons.IH Cons.prems(2) by (auto elim!: rpost_conseq)
qed (simp add: sched_without_none)

lemma unfinished_iff: "unfinished s i \<longleftrightarrow> i \<in> set (requests s) \<and> \<not> status_is_finished (stat s i)"
  by (simp add: unfinished_def requests_get_def is_finished_def)

lemma sched_take_out:
  fixes s s3 :: "'e Scheduler"
  defines "run vs \<equiv> filter (\<lambda>i. stat s i = RUNNING) vs" and "wait vs \<equiv> filter (\<lambda>i. stat s i \<noteq> RUNNING) vs"
  assumes inv: "sched_inv c s" and vs: "distinct vs" "\<forall>i \<in> set vs. unfinished s i"
    and s3: "requests s3 = requests s" "objs s3 = objs s" "running s3 = filter (\<lambda>i. i \<notin> set (run vs)) (running s)"
      "mset (queue_list (waiting s3)) = {#i \<in># mset (queue_list (waiting s)). i \<notin> set (wait vs)#}"
      "mset (queue_list (skipped_waiting s3)) = {#i \<in># mset (queue_list (skipped_waiting s)). i \<notin> set (wait vs)#}"
      "num_waiting_for_streaming_input s3 = num_waiting_for_streaming_input s -
         len (filter (\<lambda>i. stat s i = WAITING_FOR_STREAMING_REQ) (wait vs))"
  shows "sched_without c (set vs) s3"
proof -
  let ?W = "mset (queue_list (waiting s))" and ?K = "mset (queue_list (skipped_waiting s))"
  have at: "distinct (requests s)" "\<forall>i \<in> set (requests s). request_id (objs s i) = i" "len (running s) \<le> max_num_running_reqs c"
    and p: "placed (set (requests s)) (stat s) (mset (running s)) ?W ?K (num_waiting_for_streaming_input s)"
    using inv by (simp_all add: sched_inv_def sched_at_def)
  have sub: "\<forall>i \<in> set vs. i \<in> set (requests s) \<and> \<not> status_is_finished (stat s i)" using vs(2) by (simp add: unfinished_iff)
  have st: "filter (\<lambda>i. stat s i = WAITING_FOR_STREAMING_REQ) (wait vs) = filter (\<lambda>i. stat s i = WAITING_FOR_STREAMING_REQ) vs"
    by (auto simp: wait_def intro!: filter_cong)
  have R: "{#i \<in># mset (running s). i \<notin> set vs#} = mset (filter (\<lambda>i. i \<notin> set (run vs)) (running s))"
    unfolding mset_filter by (rule filter_mset_cong) (use p in \<open>auto simp: placed_def run_def\<close>)
  have W: "{#i \<in># ?W. i \<notin> set vs#} = {#i \<in># ?W. i \<notin> set (wait vs)#}"
    by (rule filter_mset_cong) (use p in \<open>auto simp: placed_def wait_def\<close>)
  have K: "{#i \<in># ?K. i \<notin> set vs#} = {#i \<in># ?K. i \<notin> set (wait vs)#}"
    by (rule filter_mset_cong) (use p in \<open>auto simp: placed_def wait_def\<close>)
  have "placed (set (requests s3) - set vs) (stat s3) (mset (running s3)) (mset (queue_list (waiting s3)))
      (mset (queue_list (skipped_waiting s3))) (num_waiting_for_streaming_input s3)"
    using placed_remove [OF p, of "set vs"] placed_streaming [OF p vs(1) sub]
    unfolding R W K s3 st by simp
  moreover have "len (running s3) \<le> len (running s)" by (simp add: s3(3))
  ultimately show ?thesis using at sub unfolding sched_without_def by (auto simp: s3(1,2))
qed

lemma finish_requests_inv:
  assumes inv: "sched_inv c s"
  shows "rpost (finish_requests x c ids fs s) (\<lambda>(res, s'). sched_inv c s')"
proof -
  define vs where "vs = filter (unfinished s) (case ids of Some is \<Rightarrow> remdups is | None \<Rightarrow> requests s)"
  let ?run = "filter (\<lambda>i. stat s i = RUNNING) vs" and ?wait = "filter (\<lambda>i. stat s i \<noteq> RUNNING) vs"
  have "sched_at c s {#}" using inv by (simp add: sched_inv_def)
  then have at: "distinct (running s)" "distinct (requests s)"
    by (rule sched_at_distinct, simp add: sched_at_def)
  have vs: "distinct vs" "\<forall>i \<in> set vs. unfinished s i" using at(2) by (auto simp: vs_def split: option.split)
  have e: "filter (\<lambda>i. i \<notin> set ?run) (running s) = running s" if "?run = []"
    unfolding that by simp
  have f: "{#i \<in># M. i \<notin> set ?wait#} = M" if "?wait = []" for M
    unfolding that by simp
  have g: "filter (\<lambda>i. stat s i \<noteq> RUNNING \<and> stat s i = WAITING_FOR_STREAMING_REQ) vs = []" if "?wait = []"
    using that by (auto simp: filter_empty_conv)
  show ?thesis
    unfolding finish_requests_def Let_def vs_def [symmetric] rpost_simps rpost_rbind
    apply (intro impI)
    apply (rule rpost_conseq [OF finish_fold_inv [OF sched_take_out [OF inv vs] vs(1)]])
    apply (use e f g in \<open>simp_all add: remove_all_filter [OF at(1)] remove_requests_mset del: set_filter\<close>)
    done
qed

section \<open>Requests under new tokens\<close>

text \<open>The block hasher computes hashes and changes nothing of the request but its memo.\<close>

definition hasher_ok :: "sched_config \<Rightarrow> bool" where
  "hasher_ok c \<longleftrightarrow> (\<forall>h r. hasher c = Some h \<longrightarrow> rpost (h r) (\<lambda>(new, r'). memo_only r r'))"

lemma hasher_loop_memo: "rpost (hasher_loop fuel cfg bs n r st mm prev new) (\<lambda>(hs, r'). memo_only r r')"
proof (induction fuel arbitrary: r st mm prev new)
  case (Suc fuel)
  have "rpost (hasher_loop fuel cfg bs n r1 st' mm' prev' new') (\<lambda>(hs, r'). memo_only r r')"
    if "memo_only r r1" for r1 st' mm' prev' new'
    by (rule rpost_conseq [OF Suc.IH]) (use memo_only_trans [OF that] in auto)
  then show ?case by (auto simp: Let_def intro!: rpost_conseq [OF extra_keys_memo])
qed simp

lemma request_block_hasher_memo: "rpost (request_block_hasher cfg bs r) (\<lambda>(hs, r'). memo_only r r')"
  unfolding request_block_hasher_def Let_def rpost_if by (simp add: hasher_loop_memo del: hasher_loop.simps)

text \<open>What the handlers of new tokens keep of a request, its status apart.\<close>

definition kept :: "Request \<Rightarrow> Request \<Rightarrow> bool" where
  "kept r r' \<longleftrightarrow> request_id r' = request_id r \<and> resumable r' = resumable r \<and> streaming_queue r' = streaming_queue r"

lemma kept_refl [simp]: "kept r r"
  by (simp add: kept_def)

lemma kept_trans: "kept r r' \<Longrightarrow> kept r' r'' \<Longrightarrow> kept r r''"
  by (simp add: kept_def)

lemma kept_memo: "memo_only r r' \<Longrightarrow> kept r r' \<and> status r' = status r"
  by (auto simp: memo_only_def kept_def)

lemma update_block_hashes_kept:
  assumes "hasher_ok c"
  shows "rpost (update_block_hashes (hasher c) r) (\<lambda>r'. kept r r' \<and> status r' = status r)"
proof (cases "hasher c")
  case (Some h)
  then have "rpost (h r) (\<lambda>(new, r'). memo_only r r')" using assms by (simp add: hasher_ok_def)
  then show ?thesis
    using Some by (auto simp: update_block_hashes_def memo_only_def kept_def elim!: rpost_conseq)
qed (simp add: update_block_hashes_def)

lemma append_output_kept:
  "hasher_ok c \<Longrightarrow> rpost (append_output_token_ids (hasher c) toks r) (\<lambda>r'. kept r r' \<and> status r' = status r)"
  unfolding append_output_token_ids_def
  by (rule rpost_conseq [OF update_block_hashes_kept]) (auto simp: kept_def)

definition stop_post :: "Request \<Rightarrow> bool \<Rightarrow> Request \<Rightarrow> bool" where
  "stop_post r stopped r' \<longleftrightarrow> kept r r' \<and> (if stopped then is_finished r' else status r' = status r)"

lemma stop_post_trans: "kept r r1 \<Longrightarrow> status r1 = status r \<Longrightarrow> stop_post r1 b r' \<Longrightarrow> stop_post r b r'"
  by (auto simp: stop_post_def kept_def)

lemma stop_post_on: "stop_post r False r' \<Longrightarrow> kept r r' \<and> status r' = status r"
  by (simp add: stop_post_def)

lemma check_stop_kept: "rpost (check_stop r n) (\<lambda>(stopped, r'). stop_post r stopped r')"
  by (auto simp: check_stop_def stop_post_def kept_def is_finished_def status_finished_iff intro!: rpostI split: option.splits)

lemma append_tokens_kept:
  "hasher_ok c \<Longrightarrow> rpost (append_tokens (hasher c) n toks acc r) (\<lambda>(out, stopped, r'). stop_post r stopped r')"
proof (induction toks arbitrary: acc r)
  case (Cons tok toks)
  let ?P = "\<lambda>(out :: int list, stopped, r'). stop_post r stopped r'"
  have ih: "rpost (append_tokens (hasher c) n toks d r2) ?P" if "kept r r2" "status r2 = status r" for d r2
    by (rule rpost_conseq [OF Cons.IH [OF Cons.prems]]) (use stop_post_trans [OF that] in auto)
  have cs: "rpost (check_stop r1 n) (\<lambda>(stopped, r2). rpost (if stopped then Inr (acc @ [tok], True, r2)
      else append_tokens (hasher c) n toks (acc @ [tok]) r2) ?P)" if "kept r r1" "status r1 = status r" for r1
    by (rule rpost_conseq [OF check_stop_kept])
      (use stop_post_trans [OF that] ih in \<open>auto dest!: stop_post_on [OF stop_post_trans [OF that]]\<close>)
  show ?case
    unfolding append_tokens.simps rpost_rbind
    by (rule rpost_conseq [OF append_output_kept [OF Cons.prems]]) (use cs in \<open>auto simp del: rpost_if\<close>)
qed (simp add: stop_post_def)

end
