(* ===== verification/SchedReach.thy ===== *)
theory SchedReach
  imports SchedFinish
begin

text \<open>
  Every handler of the scheduler keeps its requests where they belong: the invariant holds in every
  state that can be reached by adding and finishing requests, scheduling, processing the output of a
  step, draft tokens, resets and pauses.
\<close>

section \<open>Requests in transit\<close>

text \<open>While the output of a step is processed, the stopped requests \<open>SR\<close> are still on the running list
  and \<open>SP\<close> still in the waiting queue; \<open>V\<close> are on their way from one place to another.\<close>

definition sched_mid :: "sched_config \<Rightarrow> string set \<Rightarrow> string set \<Rightarrow> string set \<Rightarrow> 'e Scheduler \<Rightarrow> bool" where
  "sched_mid c V SR SP s \<longleftrightarrow> distinct (requests s) \<and> (\<forall>i \<in> set (requests s). request_id (objs s i) = i) \<and>
     len (running s) \<le> max_num_running_reqs c \<and> distinct (running s) \<and> V \<subseteq> set (requests s) \<and>
     placed (set (requests s) - V) (stat s) {#i \<in># mset (running s). i \<notin> SR#}
       {#i \<in># mset (queue_list (waiting s)). i \<notin> SP#}
       (mset (queue_list (skipped_waiting s))) (num_waiting_for_streaming_input s)"

lemma sched_mid_start: "sched_inv c s \<Longrightarrow> sched_mid c {} {} {} s"
  using sched_at_distinct [of c s "{#}"] by (simp add: sched_mid_def sched_inv_def sched_at_def)

lemma sched_mid_restatus:
  assumes "sched_mid c V SR SP s" "same_lists s s'"
    and "num_waiting_for_streaming_input s' = num_waiting_for_streaming_input s"
    and "\<And>i. i \<in> set (requests s) \<Longrightarrow> request_id (objs s' i) = request_id (objs s i)"
    and "\<And>i. i \<in> set (requests s) - V \<Longrightarrow> stat s' i = stat s i"
  shows "sched_mid c V SR SP s'"
  using assms placed_cong [of "set (requests s) - V" "stat s"] by (auto simp: sched_mid_def same_lists_def)

lemma sched_mid_same: "sched_mid c V SR SP s \<Longrightarrow> same_status s s' \<Longrightarrow> sched_mid c V SR SP s'"
  by (rule sched_mid_restatus) (auto simp: same_status_def)

lemma sched_mid_take:
  assumes "sched_mid c {} SR SP s"
  shows "rid \<in> set (running s) - SR \<Longrightarrow> sched_mid c {rid} (insert rid SR) SP s"
    and "rid \<in> set (queue_list (waiting s)) - SP \<Longrightarrow> sched_mid c {rid} SR (insert rid SP) s"
proof -
  let ?R = "{#i \<in># mset (running s). i \<notin> SR#}" and ?W = "{#i \<in># mset (queue_list (waiting s)). i \<notin> SP#}"
    and ?K = "mset (queue_list (skipped_waiting s))"
  have p: "placed (set (requests s)) (stat s) ?R ?W ?K (num_waiting_for_streaming_input s)"
    using assms by (simp add: sched_mid_def)
  have f: "{#i \<in># M. i \<notin> {rid}#} = M" if "rid \<notin># M" for M :: "string multiset"
    by (rule multiset_eqI) (use that in \<open>auto simp: not_in_iff\<close>)
  have e: "{#i \<in># {#i \<in># M. i \<notin> S#}. i \<notin> {rid}#} = {#i \<in># M. i \<notin> insert rid S#}" for M :: "string multiset" and S
    by (rule multiset_eqI) auto
  have g: "{#i \<in># ?K. i \<in> {rid} \<and> stat s i = WAITING_FOR_STREAMING_REQ#} = {#}" if "rid \<notin># ?K"
    by (rule multiset_eqI) (use that in \<open>auto simp: not_in_iff\<close>)
  note r = placed_remove [OF p, of "{rid}"]
  show "sched_mid c {rid} (insert rid SR) SP s" if a: "rid \<in> set (running s) - SR"
  proof -
    have i: "rid \<in># ?R" using a by simp
    have k: "rid \<notin># ?W" "rid \<notin># ?K" "rid \<in> set (requests s)"
      using placed_once(1) [OF p i] placed_in(1) [OF p, of rid] i by simp_all
    show ?thesis
      using r [unfolded f [OF k(1)] f [OF k(2)] e [where M = "mset (running s)"] g [OF k(2)]] k(3) assms unfolding sched_mid_def by simp
  qed
  show "sched_mid c {rid} SR (insert rid SP) s" if a: "rid \<in> set (queue_list (waiting s)) - SP"
  proof -
    have i: "rid \<in># ?W" using a by simp
    have k: "rid \<notin># ?R" "rid \<notin># ?K" "rid \<in> set (requests s)"
      using placed_once(2) [OF p i] placed_in(1) [OF p, of rid] i by simp_all
    show ?thesis
      using r [unfolded f [OF k(1)] f [OF k(2)] e [where M = "mset (queue_list (waiting s))"] g [OF k(2)]] k(3) assms unfolding sched_mid_def by simp
  qed
qed

text \<open>What happens to one request leaves the others where they are.\<close>

definition others :: "string \<Rightarrow> 'e Scheduler \<Rightarrow> 'e Scheduler \<Rightarrow> bool" where
  "others rid s s' \<longleftrightarrow> running s' = running s \<and> set (queue_list (waiting s)) \<subseteq> set (queue_list (waiting s')) \<and>
     set (requests s') \<subseteq> set (requests s) \<and>
     (\<forall>i. i \<noteq> rid \<longrightarrow> stat s' i = stat s i \<and> resumable (objs s' i) = resumable (objs s i))"

lemma others_refl [simp]: "others rid s s"
  by (simp add: others_def)

lemma others_trans: "others rid s s' \<Longrightarrow> others rid s' s'' \<Longrightarrow> others rid s s''"
  by (auto simp: others_def)

lemma others_same: "same_status s s' \<Longrightarrow> others rid s s'"
  by (auto simp: others_def same_status_def same_lists_def)

section \<open>Sessions\<close>

lemma session_request_kept:
  "hasher_ok c \<Longrightarrow> rpost (session_request (hasher c) u r) (\<lambda>r'. kept r r' \<and> status r' = status r)"
  by (auto simp: session_request_def Let_def kept_def split: option.split
      intro!: rpost_conseq [OF update_block_hashes_kept])

lemma as_session_objs:
  assumes "hasher_ok c"
  shows "rpost (update_request_as_session c now rid u s) (\<lambda>s'. same_lists s s' \<and> stat s' rid = WAITING \<and>
    request_id (objs s' rid) = request_id (objs s rid) \<and> (\<forall>i. i \<noteq> rid \<longrightarrow> objs s' i = objs s i) \<and>
    num_waiting_for_streaming_input s' =
      num_waiting_for_streaming_input s - (if stat s rid = WAITING_FOR_STREAMING_REQ then 1 else 0))"
  unfolding update_request_as_session_def rpost_rbind
  by (rule rpost_conseq [OF session_request_kept [OF assms]]) (auto simp: same_lists_def kept_def record_event_def)

lemma enqueue_mid:
  assumes "sched_mid c {rid} SR SP s" "\<not> status_is_finished (stat s rid)" "stat s rid \<noteq> RUNNING" "rid \<notin> SP"
    and "n = num_waiting_for_streaming_input s + (if stat s rid = WAITING_FOR_STREAMING_REQ then 1 else 0)"
  shows "sched_mid c {} SR SP (enqueue_waiting_request rid (s\<lparr>num_waiting_for_streaming_input := n\<rparr>))"
proof -
  have p: "placed (set (requests s) - {rid}) (stat s) {#i \<in># mset (running s). i \<notin> SR#}
       {#i \<in># mset (queue_list (waiting s)). i \<notin> SP#}
       (mset (queue_list (skipped_waiting s))) (num_waiting_for_streaming_input s)"
    and i: "insert rid (set (requests s)) = set (requests s)"
    using assms(1) by (auto simp: sched_mid_def)
  show ?thesis
  proof (cases "is_blocked_waiting_status (stat s rid)")
    case True
    then show ?thesis using placed_put_skipped [OF p _ assms(2,3)] assms i
      by (auto simp: sched_mid_def enqueue_waiting_request_def add_request_mset)
  next
    case False
    then have w: "stat s rid \<in> {WAITING, PREEMPTED}" "stat s rid \<noteq> WAITING_FOR_STREAMING_REQ"
      using assms(2,3) by (cases "stat s rid"; simp add: is_blocked_waiting_status_def status_finished_iff)+
    then show ?thesis using placed_put_waiting [OF p _ w(1)] assms i False
      by (simp add: sched_mid_def enqueue_waiting_request_def add_request_mset)
  qed
qed

lemma enqueue_plain_mid:
  assumes "sched_mid c {rid} SR SP s" "stat s rid \<in> {WAITING, WAITING_FOR_STRUCTURED_OUTPUT_GRAMMAR}" "rid \<notin> SP"
  shows "sched_mid c {} SR SP (enqueue_waiting_request rid s)"
  using enqueue_mid [OF assms(1) _ _ assms(3) refl] assms(2) by (auto simp: status_finished_iff)

lemma others_enqueue: "others rid s (enqueue_waiting_request rid (s\<lparr>num_waiting_for_streaming_input := n\<rparr>))"
proof -
  have "set (queue_list (waiting s)) \<subseteq> set (queue_list (add_request lt rid (waiting s)))" for lt
    using arg_cong [OF add_request_mset [of lt rid "waiting s"], of set_mset] by auto
  then show ?thesis by (auto simp: others_def enqueue_waiting_request_def)
qed

lemma handle_stopped_mid:
  fixes s :: "'e Scheduler"
  assumes "sched_mid c {rid} SR SP s" "is_finished (objs s rid)" "resumable (objs s rid) \<longrightarrow> rid \<notin> SP" "hasher_ok c"
  shows "rpost (handle_stopped_request c now rid s) (\<lambda>(fin, s'). others rid s s' \<and>
    (if fin then sched_mid c {rid} SR SP s' else sched_mid c {} SR SP s'))"
proof -
  have re: "sched_mid c {rid} SR SP s'" if "same_lists s s'"
    "num_waiting_for_streaming_input s' = num_waiting_for_streaming_input s"
    "request_id (objs s' rid) = request_id (objs s rid)" "\<forall>i. i \<noteq> rid \<longrightarrow> objs s' i = objs s i" for s' :: "'e Scheduler"
    by (rule sched_mid_restatus [OF assms(1) that(1,2)]) (use that(3,4) in auto)
  have o: "others rid s s'" if "same_lists s s'" "\<forall>i. i \<noteq> rid \<longrightarrow> objs s' i = objs s i" for s' :: "'e Scheduler"
    using that by (auto simp: others_def same_lists_def)
  show ?thesis
  proof (cases "resumable (objs s rid)")
    case False
    then show ?thesis using assms(1) by (simp add: handle_stopped_request_def)
  next
    case True
    then have sp: "rid \<notin> SP" using assms(3) by simp
    let ?t = "upd_req rid (\<lambda>r. r\<lparr>status := WAITING_FOR_STREAMING_REQ\<rparr>) s"
    let ?w = "enqueue_waiting_request rid (?t\<lparr>num_waiting_for_streaming_input := num_waiting_for_streaming_input s + 1\<rparr>)"
    have w: "sched_mid c {} SR SP ?w \<and> others rid s ?w"
    proof
      have "sched_mid c {rid} SR SP ?t" by (rule re) (simp_all add: same_lists_def)
      then show "sched_mid c {} SR SP ?w" by (rule enqueue_mid) (simp_all add: sp status_finished_iff)
      show "others rid s ?w" by (rule others_trans [OF o others_enqueue]) (simp_all add: same_lists_def)
    qed
    have q: "rpost (update_request_as_session c now rid u (upd_req rid (\<lambda>r. r\<lparr>streaming_queue := Some rest\<rparr>) s))
        (\<lambda>s2. others rid s (enqueue_waiting_request rid s2) \<and> sched_mid c {} SR SP (enqueue_waiting_request rid s2))" for u rest
    proof (rule rpost_conseq [OF as_session_objs [OF assms(4)]])
      fix s2
      assume a: "same_lists (upd_req rid (\<lambda>r. r\<lparr>streaming_queue := Some rest\<rparr>) s) s2 \<and> stat s2 rid = WAITING \<and>
        request_id (objs s2 rid) = request_id (objs (upd_req rid (\<lambda>r. r\<lparr>streaming_queue := Some rest\<rparr>) s) rid) \<and>
        (\<forall>i. i \<noteq> rid \<longrightarrow> objs s2 i = objs (upd_req rid (\<lambda>r. r\<lparr>streaming_queue := Some rest\<rparr>) s) i) \<and>
        num_waiting_for_streaming_input s2 = num_waiting_for_streaming_input (upd_req rid (\<lambda>r. r\<lparr>streaming_queue := Some rest\<rparr>) s) -
          (if stat (upd_req rid (\<lambda>r. r\<lparr>streaming_queue := Some rest\<rparr>) s) rid = WAITING_FOR_STREAMING_REQ then 1 else 0)"
      have sl: "same_lists s s2" using a by (auto simp: same_lists_def)
      have n: "num_waiting_for_streaming_input s2 = num_waiting_for_streaming_input s"
        using a assms(2) by (auto simp: is_finished_def status_finished_iff)
      have "sched_mid c {rid} SR SP s2" by (rule re [OF sl n]) (use a in auto)
      then have "sched_mid c {} SR SP (enqueue_waiting_request rid s2)"
        by (rule enqueue_plain_mid) (use a sp in auto)
      moreover have "others rid s s2" by (rule o [OF sl]) (use a in auto)
      ultimately show "others rid s (enqueue_waiting_request rid s2) \<and> sched_mid c {} SR SP (enqueue_waiting_request rid s2)"
        using others_trans [OF _ others_enqueue [of rid s2 "num_waiting_for_streaming_input s2"]] by simp
    qed
    have f: "sched_mid c {rid} SR SP (upd_req rid (\<lambda>r. r\<lparr>streaming_queue := Some rest\<rparr>) s) \<and>
        others rid s (upd_req rid (\<lambda>r. r\<lparr>streaming_queue := Some rest\<rparr>) s)" for rest
      using re o by (simp add: same_lists_def)
    show ?thesis
      using w q f True by (auto simp: handle_stopped_request_def Let_def split: option.split list.split elim!: rpost_conseq)
  qed
qed

section \<open>New requests\<close>

lemma sched_inv_status_update:
  assumes "sched_inv c s" "\<And>r. status (f r) = status r \<and> request_id (f r) = request_id r"
  shows "sched_inv c (upd_req rid f s)"
  unfolding sched_inv_def
  by (rule sched_at_status [OF assms(1) [unfolded sched_inv_def]]) (simp_all add: same_lists_def assms(2))

lemma as_session_inv:
  assumes "sched_inv c s" "rid \<in> set (requests s)" "stat s rid = WAITING_FOR_STREAMING_REQ" "hasher_ok c"
  shows "rpost (update_request_as_session c now rid u s) (sched_inv c)"
proof (rule rpost_conseq [OF as_session_objs [OF assms(4)]])
  fix s'
  assume a: "same_lists s s' \<and> stat s' rid = WAITING \<and>
    request_id (objs s' rid) = request_id (objs s rid) \<and> (\<forall>i. i \<noteq> rid \<longrightarrow> objs s' i = objs s i) \<and>
    num_waiting_for_streaming_input s' =
      num_waiting_for_streaming_input s - (if stat s rid = WAITING_FOR_STREAMING_REQ then 1 else 0)"
  let ?K = "mset (queue_list (skipped_waiting s))"
  have p: "placed (set (requests s)) (stat s) (mset (running s)) (mset (queue_list (waiting s))) ?K
      (num_waiting_for_streaming_input s)" using assms(1) by (simp add: sched_inv_def sched_at_def)
  have "count (mset (running s) + mset (queue_list (waiting s)) + ?K) rid = 1"
    using p assms(2,3) by (simp add: placed_def status_finished_iff)
  moreover have "count (mset (running s)) rid = 0" "count (mset (queue_list (waiting s))) rid = 0"
    using p assms(3) by (auto simp: placed_def count_mset_0_iff)
  ultimately have "count ?K rid \<noteq> 0" by simp
  then have "rid \<in># ?K" by (simp only: count_eq_zero_iff not_not)
  from placed_restatus [OF p this, of "stat s'"]
  have "placed (set (requests s)) (stat s') (mset (running s)) (mset (queue_list (waiting s))) ?K
      (num_waiting_for_streaming_input s')" using a assms(3) by (simp add: status_finished_iff)
  moreover have "request_id (objs s' i) = request_id (objs s i)" for i using a by (cases "i = rid") auto
  ultimately show "sched_inv c s'" using a assms(1) by (simp add: sched_inv_def sched_at_def same_lists_def)
qed

lemma add_request_inv:
  assumes "sched_inv c s" "hasher_ok c" "status r \<in> {WAITING, WAITING_FOR_STRUCTURED_OUTPUT_GRAMMAR}"
  shows "rpost (sched_add_request x c now r s) (sched_inv c)"
proof (cases "request_id r \<in> set (requests s)")
  case True
  show ?thesis
  proof (cases "stat s (request_id r) = WAITING_FOR_STREAMING_REQ")
    case st: True
    show ?thesis
      using as_session_inv [OF assms(1) True st assms(2)] True st
      by (auto simp: sched_add_request_def Let_def split: option.split intro!: rpost_conseq [OF finish_requests_inv [OF assms(1)]])
  next
    case False
    then show ?thesis
      using True by (auto simp: sched_add_request_def Let_def split: option.split intro!: sched_inv_status_update [OF assms(1)])
  qed
next
  case False
  define r1 where "r1 = (if resumable r then r\<lparr>streaming_queue := Some []\<rparr> else r)"
  have r: "status r1 = status r" "request_id r1 = request_id r" by (simp_all add: r1_def)
  define s0 where "s0 = s\<lparr>objs := (objs s)(request_id r := r1), requests := requests s @ [request_id r]\<rparr>"
  have m: "sched_mid c {} {} {} s" by (rule sched_mid_start [OF assms(1)])
  have "placed (set (requests s)) (stat s0) (mset (running s)) (mset (queue_list (waiting s)))
      (mset (queue_list (skipped_waiting s))) (num_waiting_for_streaming_input s)"
    by (rule placed_cong [where st = "stat s"]) (use m False in \<open>auto simp: sched_mid_def s0_def\<close>)
  then have "sched_mid c {request_id r} {} {} s0"
    using m False r by (auto simp: sched_mid_def s0_def)
  then have "sched_mid c {} {} {} (enqueue_waiting_request (request_id r) s0)"
    by (rule enqueue_plain_mid) (use assms(3) r in \<open>simp_all add: s0_def\<close>)
  then have i: "sched_inv c (enqueue_waiting_request (request_id r) s0)"
    by (simp add: sched_mid_def sched_inv_def sched_at_def)
  have "(enqueue_waiting_request (request_id r) (s\<lparr>objs := (objs s)(request_id r := r1)\<rparr>))
      \<lparr>requests := requests s @ [request_id r]\<rparr> = enqueue_waiting_request (request_id r) s0"
    by (simp add: enqueue_waiting_request_def s0_def)
  moreover have "requests (enqueue_waiting_request (request_id r) (s\<lparr>objs := (objs s)(request_id r := r1)\<rparr>)) = requests s"
    by (simp add: enqueue_waiting_request_def)
  ultimately show ?thesis
    using False i sched_inv_status_update [OF i, of "record_event EV_QUEUED now"]
    unfolding sched_add_request_def Let_def r1_def [symmetric]
    by (simp add: record_event_def)
qed

section \<open>The output of a step\<close>

text \<open>What the tokens of a request change: no list, and no other request.\<close>

definition token_post :: "string \<Rightarrow> 'e Scheduler \<Rightarrow> bool \<Rightarrow> 'e Scheduler \<Rightarrow> bool" where
  "token_post rid s stopped s' \<longleftrightarrow> same_lists s s' \<and>
     num_waiting_for_streaming_input s' = num_waiting_for_streaming_input s \<and> (\<forall>i. i \<noteq> rid \<longrightarrow> objs s' i = objs s i) \<and>
     request_id (objs s' rid) = request_id (objs s rid) \<and> (resumable (objs s' rid) \<longrightarrow> resumable (objs s rid)) \<and>
     (if stopped then is_finished (objs s' rid) else stat s' rid = stat s rid \<and> resumable (objs s' rid) = resumable (objs s rid))"

lemma token_post_on: "token_post rid s False s' \<Longrightarrow> same_status s s'"
  unfolding token_post_def same_status_def by (metis (full_types))

lemma update_with_output_post:
  assumes "hasher_ok c"
  shows "rpost (update_request_with_output c rid toks s) (\<lambda>((ts, stopped), s'). token_post rid s stopped s')"
proof -
  have b: "rpost (base_update_request_with_output c rid toks s) (\<lambda>((ts, stopped), s'). token_post rid s stopped s')"
    unfolding base_update_request_with_output_def rpost_rbind
    by (rule rpost_conseq [OF append_tokens_kept [OF assms]])
      (auto simp: token_post_def stop_post_def kept_def same_lists_def)
  have m: "rpost (kvm_cache_blocks (hashing c) k r n) (\<lambda>(r', k'). kept r r' \<and> status r' = status r)" for k r n
    by (rule rpost_conseq [OF kvm_cache_blocks_memo]) (use kept_memo in auto)
  have t: "token_post rid s st (s1\<lparr>kv_cache_manager := k, objs := (objs s1)(rid := r)\<rparr>)"
    if "token_post rid s st s1" "kept (objs s1 rid) r" "status r = stat s1 rid" for st s1 k r
    using that by (auto simp: token_post_def kept_def same_lists_def is_finished_def)
  have u: "token_post rid s st (upd_req rid (\<lambda>r. r\<lparr>num_output_placeholders := f r\<rparr>) s1)"
    if "token_post rid s st s1" for st s1 f
    using that by (auto simp: token_post_def same_lists_def is_finished_def)
  have d: "token_post rid s False (upd_req rid (\<lambda>r. r\<lparr>discard_latest_async_tokens := False\<rparr>) s)"
    by (simp add: token_post_def same_lists_def)
  show ?thesis
    unfolding update_request_with_output_def Let_def
    by (auto simp del: upd_req_fields intro: b d u intro!: rpost_conseq [OF b] rpost_conseq [OF m] t)
qed

lemma apply_tokens_post:
  assumes "hasher_ok c"
  shows "rpost (apply_tokens x c rid generated pooler s) (\<lambda>((ts, stopped), s'). token_post rid s stopped s')"
proof -
  have e: "token_post rid s st (s1\<lparr>ext := e\<rparr>)" if "token_post rid s st s1" for st s1 e
    using that by (simp add: token_post_def same_lists_def)
  have f: "token_post rid s True (upd_req rid (\<lambda>r. r\<lparr>status := FINISHED_ERROR, resumable := False\<rparr>) (s1\<lparr>ext := e\<rparr>))"
    if "token_post rid s st s1" for st s1 e
    using that by (simp add: token_post_def same_lists_def is_finished_def status_finished_iff)
  have "rpost (if generated \<noteq> [] then update_request_with_output c rid generated s
      else if pooling_params (objs s rid) \<noteq> None \<and> pooler \<noteq> None
      then Inr (([], True), upd_req rid (\<lambda>r. r\<lparr>status := FINISHED_STOPPED\<rparr>) s)
      else Inr (([], False), s)) (\<lambda>((ts, stopped), s'). token_post rid s stopped s')"
    by (auto intro: update_with_output_post [OF assms])
      (auto simp: token_post_def same_lists_def is_finished_def status_finished_iff)
  then show ?thesis
    unfolding apply_tokens_def Let_def rpost_rbind
    by (rule rpost_conseq) (auto intro: e f split: prod.split)
qed

lemma account_drafts_same:
  "account_drafts out rid generated s u = (s', u') \<Longrightarrow> same_status s s' \<and>
     stopped_running_reqs u' = stopped_running_reqs u \<and> stopped_preempted_reqs u' = stopped_preempted_reqs u"
  by (auto simp: account_drafts_def Let_def intro!: same_status_upd split: if_splits)

lemma free_encoder_same: "rpost (free_encoder_inputs c rid s) (same_status s)"
  unfolding free_encoder_inputs_def by (rule rpost_rfold) (auto simp: Let_def)

lemma emit_output_same:
  "rpost (emit_output rid mo toks stopped reason params pooler s u) (\<lambda>(s', u'). same_status s s' \<and>
     stopped_running_reqs u' = stopped_running_reqs u \<and> stopped_preempted_reqs u' = stopped_preempted_reqs u)"
  by (auto simp: emit_output_def Let_def take_request_events_def take_prefill_stats_def
      same_status_def same_lists_def split: option.split)

lemma free_request_mid:
  fixes s :: "'e Scheduler"
  assumes "sched_mid c {rid} SR SP s"
  shows "rpost (free_request x c d rid s) (\<lambda>(p, s'). sched_mid c {} SR SP s' \<and> others rid s s')"
proof (rule rpost_conseq [OF free_request_frame], clarify)
  fix p and s' :: "'e Scheduler"
  assume a: "objs s' = objs s" "running s' = running s" "waiting s' = waiting s" "skipped_waiting s' = skipped_waiting s"
     "num_waiting_for_streaming_input s' = num_waiting_for_streaming_input s" "is_finished (objs s rid)"
     "requests s' = requests s \<or> requests s' = remove1 rid (requests s)"
  let ?p = "\<lambda>Q. placed Q (stat s) {#i \<in># mset (running s). i \<notin> SR#} {#i \<in># mset (queue_list (waiting s)). i \<notin> SP#}
       (mset (queue_list (skipped_waiting s))) (num_waiting_for_streaming_input s)"
  have p: "?p (set (requests s) - {rid})" and d: "distinct (requests s)" "rid \<in> set (requests s)"
    using assms by (auto simp: sched_mid_def)
  have "?p (set (requests s'))"
  proof (cases "requests s' = requests s")
    case True
    have "?p (insert rid (set (requests s) - {rid}))"
      by (rule placed_put_finished [OF p]) (use a(6) in \<open>simp_all add: is_finished_def\<close>)
    then show ?thesis using True d(2) by (simp add: insert_absorb)
  next
    case False
    then show ?thesis using a(7) d(1) p by simp
  qed
  moreover have "set (requests s') \<subseteq> set (requests s)" "distinct (requests s')"
    using a(7) d(1) set_remove1_subset by fastforce+
  ultimately show "sched_mid c {} SR SP s' \<and> others rid s s'"
    using assms a(1-5) by (auto simp: sched_mid_def others_def)
qed

text \<open>Where a scheduled request may be when its output arrives.\<close>

definition at_place :: "'e Scheduler \<Rightarrow> string \<Rightarrow> bool" where
  "at_place s i \<longleftrightarrow> i \<in> set (running s) \<or> i \<in> set (queue_list (waiting s)) \<and> \<not> resumable (objs s i)"

abbreviation (input) step_mid :: "sched_config \<Rightarrow> 'e Scheduler \<Rightarrow> update_step \<Rightarrow> bool" where
  "step_mid c s u \<equiv> sched_mid c {} (set (stopped_running_reqs u)) (set (stopped_preempted_reqs u)) s"

abbreviation stopped_reqs :: "update_step \<Rightarrow> string set" where
  "stopped_reqs u \<equiv> set (stopped_running_reqs u) \<union> set (stopped_preempted_reqs u)"

lemma stop_request_mid:
  fixes s s0 :: "'e Scheduler"
  assumes "step_mid c s0 u" "token_post rid s0 True s" "rid \<notin> stopped_reqs u" "at_place s0 rid" "hasher_ok c"
  shows "rpost (stop_request x c now rid (stat s0 rid) s u) (\<lambda>(r, s', u'). step_mid c s' u' \<and> others rid s0 s' \<and>
    stopped_reqs u' \<subseteq> insert rid (stopped_reqs u))"
proof -
  let ?SR = "set (stopped_running_reqs u)" and ?SP = "set (stopped_preempted_reqs u)"
  have o: "others rid s0 s" and fin: "is_finished (objs s rid)"
    using assms(2) by (auto simp: token_post_def others_def same_lists_def)
  have mv: "sched_mid c {rid} SR SP s" if "sched_mid c {rid} SR SP s0" for SR SP
  proof (rule sched_mid_restatus [OF that])
    fix i show "request_id (objs s i) = request_id (objs s0 i)" using assms(2) by (cases "i = rid") (auto simp: token_post_def)
  qed (use assms(2) in \<open>auto simp: token_post_def\<close>)
  have go: "rpost (handle_stopped_request c now rid s) (\<lambda>(fin, s1). rpost (if fin then free_request x c False rid s1 else Inr (None, s1))
      (\<lambda>(params, s2). sched_mid c {} SR SP s2 \<and> others rid s0 s2))"
    if "sched_mid c {rid} SR SP s" "resumable (objs s rid) \<longrightarrow> rid \<notin> SP" for SR SP
  proof (rule rpost_conseq [OF handle_stopped_mid [OF that(1) fin that(2) assms(5)]])
    fix z assume a: "case z of (fin, s') \<Rightarrow> others rid s s' \<and> (if fin then sched_mid c {rid} SR SP s' else sched_mid c {} SR SP s')"
    obtain fin s1 where z: "z = (fin, s1)" by (cases z)
    have ot: "others rid s0 s1" using others_trans [OF o] a z by simp
    have "rpost (free_request x c False rid s1) (\<lambda>(params, s2). sched_mid c {} SR SP s2 \<and> others rid s0 s2)" if fin
      by (rule rpost_conseq [OF free_request_mid]) (use that a z others_trans [OF ot] in auto)
    then show "case z of (fin, s1) \<Rightarrow> rpost (if fin then free_request x c False rid s1 else Inr (None, s1))
      (\<lambda>(params, s2). sched_mid c {} SR SP s2 \<and> others rid s0 s2)" using a z ot by simp
  qed
  have pl: "placed (set (requests s0)) (stat s0) {#i \<in># mset (running s0). i \<notin> ?SR#}
      {#i \<in># mset (queue_list (waiting s0)). i \<notin> ?SP#} (mset (queue_list (skipped_waiting s0)))
      (num_waiting_for_streaming_input s0)" using assms(1) by (simp add: sched_mid_def)
  show ?thesis
  proof (cases "stat s0 rid = RUNNING")
    case True
    then have "rid \<in> set (running s0)" using assms(3,4) pl by (fastforce simp: at_place_def placed_def)
    then have "sched_mid c {rid} (insert rid ?SR) ?SP s" using mv sched_mid_take(1) [OF assms(1), of rid] assms(3) by simp
    from go [OF this] show ?thesis
      using assms(3) True by (auto simp: stop_request_def Let_def elim!: rpost_conseq)
  next
    case False
    then have "rid \<in> set (queue_list (waiting s0)) - ?SP" "\<not> resumable (objs s0 rid)"
      using assms(3,4) pl by (fastforce simp: at_place_def placed_def)+
    then have "sched_mid c {rid} ?SR (insert rid ?SP) s" "\<not> resumable (objs s rid)"
      using mv sched_mid_take(2) [OF assms(1), of rid] assms(2) by (auto simp: token_post_def)
    from go [OF this(1)] this(2) show ?thesis
      using False by (auto simp: stop_request_def Let_def elim!: rpost_conseq)
  qed
qed

lemma update_one_mid:
  fixes s :: "'e Scheduler"
  assumes "step_mid c s u" "rid \<notin> stopped_reqs u" "unfinished s rid \<longrightarrow> at_place s rid" "hasher_ok c"
  shows "rpost (update_one x c now out mo failed (rid, n) (s, u)) (\<lambda>(s', u'). step_mid c s' u' \<and> others rid s s' \<and>
    stopped_reqs u' \<subseteq> insert rid (stopped_reqs u))"
proof -
  let ?P = "\<lambda>(s', u'). step_mid c s' u' \<and> others rid s s' \<and> stopped_reqs u' \<subseteq> insert rid (stopped_reqs u)"
  have e: "rpost (emit_output rid mo toks st reason params pooler s4 u4) ?P"
    if "step_mid c s4 u4" "others rid s s4" "stopped_reqs u4 \<subseteq> insert rid (stopped_reqs u)" for toks st reason params pooler s4 u4
    by (rule rpost_conseq [OF emit_output_same])
      (use that sched_mid_same others_trans others_same in \<open>fastforce split: prod.splits\<close>)
  have f: "rpost (rbind (if st then stop_request x c now rid (stat s2 rid) s3 u1 else Inr ((None, None), s3, u1))
      (\<lambda>((reason, params), s4, u4). emit_output rid mo toks st reason params pooler s4 u4)) ?P"
    if a: "same_status s s2" "stopped_running_reqs u1 = stopped_running_reqs u" "stopped_preempted_reqs u1 = stopped_preempted_reqs u"
      "token_post rid s2 st s3" "unfinished s rid" for s2 u1 st s3 toks pooler
  proof (cases st)
    case False
    then have "token_post rid s2 False s3" using a(4) by simp
    then have ss: "same_status s s3" using same_status_trans [OF a(1)] token_post_on by blast
    have "rpost (emit_output rid mo toks False None None pooler s3 u1) ?P"
      by (rule e) (use sched_mid_same [OF assms(1) ss] others_same [OF ss] a(2,3) in auto)
    then show ?thesis using False by simp
  next
    case True
    have pl: "at_place s2 rid" using assms(3) a(1,5) by (auto simp: at_place_def same_status_def same_lists_def)
    have "rpost (stop_request x c now rid (stat s2 rid) s3 u1) (\<lambda>(r, s', u'). step_mid c s' u' \<and> others rid s2 s' \<and>
      stopped_reqs u' \<subseteq> insert rid (stopped_reqs u1))"
      by (rule stop_request_mid) (use a True pl assms sched_mid_same in auto)
    then show ?thesis
      unfolding if_P [OF True] rpost_rbind
    proof (rule rpost_conseq, goal_cases)
      case (1 z)
      obtain reason params s4 u4 where z: "z = ((reason, params), s4, u4)" by (cases z) auto
      show ?case
        unfolding z prod.case by (rule e) (use 1 a(2,3) others_trans [OF others_same [OF a(1)]] in \<open>auto simp: z\<close>)
    qed
  qed
  have g: "rpost (rbind (apply_tokens x c rid generated pooler s2) (\<lambda>((toks, st), s3).
      rbind (if st then stop_request x c now rid (stat s2 rid) s3 u1 else Inr ((None, None), s3, u1))
      (\<lambda>((reason, params), s4, u4). emit_output rid mo toks st reason params pooler s4 u4))) ?P"
    if a: "same_status s s2" "stopped_running_reqs u1 = stopped_running_reqs u"
      "stopped_preempted_reqs u1 = stopped_preempted_reqs u" "unfinished s rid" for generated pooler s2 u1
    unfolding rpost_rbind [of "apply_tokens x c rid generated pooler s2"]
  proof (rule rpost_conseq [OF apply_tokens_post [OF assms(4)]], goal_cases)
    case (1 z)
    obtain toks st s3 where z: "z = ((toks, st), s3)" by (cases z) auto
    show ?case unfolding z prod.case by (rule f [OF a(1-3) _ a(4)]) (use 1 in \<open>simp add: z\<close>)
  qed
  have h: "rpost (if has_encoder_inputs (objs s1 rid) then free_encoder_inputs c rid s1 else Inr s1) (same_status s)"
    if "same_status s s1" for s1
    using that by (auto intro!: rpost_conseq [OF free_encoder_same] dest: same_status_trans)
  show ?thesis
  proof (cases "rid \<in> set failed \<or> \<not> unfinished s rid")
    case True
    then show ?thesis using assms(1) by (auto simp: update_one_def)
  next
    case False
    then have uf: "unfinished s rid" by simp
    show ?thesis
      unfolding update_one_def prod.case Let_def
      apply (simp only: rpost_simps False if_False rpost_case_option rpost_rbind [of "if sampled_token_ids mo \<noteq> [] then _ else _"]
          split: option.split, intro impI conjI allI)
       apply simp
      apply (rule rpostI)
      subgoal for i generated
      proof (cases "account_drafts out rid generated s u")
        case (Pair s1 u1)
        note ac = account_drafts_same [OF Pair]
        show ?thesis
          unfolding Pair prod.case rpost_rbind [of "if _ then free_encoder_inputs c rid s1 else _"]
            rpost_rbind [of "if pooler_output mo \<noteq> [] then _ else _"]
          by (rule rpost_conseq [OF h [OF conjunct1 [OF ac]]], rule rpostI, rule g) (use ac uf in simp_all)
      qed
      done
  qed
qed

lemma update_loop_mid:
  assumes "step_mid c s u" "distinct (map fst xs)" "hasher_ok c"
    and "\<forall>i \<in> fst ` set xs. i \<notin> stopped_reqs u \<and> (unfinished s i \<longrightarrow> at_place s i)"
  shows "rpost (rfold (update_one x c now out mo failed) xs (s, u)) (\<lambda>(s', u'). step_mid c s' u')"
  using assms
proof (induction xs arbitrary: s u)
  case (Cons y ys)
  obtain rid n where y: "y = (rid, n)" by (cases y)
  have "rpost (update_one x c now out mo failed (rid, n) (s, u)) (\<lambda>(s', u'). step_mid c s' u' \<and> others rid s s' \<and>
      stopped_reqs u' \<subseteq> insert rid (stopped_reqs u))"
    by (rule update_one_mid) (use Cons.prems y in auto)
  moreover have "rpost (rfold (update_one x c now out mo failed) ys (s1, u1)) (\<lambda>(s', u'). step_mid c s' u')"
    if a: "step_mid c s1 u1" "others rid s s1" "stopped_reqs u1 \<subseteq> insert rid (stopped_reqs u)" for s1 u1
  proof (rule Cons.IH [OF a(1) _ assms(3)])
    show "distinct (map fst ys)" using Cons.prems(2) by simp
    show "\<forall>i \<in> fst ` set ys. i \<notin> stopped_reqs u1 \<and> (unfinished s1 i \<longrightarrow> at_place s1 i)"
    proof
      fix i assume i: "i \<in> fst ` set ys"
      then have ne: "i \<noteq> rid" using Cons.prems(2) y by auto
      have "unfinished s i" if "unfinished s1 i" using that a(2) ne by (auto simp: unfinished_iff others_def)
      moreover have "at_place s1 i" if "at_place s i" using that a(2) ne by (auto simp: at_place_def others_def)
      ultimately show "i \<notin> stopped_reqs u1 \<and> (unfinished s1 i \<longrightarrow> at_place s1 i)"
        using Cons.prems(4) i ne a(3) by auto
    qed
  qed
  ultimately show ?case unfolding y rfold.simps rpost_rbind by (auto elim!: rpost_conseq)
qed simp

lemma sched_inv_same: "sched_inv c s \<Longrightarrow> same_status s s' \<Longrightarrow> sched_inv c s'"
  unfolding sched_inv_def by (rule sched_at_same)

lemma invalid_blocks_same:
  "rpost (update_requests_with_invalid_blocks c rids invalid toks evict s) (\<lambda>(res, s'). same_status s s')"
proof -
  have "rpost (rfold (invalid_one c invalid toks evict) rids (s, t)) (\<lambda>(s', t'). same_status s s')" for t
    by (rule rpost_rfold)
      (auto simp: invalid_one_def Let_def intro!: same_status_upd split: option.split list.split)
  then show ?thesis unfolding update_requests_with_invalid_blocks_def rpost_rbind by (rule rpost_conseq) auto
qed

lemma handle_invalid_same: "rpost (handle_invalid_blocks c invalid toks s) (\<lambda>(failed, s'). same_status s s')"
  unfolding handle_invalid_blocks_def
  by (auto intro!: rpostI simp: rbind_eq_Inr dest!: rpostD [OF invalid_blocks_same] split: if_splits)
    (blast intro: same_status_trans)+

lemma kv_xfer_inv:
  fixes s :: "'e Scheduler"
  assumes "sched_inv c s"
  shows "rpost (update_from_kv_xfer_finished x ko s) (sched_inv c)"
proof -
  have f: "rpost (sched_free_blocks rid s1) (sched_inv c)" if "sched_inv c s1" for rid and s1 :: "'e Scheduler"
    using that by (auto simp: sched_free_blocks_def is_finished_def sched_inv_def sched_at_def
        intro!: rpostI placed_drop_finished notin_set_remove1)
  have i: "sched_inv c (if has_connector x then s\<lparr>ext := update_connector_output x (ext s)\<rparr> else s)"
    using assms by (simp add: sched_inv_def)
  have r: "sched_inv c (s1\<lparr>finished_recving_kv_req_ids := F\<rparr>)" if "sched_inv c s1" for F and s1 :: "'e Scheduler"
    using that by (simp add: sched_inv_def)
  have a: "rpost (rfold (\<lambda>rid s. py_assert (rid \<in> set (requests s))
      (if stat s rid = WAITING_FOR_REMOTE_KVS
       then Inr (s\<lparr>finished_recving_kv_req_ids := insert rid (finished_recving_kv_req_ids s)\<rparr>)
       else py_assert (status_is_finished (stat s rid)) (sched_free_blocks rid s))) ids s1) (sched_inv c)"
    if "sched_inv c s1" for ids and s1 :: "'e Scheduler"
    by (rule rpost_rfold [where I = "sched_inv c", OF that]) (auto intro: f r)
  have b: "rpost (rfold (\<lambda>rid s. py_assert (rid \<in> set (requests s)) (sched_free_blocks rid s)) ids s1) (sched_inv c)"
    if "sched_inv c s1" for ids and s1 :: "'e Scheduler"
    by (rule rpost_rfold [where I = "sched_inv c", OF that]) (auto intro: f)
  show ?thesis
    unfolding update_from_kv_xfer_finished_def Let_def rpost_rbind by (rule rpost_conseq [OF a [OF i] b])
qed

lemma fold_same:
  assumes "\<And>i s u. same_status s (fst (f i (s, u)))"
  shows "same_status s (fst (fold f is (s, u)))"
proof (induction "is" arbitrary: s u)
  case (Cons i "is")
  obtain s1 u1 where 1: "f i (s, u) = (s1, u1)" by (cases "f i (s, u)")
  then have "same_status s s1" using assms [of s i u] by simp
  then show ?case using same_status_trans Cons.IH [of s1 u1] 1 by auto
qed simp

lemma fail_requests_inv:
  fixes s :: "'e Scheduler"
  assumes "sched_inv c s"
  shows "rpost (fail_requests x c failed (s, u)) (\<lambda>(s', u'). sched_inv c s')"
proof -
  let ?f = "\<lambda>rid (s' :: 'e Scheduler, u' :: update_step). let (evs, r) = take_request_events (objs s' rid) in
      (s'\<lparr>objs := (objs s')(rid := r)\<rparr>, u'\<lparr>step_outputs := add_output (client_index r)
         \<lparr>eo_request_id = request_id r, eo_new_token_ids = [],
          eo_finish_reason = get_finished_reason (status r), eo_pooling_output = None,
          eo_stop_reason = None, eo_events = evs, eo_prefill_stats = None,
          eo_kv_transfer_params = None, eo_num_nans_in_logits = 0\<rparr> (step_outputs u')\<rparr>)"
  have o: "same_status s1 (fst (?f rid (s1, u1)))" for rid s1 u1
    by (auto simp: take_request_events_def intro!: same_status_req)
  have "same_status s1 (fst (fold ?f ids (s1, u1)))" for ids s1 u1 by (rule fold_same [OF o])
  then have i: "sched_inv c (fst (fold ?f ids (s1, u)))" if "sched_inv c s1" for ids s1
    using sched_inv_same [OF that] by blast
  have "rpost (rbind (finish_requests x c (Some failed) FINISHED_ERROR s) (\<lambda>(_, s1). Inr (fold ?f failed (s1, u))))
      (\<lambda>(s', u'). sched_inv c s')"
    unfolding rpost_rbind
  proof (rule rpost_conseq [OF finish_requests_inv [OF assms]], goal_cases)
    case (1 z)
    then show ?case using i [of "snd z"] by (cases z) (simp add: case_prod_beta)
  qed
  then show ?thesis
    unfolding fail_requests_def prod.case rpost_if rpost_simps using assms by simp
qed

lemma drop_stopped:
  assumes "step_mid c s u"
  shows "sched_inv c (s\<lparr>running := filter (\<lambda>i. i \<notin> set (stopped_running_reqs u)) (running s),
    waiting := remove_requests lt (stopped_preempted_reqs u) (waiting s)\<rparr>)"
proof -
  have "len (filter (\<lambda>i. i \<notin> set (stopped_running_reqs u)) (running s)) \<le> len (running s)" by simp
  also have "\<dots> \<le> max_num_running_reqs c" using assms by (simp add: sched_mid_def)
  finally show ?thesis
    using assms by (simp add: sched_inv_def sched_at_def sched_mid_def remove_requests_mset)
qed

lemma observe_same: "same_status s (observe_drafts u s)"
  by (simp add: observe_drafts_def Let_def split: option.split)

lemma publish_same: "same_status s (publish_events x s)"
  by (simp add: publish_events_def Let_def split: prod.split)

lemma make_stats_same: "rpost (make_stats c s) (\<lambda>(st, s'). same_status s s')"
  by (simp add: make_stats_def split: prod.split)

text \<open>The output of a step fits the state that it is applied to.\<close>

definition output_fits :: "SchedulerOutput \<Rightarrow> 'e Scheduler \<Rightarrow> bool" where
  "output_fits out s \<longleftrightarrow> distinct (map fst (num_scheduled_tokens out)) \<and>
     (\<forall>i \<in> fst ` set (num_scheduled_tokens out). unfinished s i \<longrightarrow> at_place s i)"

lemma finish_update_inv:
  fixes s :: "'e Scheduler"
  assumes "sched_inv c s"
  shows "rpost (rbind (fail_requests x c failed (s, u)) (\<lambda>(s6, u6).
      rbind (case ko of Some o1 \<Rightarrow> update_from_kv_xfer_finished x o1 s6 | None \<Rightarrow> Inr s6) (\<lambda>s7.
      rbind (make_stats c ((publish_events x s7)\<lparr>finished_req_ids_dict := fd (publish_events x s7)\<rparr>)) (\<lambda>(st, s10).
      Inr (outs st u6 s7, s10))))) (\<lambda>(res, s'). sched_inv c s')"
proof -
  have k: "rpost (case ko of Some o1 \<Rightarrow> update_from_kv_xfer_finished x o1 s6 | None \<Rightarrow> Inr s6) (sched_inv c)"
    if "sched_inv c s6" for s6 :: "'e Scheduler" using kv_xfer_inv [OF that] that by (simp split: option.split)
  have m: "rpost (make_stats c ((publish_events x s7)\<lparr>finished_req_ids_dict := fd (publish_events x s7)\<rparr>)) (\<lambda>(st, s10). sched_inv c s10)"
    if "sched_inv c s7" for s7 :: "'e Scheduler"
  proof (rule rpost_conseq [OF make_stats_same], clarify)
    fix st and s' :: "'e Scheduler"
    assume a: "same_status ((publish_events x s7)\<lparr>finished_req_ids_dict := fd (publish_events x s7)\<rparr>) s'"
    have "same_status s7 ((publish_events x s7)\<lparr>finished_req_ids_dict := fd (publish_events x s7)\<rparr>)"
      by (simp add: publish_same)
    then show "sched_inv c s'" using sched_inv_same [OF that] same_status_trans a by blast
  qed
  show ?thesis
    unfolding rpost_rbind
  proof (rule rpost_conseq [OF fail_requests_inv [OF assms]], goal_cases)
    case (1 z)
    obtain s6 u6 where z: "z = (s6, u6)" by (cases z)
    then have i: "sched_inv c s6" using 1 by simp
    show ?case
      unfolding z prod.case rpost_rbind
      by (rule rpost_conseq [OF k [OF i]], rule rpost_conseq [OF m]) auto
  qed
qed

lemma update_from_output_inv:
  fixes s :: "'e Scheduler"
  assumes "sched_inv c s" "hasher_ok c" "output_fits out s"
  shows "rpost (update_from_output x c now out mo s) (\<lambda>(outs, s'). sched_inv c s')"
proof -
  let ?u = "\<lparr>step_outputs = [], stopped_running_reqs = [], stopped_preempted_reqs = [],
                    step_draft_tokens = 0, step_accepted_tokens = 0\<rparr>"
  have a: "rpost (case kv_connector_output mo of
      Some ko \<Rightarrow> (if invalid_block_ids ko \<noteq> []
        then handle_invalid_blocks c (invalid_block_ids ko) (num_scheduled_tokens out) s else Inr ([], s))
    | None \<Rightarrow> Inr ([], s)) (\<lambda>(failed, s1). same_status s s1)"
    by (simp add: handle_invalid_same split: option.split)
  have l: "rpost (rfold (update_one x c now out mo failed) (num_scheduled_tokens out) (s1, ?u)) (\<lambda>(s2, u). step_mid c s2 u)"
    if "same_status s s1" for failed s1
  proof (rule update_loop_mid)
    show "step_mid c s1 ?u" using sched_mid_same [OF sched_mid_start [OF assms(1)] that] by simp
    have "unfinished s1 i = unfinished s i" "at_place s1 i = at_place s i" for i
      using that by (simp_all add: unfinished_iff at_place_def same_status_def same_lists_def)
    then show "\<forall>i \<in> fst ` set (num_scheduled_tokens out). i \<notin> stopped_reqs ?u \<and> (unfinished s1 i \<longrightarrow> at_place s1 i)"
      using assms(3) by (simp add: output_fits_def)
  qed (use assms in \<open>simp_all add: output_fits_def\<close>)
  have d: "sched_inv c s5" if "step_mid c s2 u" "s3 = observe_drafts u s2"
    "s4 = (if stopped_running_reqs u \<noteq> [] then s3\<lparr>running := remove_all (running s3) (stopped_running_reqs u)\<rparr> else s3)"
    "s5 = (if stopped_preempted_reqs u \<noteq> []
       then s4\<lparr>waiting := remove_requests (req_lt s4) (stopped_preempted_reqs u) (waiting s4)\<rparr> else s4)"
    for u and s2 s3 s4 s5 :: "'e Scheduler"
  proof -
    have m: "step_mid c s3 u" using that(1,2) sched_mid_same observe_same by blast
    then have "distinct (running s3)" by (simp add: sched_mid_def)
    then have 4: "s4 = s3\<lparr>running := filter (\<lambda>i. i \<notin> set (stopped_running_reqs u)) (running s3)\<rparr>"
      using that(3) by (simp add: remove_all_filter)
    have i: "sched_inv c (s4\<lparr>waiting := remove_requests (req_lt s4) (stopped_preempted_reqs u) (waiting s4)\<rparr>)"
      using drop_stopped [OF m] by (simp add: 4)
    then have "sched_inv c s4" if "stopped_preempted_reqs u = []"
      using that by (simp add: sched_inv_def sched_at_def remove_requests_mset)
    then show ?thesis using that(4) i by simp
  qed
  show ?thesis
    unfolding update_from_output_def rpost_rbind [of "case kv_connector_output mo of None \<Rightarrow> Inr ([], s) | Some ko \<Rightarrow> _ ko"]
  proof (rule rpost_conseq [OF a], goal_cases)
    case (1 z)
    obtain failed s1 where z: "z = (failed, s1)" by (cases z)
    have ss: "same_status s s1" using 1 z by simp
    show ?case
      unfolding z prod.case rpost_rbind [of "rfold _ _ _"]
    proof (rule rpost_conseq [OF l [OF ss]], goal_cases)
      case (1 w)
      obtain s2 u where w: "w = (s2, u)" by (cases w)
      show ?case
        unfolding w prod.case Let_def
        by (rule finish_update_inv [OF d [OF _ refl refl refl]]) (use 1 w in simp)
    qed
  qed
qed

text \<open>The output of a scheduling step fits the state the step leaves: all it names is running.\<close>

lemma schedule_output_fits:
  assumes "sched_ready c s" "schedule x c now s = Inr (out, s')"
  shows "output_fits out s'"
proof -
  obtain s1 t where r: "schedule_requests x c now s = Inr (s1, t)" and o: "build_output x c (active_num_spec_tokens s) s1 t = Inr (out, s')"
    using assms(2) by (auto simp: schedule_def rbind_eq_Inr py_assert_Inr)
  have "same_lists s1 s'" "num_scheduled_tokens out = step_tokens t"
    using rpostD [OF build_output_status o] by (auto simp: same_status_def)
  then show ?thesis
    using rpostD [OF schedule_requests_inv [OF assms(1)] r] by (auto simp: output_fits_def at_place_def book_def same_lists_def)
qed

section \<open>Drafts, resets and construction\<close>

lemma update_draft_same: "same_status s (update_draft_token_ids x drafts s)"
proof -
  have "same_status s (fold (\<lambda>(rid, toks) s.
       if \<not> unfinished s rid then s
       else if is_prefill_chunk (objs s rid)
       then (if spec_token_ids (objs s rid) \<noteq> [] then set_spec rid [] s else s)
       else
         let t1 = (if should_advance x (objs s rid) (ext s) then validate_tokens x rid toks (ext s) else toks);
             t2 = (if spec_token_controller s \<noteq> None then py_upto t1 (active_num_spec_tokens s) else t1)
         in set_spec rid t2 s) drafts s1)" if "same_status s s1" for s1
    using that by (induction drafts arbitrary: s1) (auto simp: Let_def same_status_set_spec)
  then show ?thesis unfolding update_draft_token_ids_def by simp
qed

lemma preempt_all_inv:
  fixes s :: "'e Scheduler"
  assumes "sched_inv c s" "rids = rev (running s)"
  shows "rpost (preempt_all c now rids s) (sched_inv c)"
  using assms
proof (induction rids arbitrary: s)
  case (Cons rid rids)
  have r: "running s = rev rids @ [rid]" using Cons.prems(2) by (metis rev.simps(2) rev_rev_ident)
  let ?s = "s\<lparr>running := butlast (running s)\<rparr>"
  let ?f = "\<lambda>r. r\<lparr>num_output_placeholders := 0, discard_latest_async_tokens := True\<rparr>"
  have i: "rpost (preempt_request c now rid ?s) (sched_inv c)"
    unfolding sched_inv_def by (rule preempt_request_inv) (use Cons.prems(1) r in \<open>simp_all add: sched_inv_def\<close>)
  have l: "rpost (preempt_request c now rid ?s) (\<lambda>s1. running s1 = rev rids)"
    by (rule rpost_conseq [OF preempt_request_running]) (use r in auto)
  have "rpost (preempt_all c now rids (upd_req rid ?f s1)) (sched_inv c)"
    if "sched_inv c s1" "running s1 = rev rids" for s1 :: "'e Scheduler"
    by (rule Cons.IH) (use that sched_inv_status_update [OF that(1), of ?f] in simp_all)
  then show ?case unfolding preempt_all.simps rpost_rbind by (intro rpost_conseq [OF rpost_conj [OF i l]]) auto
qed simp

lemma reset_connector_same: "rpost (reset_connector_cache x c s) (\<lambda>(ok, s'). same_status s s')"
  by (simp add: reset_connector_cache_def Let_def split: prod.split option.split)

lemma reset_prefix_cache_inv:
  fixes s :: "'e Scheduler"
  assumes "sched_inv c s"
  shows "rpost (sched_reset_prefix_cache x c now rr wc s) (\<lambda>(ok, s'). sched_inv c s')"
proof -
  have p: "rpost (if rr then rbind (preempt_all c now (rev (running s)) s) (\<lambda>s1. Inr (s1\<lparr>prev_step_scheduled_req_ids := {}\<rparr>))
      else Inr s) (sched_inv c)"
    using assms by (auto intro!: rpost_conseq [OF preempt_all_inv [OF assms refl]] simp: sched_inv_def)
  have k: "sched_inv c (s1\<lparr>kv_cache_manager := k\<rparr>)" if "sched_inv c s1" for k and s1 :: "'e Scheduler"
    using that by (simp add: sched_inv_def)
  show ?thesis
    unfolding sched_reset_prefix_cache_def rpost_rbind [of "if rr then _ else _"]
    by (rule rpost_conseq [OF p])
      (auto simp: Let_def intro!: rpostI dest: k sched_inv_same [OF k] simp: rbind_eq_Inr py_raise_if_def
        dest!: rpostD [OF reset_connector_same] split: if_splits)
qed

lemma make_sched_config_fields:
  "max_num_running_reqs (make_sched_config a config pol) = max_num_seqs a"
  "hasher (make_sched_config a config pol) = arg_hasher a"
  by (simp_all add: make_sched_config_def Let_def)

lemma init_fields:
  assumes "Scheduler_init a config e = Inr (c, s)"
  shows "requests s = []" "running s = []" "queue_list (waiting s) = []" "queue_list (skipped_waiting s) = []"
    "num_waiting_for_streaming_input s = 0" "max_num_running_reqs c = max_num_seqs a" "hasher c = arg_hasher a"
proof -
  have "queue_list (create_request_queue pol) = []" for pol by (cases pol) simp_all
  then show "requests s = []" "running s = []" "queue_list (waiting s) = []" "queue_list (skipped_waiting s) = []"
    "num_waiting_for_streaming_input s = 0" "max_num_running_reqs c = max_num_seqs a" "hasher c = arg_hasher a"
    using assms by (auto simp: Scheduler_init_def Let_def rbind_eq_Inr py_assert_Inr make_sched_config_fields)
qed

lemma init_inv: "Scheduler_init a config e = Inr (c, s) \<Longrightarrow> 0 \<le> max_num_seqs a \<Longrightarrow> sched_inv c s"
  using init_fields [of a config e c s] by (simp add: sched_inv_def sched_at_def placed_def)

section \<open>Reachable schedulers\<close>

text \<open>All calls the engine makes, in any order.  New requests arrive with the status their constructor
  gives them; the block hasher is the one of \<^verbatim>\<open>kv_cache_utils.py\<close> or none; the output of a step is
  applied to a state it fits.\<close>

inductive sched_reach :: "'e externals \<Rightarrow> sched_config \<Rightarrow> 'e Scheduler \<Rightarrow> bool" for x c where
  reach_init: "Scheduler_init a config e = Inr (c, s) \<Longrightarrow> 0 \<le> max_num_seqs a \<Longrightarrow>
    arg_hasher a = None \<or> (\<exists>cfg bs. arg_hasher a = Some (request_block_hasher cfg bs)) \<Longrightarrow> sched_reach x c s"
| reach_add: "sched_reach x c s \<Longrightarrow> status r \<in> {WAITING, WAITING_FOR_STRUCTURED_OUTPUT_GRAMMAR} \<Longrightarrow>
    sched_add_request x c now r s = Inr s' \<Longrightarrow> sched_reach x c s'"
| reach_finish: "sched_reach x c s \<Longrightarrow> finish_requests x c ids fs s = Inr (res, s') \<Longrightarrow> sched_reach x c s'"
| reach_schedule: "sched_reach x c s \<Longrightarrow> schedule x c now s = Inr (out, s') \<Longrightarrow> sched_reach x c s'"
| reach_update: "sched_reach x c s \<Longrightarrow> output_fits out s \<Longrightarrow>
    update_from_output x c now out mo s = Inr (outs, s') \<Longrightarrow> sched_reach x c s'"
| reach_drafts: "sched_reach x c s \<Longrightarrow> sched_reach x c (update_draft_token_ids x drafts s)"
| reach_reset: "sched_reach x c s \<Longrightarrow> sched_reset_prefix_cache x c now rr rconn s = Inr (ok, s') \<Longrightarrow> sched_reach x c s'"
| reach_encoder: "sched_reach x c s \<Longrightarrow> sched_reach x c (reset_encoder_cache s)"
| reach_pause: "sched_reach x c s \<Longrightarrow> sched_reach x c (set_pause_state p s)"

lemma sched_reach_hasher: "sched_reach x c s \<Longrightarrow> hasher_ok c"
proof (induction rule: sched_reach.induct)
  case (reach_init a config e s)
  then show ?case using init_fields(7) [OF reach_init(1)] request_block_hasher_memo by (auto simp: hasher_ok_def)
qed auto

lemma quiet_handlers: "same_status s (reset_encoder_cache s)" "same_status s (set_pause_state p s)"
  by (simp_all add: reset_encoder_cache_def set_pause_state_def)

lemma sched_reach_inv: "sched_reach x c s \<Longrightarrow> sched_inv c s"
proof (induction rule: sched_reach.induct)
  case (reach_add s r now s')
  then show ?case using rpostD [OF add_request_inv [OF _ sched_reach_hasher]] by blast
next
  case (reach_update s out now mo outs s')
  then show ?case using rpostD [OF update_from_output_inv [OF _ sched_reach_hasher]] by auto
qed (auto dest: rpostD [OF finish_requests_inv] rpostD [OF schedule_at] rpostD [OF reset_prefix_cache_inv]
    intro: init_inv sched_inv_same [OF _ update_draft_same] sched_inv_same [OF _ quiet_handlers(1)]
    sched_inv_same [OF _ quiet_handlers(2)])

lemma inv_listed:
  assumes "sched_inv c s"
  shows "mset (listed s) = mset (filter (\<lambda>i. \<not> is_finished (objs s i)) (requests s))"
proof (rule multiset_eqI)
  fix i
  have d: "distinct (requests s)" and p: "placed (set (requests s)) (stat s) (mset (running s)) (mset (queue_list (waiting s)))
      (mset (queue_list (skipped_waiting s))) (num_waiting_for_streaming_input s)"
    using assms by (simp_all add: sched_inv_def sched_at_def)
  have "count (mset (listed s)) i = (if i \<in> set (requests s) \<and> \<not> status_is_finished (stat s i) then 1 else 0)"
    using p unfolding placed_def listed_def mset_append by (metis add.assoc)
  moreover have "count (mset (filter (\<lambda>i. \<not> is_finished (objs s i)) (requests s))) i =
      (if i \<in> set (requests s) \<and> \<not> status_is_finished (stat s i) then 1 else 0)"
    using d by (auto simp: mset_filter is_finished_def distinct_count_atmost_1 count_mset_0_iff)
  ultimately show "count (mset (listed s)) i = count (mset (filter (\<lambda>i. \<not> is_finished (objs s i)) (requests s))) i" by simp
qed

lemma inv_unfinished:
  assumes "sched_inv c s"
  shows "len (listed s) - num_waiting_for_streaming_input s =
    len (filter (\<lambda>i. \<not> is_finished (objs s i) \<and> stat s i \<noteq> WAITING_FOR_STREAMING_REQ) (requests s))"
proof -
  let ?S = "\<lambda>i. stat s i = WAITING_FOR_STREAMING_REQ"
  have p: "placed (set (requests s)) (stat s) (mset (running s)) (mset (queue_list (waiting s)))
      (mset (queue_list (skipped_waiting s))) (num_waiting_for_streaming_input s)"
    using assms by (simp add: sched_inv_def sched_at_def)
  have "filter ?S (running s) = []" "filter ?S (queue_list (waiting s)) = []"
    using p by (auto simp: placed_def filter_empty_conv)
  then have "{#i \<in># mset (listed s). ?S i#} = {#i \<in># mset (queue_list (skipped_waiting s)). ?S i#}"
    by (simp add: listed_def flip: mset_filter)
  then have n: "num_waiting_for_streaming_input s = int (size {#i \<in># mset (listed s). ?S i#})"
    using p by (simp add: placed_def)
  have "size (mset (listed s)) = size {#i \<in># mset (listed s). ?S i#} + size {#i \<in># mset (listed s). \<not> ?S i#}"
    by (metis multiset_partition size_union)
  moreover have "{#i \<in># mset (listed s). \<not> ?S i#} =
      mset (filter (\<lambda>i. \<not> is_finished (objs s i) \<and> stat s i \<noteq> WAITING_FOR_STREAMING_REQ) (requests s))"
    unfolding inv_listed [OF assms] mset_filter by (simp add: filter_filter_mset conj_commute)
  ultimately have "length (listed s) = size {#i \<in># mset (listed s). ?S i#} +
      length (filter (\<lambda>i. \<not> is_finished (objs s i) \<and> stat s i \<noteq> WAITING_FOR_STREAMING_REQ) (requests s))"
    by (simp only: size_mset)
  then show ?thesis by (simp add: n)
qed

text \<open>The run of the small scheduler: two requests arrive, a step is scheduled, a third request arrives.\<close>

lemma demo_state2_reach:
  assumes "demo_state2 = Inr (c, s)"
  shows "sched_reach no_externals c s"
proof -
  have t: "status (text_request i ts) \<in> {WAITING, WAITING_FOR_STRUCTURED_OUTPUT_GRAMMAR}" for i ts
    by (simp add: text_request_def)
  obtain s0 s1 s2 out s3 where i: "Scheduler_init demo_args small_config () = Inr (c, s0)"
    and a: "sched_add_request no_externals c 0 (text_request ''a'' [1, 2, 3]) s0 = Inr s1"
      "sched_add_request no_externals c 0 (text_request ''b'' [1, 2]) s1 = Inr s2"
    and r: "schedule no_externals c 0 s2 = Inr (out, s3)"
      "sched_add_request no_externals c 0 (text_request ''d'' [7]) s3 = Inr s"
    using assms by (auto simp: demo_state2_def demo_state_def rbind_eq_Inr)
  have d: "0 \<le> max_num_seqs demo_args" "arg_hasher demo_args = None" by (simp_all add: demo_args_def)
  have "sched_reach no_externals c s0" by (rule reach_init [OF i d(1) disjI1 [OF d(2)]])
  from reach_add [OF reach_add [OF this t a(1)] t a(2)] show ?thesis
    by (rule reach_add [OF reach_schedule [OF _ r(1)] t r(2)])
qed

lemma demo_state2_value:
  "\<exists>c s. demo_state2 = Inr (c, s) \<and> pause_state s = UNPAUSED \<and> requests s = [''a'', ''b'', ''d''] \<and>
     status (objs s ''a'') = RUNNING \<and> status (objs s ''b'') = RUNNING \<and> status (objs s ''d'') = WAITING"
proof -
  have "rbind demo_state2 (\<lambda>(c, s). Inr (pause_state s, requests s, status (objs s ''a''), status (objs s ''b''), status (objs s ''d''))) =
      Inr (UNPAUSED, [''a'', ''b'', ''d''], RUNNING, RUNNING, WAITING)" by code_simp
  then show ?thesis by (auto simp: rbind_eq_Inr)
qed



text \<open>C4: in a reachable scheduler that is not paused, \<open>get_num_unfinished_requests\<close> is the number of
  requests that are neither finished nor idle sessions waiting for input, although the code
  computes it from the lengths of its queues and a counter; so the engine stops stepping exactly when
  no request can make progress without new input.\<close>

theorem unfinished_requests_counted:
  assumes "sched_reach x c s" "pause_state s = UNPAUSED"
  shows "get_num_unfinished_requests s = len (filter (\<lambda>i. \<not> is_finished (objs s i) \<and>
    status (objs s i) \<noteq> WAITING_FOR_STREAMING_REQ) (requests s))"
  using inv_unfinished [OF sched_reach_inv [OF assms(1)]] assms(2)
  by (simp add: get_num_unfinished_requests_def queue_len_def listed_def)

theorem unfinished_requests_counted_witness:
  "\<exists>c s. demo_state2 = Inr (c, s) \<and> get_num_unfinished_requests s = 3"
proof -
  obtain c s where d: "demo_state2 = Inr (c, s)" "requests s = [''a'', ''b'', ''d'']" "pause_state s = UNPAUSED"
    "status (objs s ''a'') = RUNNING" "status (objs s ''b'') = RUNNING" "status (objs s ''d'') = WAITING"
    using demo_state2_value by blast
  then show ?thesis
    using unfinished_requests_counted [OF demo_state2_reach [OF d(1)] d(3)] by (auto simp: is_finished_def status_finished_iff)
qed

end
