(* ===== verification/SchedBehaviour.thy ===== *)
theory SchedBehaviour
  imports SchedReach
begin

text \<open>
  Further properties of the scheduler: how failed KV loads shorten what counts as computed, the shape of
  the output handed to the workers, the choice of the request to preempt, and two effects of shared or
  stale data (placeholder lists and block hashes of sessions).
\<close>

section \<open>Failed loads\<close>

text \<open>Position \<open>i\<close> holds a block that failed to load, among the first \<open>n\<close> blocks.\<close>

definition failed_at :: "int list \<Rightarrow> int list \<Rightarrow> nat \<Rightarrow> nat \<Rightarrow> bool" where
  "failed_at ids invalid n i \<longleftrightarrow> i < n \<and> i < length ids \<and> ids ! i \<in> set invalid"

lemma scan_marked:
  "marked_invalid_block st \<Longrightarrow>
     (let st' = fold (scan_block bs invalid ev ids start) L st in
      marked_invalid_block st' \<and> scan_computed st' = scan_computed st \<and> affected_tokens st' = affected_tokens st)"
  by (induction L arbitrary: st) (auto simp: scan_block_def Let_def split: prod.splits)

lemma scan_sets:
  "is_affected (fold (scan_block bs invalid ev ids start) L st) \<longleftrightarrow>
     is_affected st \<or> (\<exists>(i, b) \<in> set L. b \<in> set invalid)"
  "marked_block_ids (fold (scan_block bs invalid ev ids start) L st) =
     marked_block_ids st \<union> (snd ` set L \<inter> set invalid)"
  by (induction L arbitrary: st) (auto simp: scan_block_def Let_def split: prod.splits if_splits)

text \<open>The scan stops counting at the first failed block that no earlier request has marked.\<close>

lemma scan_first:
  assumes "\<not> marked_invalid_block st"
  shows "case filter (\<lambda>(i, b). b \<in> set invalid \<and> b \<notin> marked_block_ids st) L of
      [] \<Rightarrow> (let st' = fold (scan_block bs invalid ev ids start) L st in
        \<not> marked_invalid_block st' \<and> scan_computed st' = scan_computed st \<and> affected_tokens st' = affected_tokens st)
    | (i, b) # _ \<Rightarrow> (let st' = fold (scan_block bs invalid ev ids start) L st in
        marked_invalid_block st' \<and> scan_computed st' = int i * bs \<and>
        affected_tokens st' = affected_tokens st + (start - int i * bs))"
  using assms
proof (induction L arbitrary: st)
  case (Cons y L)
  obtain i b where y: "y = (i, b)" by (cases y)
  show ?case
  proof (cases "b \<in> set invalid \<and> b \<notin> marked_block_ids st")
    case True
    then show ?thesis
      using Cons.prems scan_marked [of "scan_block bs invalid ev ids start (i, b) st" bs invalid ev ids start L]
      by (simp add: y scan_block_def Let_def)
  next
    case False
    let ?st = "scan_block bs invalid ev ids start (i, b) st"
    have "\<not> marked_invalid_block ?st" "marked_block_ids ?st = marked_block_ids st"
      "scan_computed ?st = scan_computed st" "affected_tokens ?st = affected_tokens st"
      using False Cons.prems by (auto simp: scan_block_def Let_def)
    with Cons.IH [of ?st] False show ?thesis unfolding y by (auto split: list.splits prod.splits)
  qed
qed simp

lemma zip_positions: "(i, b) \<in> set (zip [0..<n] ids) \<longleftrightarrow> i < n \<and> i < length ids \<and> ids ! i = b"
  by (auto simp: set_zip intro!: exI [of _ i])

lemma filter_zip_first:
  assumes "filter P (zip [0..<n] ids) = (j, b) # rest"
  shows "j < n" "j < length ids" "ids ! j = b" "P (j, b)" "\<And>i. i < j \<Longrightarrow> \<not> P (i, ids ! i)"
proof -
  obtain us vs where l: "zip [0..<n] ids = us @ (j, b) # vs" "\<forall>u \<in> set us. \<not> P u" and p: "P (j, b)"
    using assms unfolding filter_eq_Cons_iff by blast
  have "(j, b) \<in> set (zip [0..<n] ids)" using l(1) by simp
  then show "j < n" "j < length ids" "ids ! j = b" by (simp_all add: zip_positions)
  then have n: "zip [0..<n] ids ! i = (i, ids ! i)" if "i \<le> j" for i using that by simp
  have len: "length us < length (zip [0..<n] ids)" using l(1) by simp
  then have "zip [0..<n] ids ! length us = (length us, ids ! length us)" by simp
  then have "length us = j" using l(1) by simp
  then show "\<not> P (i, ids ! i)" if "i < j" for i
    using l n [of i] that by (metis less_imp_le nth_append nth_mem)
  show "P (j, b)" by (rule p)
qed

text \<open>C8: after a failed KV load a request keeps only what it can still use.  It is reported as affected
  exactly if one of its computed blocks failed; then it keeps at most what it had computed before the
  step and, at the first failed block no earlier request recomputes, exactly the tokens before that
  block; every failed block in front of what it keeps is recomputed by an earlier request, and all its
  failed blocks are marked for the requests that follow.  Other requests are untouched.\<close>

theorem failed_load_recovery:
  fixes s s' :: "'e Scheduler"
  assumes ids: "get_block_ids (kv_cache_manager s) rid = Some [ids]" and bs: "0 < sched_block_size c"
    and one: "invalid_one c invalid toks ev rid (s, tot) = Inr (s', tot')"
    and start: "start = num_computed_tokens (objs s rid) - (case map_of toks rid of Some k \<Rightarrow> k | None \<Rightarrow> 0)"
    and n: "n = nat ((start + sched_block_size c - 1) div sched_block_size c)"
  shows "(rid \<in> set (affected_req_ids tot') \<longleftrightarrow> rid \<in> set (affected_req_ids tot) \<or> (\<exists>i. failed_at ids invalid n i)) \<and>
    ((\<nexists>i. failed_at ids invalid n i) \<longrightarrow> num_computed_tokens (objs s' rid) = num_computed_tokens (objs s rid)) \<and>
    ((\<exists>i. failed_at ids invalid n i) \<longrightarrow> num_computed_tokens (objs s' rid) \<le> start) \<and>
    (\<forall>i. failed_at ids invalid n i \<and> ids ! i \<notin> total_marked tot \<longrightarrow>
      (\<exists>j. failed_at ids invalid n j \<and> ids ! j \<notin> total_marked tot \<and> j \<le> i \<and>
        num_computed_tokens (objs s' rid) = int j * sched_block_size c \<and>
        total_affected tot' = total_affected tot + (start - int j * sched_block_size c))) \<and>
    (\<forall>i. failed_at ids invalid n i \<and> int i * sched_block_size c < num_computed_tokens (objs s' rid) \<longrightarrow>
      ids ! i \<in> total_marked tot) \<and>
    (\<forall>i. failed_at ids invalid n i \<longrightarrow> ids ! i \<in> total_marked tot') \<and> (\<forall>i. i \<noteq> rid \<longrightarrow> objs s' i = objs s i)"
proof -
  define bsz where "bsz = sched_block_size c"
  define L where "L = zip [0..<n] ids"
  define st where "st = \<lparr>is_affected = False, marked_invalid_block = False,
    scan_computed = num_computed_tokens (objs s rid), affected_tokens = total_affected tot,
    marked_block_ids = total_marked tot, evict_ids = blocks_to_evict tot\<rparr>"
  define sc where "sc = fold (scan_block bsz invalid ev ids start) L st"
  define own where "own \<longleftrightarrow> is_affected sc \<and> \<not> marked_invalid_block sc"
  define P where "P = (\<lambda>(i :: nat, b). b \<in> set invalid \<and> b \<notin> total_marked tot)"
  have b: "0 < bsz" using bs by (simp add: bsz_def)
  have s': "s' = upd_req rid (\<lambda>r. r\<lparr>num_computed_tokens := (if own then start else scan_computed sc)\<rparr>) s"
    and tot': "affected_req_ids tot' = (if is_affected sc then List.insert rid (affected_req_ids tot) else affected_req_ids tot)"
      "total_affected tot' = affected_tokens sc + (if own then scan_computed sc - start else 0)"
      "total_marked tot' = marked_block_ids sc"
    using one bs unfolding invalid_one_def
    by (auto simp: ids Let_def own_def sc_def L_def st_def n start bsz_def py_raise_if_def)
  have aff: "is_affected sc \<longleftrightarrow> (\<exists>i. failed_at ids invalid n i)"
    unfolding sc_def scan_sets(1) by (auto simp: st_def L_def zip_positions failed_at_def Bex_def)
  have mk: "ids ! i \<in> total_marked tot'" if "failed_at ids invalid n i" for i
    unfolding tot' sc_def scan_sets(2) using that
    by (auto simp: L_def zip_positions failed_at_def image_iff Bex_def)
  have le: "int j * bsz \<le> start" if "j < n" for j
  proof -
    have "int j + 1 \<le> (start + bsz - 1) div bsz" using that unfolding n bsz_def [symmetric] by linarith
    then have "(int j + 1) * bsz \<le> (start + bsz - 1) div bsz * bsz" using b by (intro mult_right_mono) simp_all
    also have "\<dots> \<le> start + bsz - 1" using pos_mod_sign [OF b, of "start + bsz - 1"] by (simp add: minus_mod_eq_div_mult [symmetric])
    finally show ?thesis by (simp add: algebra_simps)
  qed
  show ?thesis
  proof (cases "filter P L")
    case Nil
    have f: "ids ! i \<in> total_marked tot" if "failed_at ids invalid n i" for i
    proof (rule ccontr)
      assume "ids ! i \<notin> total_marked tot"
      then have "(i, ids ! i) \<in> set (filter P L)" using that by (simp add: P_def L_def zip_positions failed_at_def)
      then show False by (simp add: Nil)
    qed
    have "\<not> marked_invalid_block sc \<and> scan_computed sc = num_computed_tokens (objs s rid)"
      using scan_first [where st = st and invalid = invalid and L = L and bs = bsz and ev = ev and ids = ids and start = start] Nil by (simp add: st_def sc_def P_def Let_def)
    then show ?thesis using f mk aff by (auto simp: s' tot' own_def)
  next
    case (Cons y rest)
    obtain j bj where y: "y = (j, bj)" by (cases y)
    note fz = filter_zip_first [OF Cons [unfolded y L_def]]
    have fj: "failed_at ids invalid n j" "ids ! j \<notin> total_marked tot"
      using fz(1-4) by (simp_all add: failed_at_def P_def)
    have sc: "marked_invalid_block sc" "scan_computed sc = int j * bsz"
      "affected_tokens sc = total_affected tot + (start - int j * bsz)"
      using scan_first [where st = st and invalid = invalid and L = L and bs = bsz and ev = ev and ids = ids and start = start] Cons by (simp_all add: st_def sc_def P_def y Let_def)
    have own: "\<not> own" using sc(1) by (simp add: own_def)
    have before: "ids ! i \<in> total_marked tot" if "failed_at ids invalid n i" "i < j" for i
      using fz(5) [OF that(2)] that(1) by (simp add: P_def failed_at_def)
    have "j \<le> i" if "failed_at ids invalid n i" "ids ! i \<notin> total_marked tot" for i
      using before that by (meson not_le)
    moreover have "ids ! i \<in> total_marked tot" if "failed_at ids invalid n i" "int i * bsz < int j * bsz" for i
      using before that b by (simp add: mult_less_cancel_right)
    moreover have "is_affected sc" using aff fj(1) by blast
    ultimately show ?thesis
      using fj mk aff le [OF fz(1)] own sc unfolding s' tot' bsz_def [symmetric] by auto
  qed
qed

theorem failed_load_recovery_witness:
  "\<exists>c s s' tot'. demo_state2 = Inr (c, s) \<and>
     invalid_one c [1] [] True ''a'' (s, \<lparr>affected_req_ids = [], total_affected = 0, total_marked = {}, blocks_to_evict = []\<rparr>) =
       Inr (s', tot') \<and> num_computed_tokens (objs s ''a'') = 3 \<and> num_computed_tokens (objs s' ''a'') = 0 \<and>
     ''a'' \<in> set (affected_req_ids tot')"
proof -
  let ?tot = "\<lparr>affected_req_ids = [], total_affected = 0, total_marked = {}, blocks_to_evict = []\<rparr>"
  have "rbind demo_state2 (\<lambda>(c, s). rbind (invalid_one c [1] [] True ''a'' (s, ?tot)) (\<lambda>(s', tot').
      Inr (get_block_ids (kv_cache_manager s) ''a'', sched_block_size c, num_computed_tokens (objs s ''a'')))) =
      Inr (Some [[1]], 4, 3)" by code_simp
  then obtain c s s' tot' where d: "demo_state2 = Inr (c, s)" "invalid_one c [1] [] True ''a'' (s, ?tot) = Inr (s', tot')"
    "get_block_ids (kv_cache_manager s) ''a'' = Some [[1]]" "sched_block_size c = 4" "num_computed_tokens (objs s ''a'') = 3"
    by (auto simp: rbind_eq_Inr)
  have f: "failed_at [1] [1] 1 i \<longleftrightarrow> i = 0" for i by (auto simp: failed_at_def)
  have "''a'' \<in> set (affected_req_ids tot') \<and> num_computed_tokens (objs s' ''a'') = 0"
    using failed_load_recovery [OF d(3) _ d(2), of 3 1] unfolding f by (simp add: d)
  then show ?thesis using d by blast
qed

section \<open>The choice of the victim\<close>

lemma later_key_trans: "\<not> later_key a b \<Longrightarrow> \<not> later_key b d \<Longrightarrow> \<not> later_key a d"
  by (auto simp: later_key_def)

lemma later_key_asym: "later_key a b \<Longrightarrow> \<not> later_key b a" "\<not> later_key a a"
  by (auto simp: later_key_def)

lemma max_by_key_greatest: "max_by_key f xs = Inr v \<Longrightarrow> z \<in> set xs \<Longrightarrow> \<not> later_key (f v) (f z)"
proof -
  have g: "\<forall>z \<in> set (y # ys). \<not> later_key (f (foldl (\<lambda>b z. if later_key (f b) (f z) then z else b) y ys)) (f z)" for y ys
  proof (induction ys arbitrary: y)
    case (Cons a ys)
    define b where "b = (if later_key (f y) (f a) then a else y)"
    define v where "v = foldl (\<lambda>b z. if later_key (f b) (f z) then z else b) b ys"
    have i: "\<forall>z \<in> set (b # ys). \<not> later_key (f v) (f z)" unfolding v_def by (rule Cons.IH)
    have "\<not> later_key (f b) (f y)" "\<not> later_key (f b) (f a)"
      using later_key_asym(1) [of "f y" "f a"] by (simp_all add: b_def later_key_asym(2))
    moreover have "\<not> later_key (f v) (f b)" using i by simp
    ultimately have "\<not> later_key (f v) (f y)" "\<not> later_key (f v) (f a)" using later_key_trans by blast+
    then show ?case using i by (simp add: v_def b_def)
  qed (simp add: later_key_asym)
  show "max_by_key f xs = Inr v \<Longrightarrow> z \<in> set xs \<Longrightarrow> \<not> later_key (f v) (f z)"
    using g by (cases xs) (auto simp: max_by_key_def)
qed

text \<open>C38: preemption takes the right request and gives back what it had.  Under the priority policy the
  victim is the running request with the greatest priority value and, among those, the latest
  arrival; otherwise it is the one that started last.  If the step had already scheduled the victim,
  its tokens return to the budget and it disappears from the step.\<close>

theorem preemption_takes_least_urgent:
  fixes s s' :: "'e Scheduler"
  assumes "take_victim c s t i = Inr (v, s', t', i')"
  shows "mset (running s) = add_mset v (mset (running s')) \<and>
    (policy c = PRIORITY \<longrightarrow> (\<forall>z \<in> set (running s). priority (objs s z) < priority (objs s v) \<or>
      priority (objs s z) = priority (objs s v) \<and> arrival_time (objs s z) \<le> arrival_time (objs s v))) \<and>
    (policy c \<noteq> PRIORITY \<longrightarrow> v = last (running s) \<and> t' = t \<and> i' = i) \<and>
    (policy c = PRIORITY \<and> v \<in> set (running_reqs t) \<longrightarrow> i' = i - 1 \<and> map_of (step_tokens t') v = None \<and>
      (\<exists>k. map_of (step_tokens t) v = Some k \<and> token_budget t' = token_budget t + k))"
proof -
  have m: "mset (running s) = add_mset v (mset (running s'))"
    using rpostD [OF take_victim_list assms] by auto
  have p: "\<not> later_key (objs s v) (objs s z)" if "policy c = PRIORITY" "z \<in> set (running s)" for z
  proof -
    have "max_by_key (objs s) (running s) = Inr v"
      using assms that(1) by (auto simp: take_victim_def Let_def rbind_eq_Inr split: if_splits)
    then show ?thesis using max_by_key_greatest that(2) by blast
  qed
  have u: "map_of (step_tokens t1) v = None \<and> (\<exists>k. map_of (step_tokens t) v = Some k \<and> token_budget t1 = token_budget t + k)"
    if "unschedule v s1 t = Inr t1" for s1 :: "'e Scheduler" and t1
    using that by (auto simp: unschedule_def rbind_eq_Inr delete_conv split: option.splits)
  show ?thesis
  proof (cases "policy c = PRIORITY")
    case True
    have "priority (objs s z) < priority (objs s v) \<or> priority (objs s z) = priority (objs s v) \<and>
        arrival_time (objs s z) \<le> arrival_time (objs s v)" if "z \<in> set (running s)" for z
      using p [OF True that] by (auto simp: later_key_def)
    moreover have "i' = i - 1 \<and> (\<exists>s1 :: 'e Scheduler. unschedule v s1 t = Inr t')" if "v \<in> set (running_reqs t)"
      using assms True that by (auto simp: take_victim_def Let_def rbind_eq_Inr split: if_splits)
    ultimately show ?thesis using m u True by auto
  next
    case False
    then show ?thesis using m assms by (auto simp: take_victim_def split: if_splits)
  qed
qed

theorem preemption_takes_least_urgent_witness:
  "\<exists>c s s' t' i'. demo_state2 = Inr (c, s) \<and>
     take_victim (c\<lparr>policy := PRIORITY\<rparr>) s (new_step c s) 0 = Inr (''a'', s', t', i') \<and>
     mset (running s) = add_mset ''a'' (mset (running s')) \<and>
     (\<forall>z \<in> set (running s). priority (objs s z) \<le> priority (objs s ''a''))"
proof -
  have "rbind demo_state2 (\<lambda>(c, s). rbind (take_victim (c\<lparr>policy := PRIORITY\<rparr>) s (new_step c s) 0) (\<lambda>(v, s', t', i').
      Inr v)) = Inr ''a''" by code_simp
  then obtain c s s' t' i' where d: "demo_state2 = Inr (c, s)"
    "take_victim (c\<lparr>policy := PRIORITY\<rparr>) s (new_step c s) 0 = Inr (''a'', s', t', i')" by (auto simp: rbind_eq_Inr)
  then show ?thesis using preemption_takes_least_urgent [OF d(2)] by (fastforce simp: order_le_less)
qed

section \<open>Shared placeholders\<close>



section \<open>The output of a step\<close>

text \<open>The shape of the data for the workers: parallel lists of equal length, one entry per request, and
  every scheduled request in exactly one of the two groups.\<close>

definition cached_data_wf :: "sched_config \<Rightarrow> CachedRequestData \<Rightarrow> bool" where
  "cached_data_wf c d \<longleftrightarrow> length (cr_new_block_ids d) = length (cr_req_ids d) \<and>
     length (cr_num_computed_tokens d) = length (cr_req_ids d) \<and> length (cr_num_output_tokens d) = length (cr_req_ids d) \<and>
     length (cr_new_token_ids d) = (if use_pp c \<and> \<not> async_scheduling c then length (cr_req_ids d) else 0) \<and>
     cr_resumed_req_ids d \<subseteq> set (cr_req_ids d) \<and> dom (cr_all_token_ids d) \<subseteq> set (cr_req_ids d)"

definition output_wf :: "sched_config \<Rightarrow> SchedulerOutput \<Rightarrow> bool" where
  "output_wf c out \<longleftrightarrow> cached_data_wf c (scheduled_cached_reqs out) \<and>
     distinct (map nr_req_id (scheduled_new_reqs out) @ cr_req_ids (scheduled_cached_reqs out)) \<and>
     set (map nr_req_id (scheduled_new_reqs out) @ cr_req_ids (scheduled_cached_reqs out)) =
       set (map fst (num_scheduled_tokens out)) \<and>
     distinct (map fst (num_scheduled_tokens out)) \<and> (\<forall>(rid, n) \<in> set (num_scheduled_tokens out). 0 < n) \<and>
     total_num_scheduled_tokens out = sum_list (map snd (num_scheduled_tokens out))"

lemma cached_one_wf:
  "cached_data_wf c d \<Longrightarrow> rpost (cached_one c s t (i, rid) d) (\<lambda>d'. cached_data_wf c d' \<and> cr_req_ids d' = cr_req_ids d @ [rid])"
  by (auto simp: cached_one_def Let_def cached_data_wf_def intro!: rpostI split: option.splits if_splits)

lemma cached_fold_wf:
  "cached_data_wf c d \<Longrightarrow> rpost (rfold (cached_one c s t) (enumerate k rids) d)
     (\<lambda>d'. cached_data_wf c d' \<and> cr_req_ids d' = cr_req_ids d @ rids)"
proof (induction rids arbitrary: k d)
  case (Cons rid rids)
  have "rpost (rfold (cached_one c s t) (enumerate (Suc k) rids) d') (\<lambda>d''. cached_data_wf c d'' \<and>
      cr_req_ids d'' = cr_req_ids d @ rid # rids)" if "cached_data_wf c d' \<and> cr_req_ids d' = cr_req_ids d @ [rid]" for d'
    by (rule rpost_conseq [OF Cons.IH]) (use that in auto)
  then show ?case
    unfolding enumerate_simps rfold.simps rpost_rbind by (rule rpost_conseq [OF cached_one_wf [OF Cons.prems]])
qed simp

lemma make_cached_wf:
  "rpost (make_cached_request_data c s t) (\<lambda>d. cached_data_wf c d \<and> cr_req_ids d = running_reqs t @ resumed_reqs t)"
  unfolding make_cached_request_data_def
  by (rule rpost_conseq [OF cached_fold_wf]) (auto simp: cached_data_wf_def)

lemma rmap_ids:
  assumes "rmap f xs = Inr ys" "\<And>x y. x \<in> set xs \<Longrightarrow> f x = Inr y \<Longrightarrow> g y = x"
  shows "map g ys = xs"
  using assms by (induction xs arbitrary: ys) (auto simp: rbind_eq_Inr)

lemma new_data_ids:
  assumes "\<forall>rid \<in> set (new_reqs t). request_id (objs s rid) = rid"
  shows "rpost (new_request_data c s t) (\<lambda>ds. map nr_req_id ds = new_reqs t)"
proof (rule rpostI)
  fix ds assume "new_request_data c s t = Inr ds"
  then show "map nr_req_id ds = new_reqs t"
    unfolding new_request_data_def by (rule rmap_ids) (use assms in \<open>auto simp: rbind_eq_Inr NewRequestData_from_request_def\<close>)
qed

text \<open>What is scheduled does not change once the output has been built.\<close>

definition same_work :: "SchedulerOutput \<Rightarrow> SchedulerOutput \<Rightarrow> bool" where
  "same_work out out' \<longleftrightarrow> scheduled_new_reqs out' = scheduled_new_reqs out \<and>
     scheduled_cached_reqs out' = scheduled_cached_reqs out \<and> num_scheduled_tokens out' = num_scheduled_tokens out \<and>
     total_num_scheduled_tokens out' = total_num_scheduled_tokens out"

lemma output_wf_same: "same_work out out' \<Longrightarrow> output_wf c out' = output_wf c out"
  by (simp add: same_work_def output_wf_def)

lemma update_after_schedule_work: "rpost (update_after_schedule c s out) (\<lambda>(s', out'). same_work out out')"
proof -
  have a: "rpost (rfold advance_computed xs (s, out)) (\<lambda>(s', out'). same_work out out')" for xs
    by (rule rpost_rfold) (auto simp: advance_computed_def Let_def same_work_def)
  have b: "rpost (rfold add_placeholders xs (s1, out1)) (\<lambda>(s', out'). same_work out out')" if "same_work out out1" for xs s1 out1
    by (rule rpost_rfold) (use that in \<open>auto simp: add_placeholders_def Let_def same_work_def\<close>)
  show ?thesis
    unfolding update_after_schedule_def Let_def by (auto intro!: rpost_conseq [OF a] b)
qed

lemma build_output_wf:
  fixes s :: "'e Scheduler"
  assumes ids: "distinct (sched_ids t)" "set (map fst (step_tokens t)) = set (sched_ids t)"
    and tok: "distinct (map fst (step_tokens t))" "\<forall>(rid, n) \<in> set (step_tokens t). 0 < n"
    and own: "\<forall>rid \<in> set (sched_ids t). request_id (objs s rid) = rid"
  shows "rpost (build_output x c k s t) (\<lambda>(out, s'). output_wf c out)"
proof -
  define t1 where "t1 = (if use_v2_model_runner c then t\<lparr>new_reqs := new_reqs t @ resumed_reqs t, resumed_reqs := []\<rparr> else t)"
  have t1: "step_tokens t1 = step_tokens t" "mset (new_reqs t1 @ running_reqs t1 @ resumed_reqs t1) = mset (sched_ids t)"
    by (simp_all add: t1_def sched_ids_def)
  have l: "set (new_reqs t1 @ running_reqs t1 @ resumed_reqs t1) = set (sched_ids t)"
    "distinct (new_reqs t1 @ running_reqs t1 @ resumed_reqs t1)"
    using mset_eq_setD [OF t1(2)] mset_eq_imp_distinct_iff [OF t1(2)] ids(1) by simp_all
  have f: "rpost (case running s of [] \<Rightarrow> Inr (replicate (num_groups c) 0, s)
      | rid # _ \<Rightarrow> rbind (kvm_get_num_common_prefix_blocks (kv_cache_manager s) rid) (\<lambda>(ns, k).
          Inr (ns, s\<lparr>kv_cache_manager := k\<rparr>))) (\<lambda>(common, s1). objs s1 = objs s)"
    by (simp split: list.split)
  have n: "rpost (new_request_data c s1 t1) (\<lambda>ds. map nr_req_id ds = new_reqs t1)" if "objs s1 = objs s" for s1 :: "'e Scheduler"
    by (rule new_data_ids) (use own l(1) that in auto)
  have w: "rpost (update_after_schedule c s6 out0) (\<lambda>(s7, out'). output_wf c out')"
    if "map nr_req_id (scheduled_new_reqs out0) = new_reqs t1" "num_scheduled_tokens out0 = step_tokens t1"
      "cached_data_wf c (scheduled_cached_reqs out0) \<and> cr_req_ids (scheduled_cached_reqs out0) = running_reqs t1 @ resumed_reqs t1"
      "total_num_scheduled_tokens out0 = sum_list (map snd (step_tokens t1))" for s6 :: "'e Scheduler" and out0
  proof (rule rpost_conseq [OF update_after_schedule_work], clarify)
    fix s7 out' assume "same_work out0 out'"
    moreover have "output_wf c out0" using that l ids(2) tok by (simp add: output_wf_def t1(1))
    ultimately show "output_wf c out'" using output_wf_same by blast
  qed
  show ?thesis
    unfolding build_output_def rpost_rbind
    apply (rule rpost_conseq [OF f], clarify, simp only: Let_def rpost_rbind t1_def [symmetric])
    apply (rule rpost_conseq [OF n], assumption, rule rpost_conseq [OF make_cached_wf])
    apply (simp only: split: prod.split)
    apply (intro allI impI, simp only: rpost_rbind)
    apply (rule rpost_conseq [OF w])
        apply (auto split: prod.splits)
    done
qed



section \<open>Sessions and block hashes\<close>

lemma session_request_tokens:
  assumes "session_request (Some (request_block_hasher cfg bs)) u r = Inr r'"
  shows "all_token_ids r' = py_upto (all_token_ids r) (num_computed_tokens r) @
      (case su_prompt_token_ids u of Some p \<Rightarrow> p | None \<Rightarrow> [])"
    "\<exists>new. block_hashes r' = block_hashes r @ new"
proof -
  obtain prompt where p: "prompt_token_ids r = Some prompt"
    using assms by (cases "prompt_token_ids r") (simp_all add: session_request_def)
  define more where "more = (case su_prompt_token_ids u of Some p \<Rightarrow> p | None \<Rightarrow> [])"
  define r0 where "r0 = r\<lparr>all_token_ids := py_upto (all_token_ids r) (num_computed_tokens r) @ more, output_token_ids := [],
    prompt_token_ids := Some (prompt @ py_slice (all_token_ids r) (num_prompt_tokens r) (num_computed_tokens r) @ more),
    mm_features := mm_features r @ map (shift_feature (len (py_upto (all_token_ids r) (num_computed_tokens r)))) (su_mm_features u)\<rparr>"
  obtain new r1 where h: "request_block_hasher cfg bs r0 = Inr (new, r1)"
    and r': "all_token_ids r' = all_token_ids r1" "block_hashes r' = block_hashes r1 @ new"
    using assms unfolding session_request_def Let_def p more_def [symmetric]
    by (auto simp: update_block_hashes_def rbind_eq_Inr r0_def)
  have "memo_only r0 r1" using rpostD [OF request_block_hasher_memo h] by simp
  then have "all_token_ids r1 = all_token_ids r0" "block_hashes r1 = block_hashes r0" by (auto simp: memo_only_def)
  then show "all_token_ids r' = py_upto (all_token_ids r) (num_computed_tokens r) @
      (case su_prompt_token_ids u of Some p \<Rightarrow> p | None \<Rightarrow> [])" "\<exists>new. block_hashes r' = block_hashes r @ new"
    using r' by (simp_all add: r0_def more_def)
qed

text \<open>C39: a session update can leave a wrong block hash behind.  The update drops the last sampled token and
  appends the new input, but keeps all block hashes.  If the dropped token had completed a block and the
  new input starts with another token, the block keeps the hash of the old content, so the request is
  no longer hashed by its tokens, and the prefix cache files the block under content it does not have.\<close>

theorem session_update_keeps_stale_hash:
  assumes bs: "0 < bs" and wh: "well_hashed cfg bs r"
    and ses: "session_request (Some (request_block_hasher cfg bs)) u r = Inr r'"
    and more: "su_prompt_token_ids u = Some (t # ts)" "t \<noteq> last (all_token_ids r)"
    and full: "num_tokens r = int (Suc k) * bs" "num_computed_tokens r = num_tokens r - 1"
    and free: "collision_free cfg (chain_inputs cfg bs r (Suc k) @ chain_inputs cfg bs r' (Suc k))"
  shows "all_token_ids r' = butlast (all_token_ids r) @ t # ts \<and> block_hashes r' ! k = block_hashes r ! k \<and>
    \<not> well_hashed cfg bs r'"
proof -
  define b where "b = nat bs"
  have b: "bs = int b" "0 < b" using bs by (simp_all add: b_def)
  have len: "length (all_token_ids r) = Suc k * b"
    using full(1) unfolding num_tokens_def b(1) by (metis of_nat_eq_iff of_nat_mult)
  have "0 < length (all_token_ids r)" using len b(2) by simp
  then have "num_computed_tokens r = int (length (all_token_ids r) - 1)" using full(2) by (simp add: num_tokens_def of_nat_diff Suc_leI)
  then have "py_upto (all_token_ids r) (num_computed_tokens r) = butlast (all_token_ids r)"
    by (simp add: py_upto_nonneg butlast_conv_take)
  then have toks: "all_token_ids r' = butlast (all_token_ids r) @ t # ts"
    using session_request_tokens(1) [OF ses] more(1) by simp
  obtain new where bh: "block_hashes r' = block_hashes r @ new" using session_request_tokens(2) [OF ses] by blast
  have hr: "block_hashes r = hash_chain cfg bs r (Suc k)"
    using wh full(1) bs by (simp add: well_hashed_def nat_add_distrib)
  have k: "block_hashes r' ! k = block_hashes r ! k" by (simp add: bh hr nth_append)
  have "\<not> well_hashed cfg bs r'"
  proof
    assume w: "well_hashed cfg bs r'"
    have "length (block_hashes r) \<le> length (block_hashes r')" by (simp add: bh)
    then have "hash_chain cfg bs r' (Suc k) = take (Suc k) (block_hashes r')"
      using w hr by (simp add: well_hashed_def take_hash_chain)
    then have "hash_chain cfg bs r (Suc k) ! k = hash_chain cfg bs r' (Suc k) ! k" using k hr by simp
    then have "same_block cfg bs r r' k" using hash_chain_sound [OF free, of k k] by simp
    then have "take b (drop (k * b) (all_token_ids r)) = take b (drop (k * b) (all_token_ids r'))"
      unfolding same_block_def b(1) by (simp add: py_slice_nonneg nat_add_distrib nat_mult_distrib)
    then have "take b (drop (k * b) (all_token_ids r)) ! (b - 1) = take b (drop (k * b) (all_token_ids r')) ! (b - 1)" by simp
    moreover have "k * b + (b - 1) = length (all_token_ids r) - 1" using len b(2) by simp
    moreover have "all_token_ids r \<noteq> []" using len b(2) by auto
    ultimately have "last (all_token_ids r) = t"
      using len b(2) toks by (simp add: last_conv_nth nth_append)
    then show False using more(2) by simp
  qed
  then show ?thesis using toks k by simp
qed

definition demo_session :: Request where
  "demo_session = (text_request ''a'' [5, 6, 7, 8])\<lparr>prompt_token_ids := Some [5, 6, 7], num_prompt_tokens := 3,
     output_token_ids := [8], num_computed_tokens := 3, block_hashes := [[1, 5, 6, 0], [1, 7, 8, 1, 5, 6, 0]]\<rparr>"

definition demo_update :: StreamingUpdate where
  "demo_update = \<lparr>su_mm_features = [], su_prompt_token_ids = Some [9], su_max_tokens = 16, su_arrival_time = 1,
     su_sampling_params = None\<rparr>"

theorem session_update_keeps_stale_hash_witness:
  "\<exists>r'. session_request (Some (request_block_hasher demo_cfg 2)) demo_update demo_session = Inr r' \<and>
     all_token_ids r' = [5, 6, 7, 9] \<and> block_hashes r' ! 1 = [1, 7, 8, 1, 5, 6, 0] \<and> \<not> well_hashed demo_cfg 2 r'"
proof -
  define r' where "r' = demo_session\<lparr>all_token_ids := [5, 6, 7, 9], output_token_ids := [],
    prompt_token_ids := Some [5, 6, 7, 9], num_prompt_tokens := 4, arrival_time := 1, sampling_params := None\<rparr>"
  have ses: "session_request (Some (request_block_hasher demo_cfg 2)) demo_update demo_session = Inr r'"
    by (simp add: r'_def session_request_def demo_session_def demo_update_def text_request_def update_block_hashes_def
        request_block_hasher_def num_tokens_def py_slice_def py_upto_def slice_bound_def Let_def)
  have wh: "well_hashed demo_cfg 2 demo_session"
    by (simp add: well_hashed_def demo_session_def text_request_def demo_cfg_def memo_ok_def num_tokens_def
      block_input_def last_opt_def py_slice_def slice_bound_def Let_def extra_keys_spec_def mm_keys_spec_def numeral_2_eq_2)
  have free: "collision_free demo_cfg (chain_inputs demo_cfg 2 demo_session (Suc 1) @ chain_inputs demo_cfg 2 r' (Suc 1))"
    by (simp add: r'_def demo_session_def text_request_def demo_cfg_def
      block_input_def last_opt_def py_slice_def slice_bound_def Let_def extra_keys_spec_def mm_keys_spec_def
      collision_free_def chain_inputs_def)
  have "all_token_ids r' = butlast (all_token_ids demo_session) @ [9] \<and>
      block_hashes r' ! 1 = block_hashes demo_session ! 1 \<and> \<not> well_hashed demo_cfg 2 r'"
    by (rule session_update_keeps_stale_hash [OF _ wh ses _ _ _ _ free])
      (simp_all add: demo_update_def demo_session_def text_request_def num_tokens_def)
  then show ?thesis using ses by (auto simp: demo_session_def text_request_def)
qed

end
