(* ===== verification/CacheHitSpec.thy ===== *)
theory CacheHitSpec
  imports CacheHit
begin

text \<open>
  What the searches of \<^verbatim>\<open>CacheHit\<close> find.  A result is a grid: one row per KV cache group, one
  column per block of the request.  The searches are characterised over the lookups they
  make: the longest prefix of hits for full attention, the greatest aligned length whose
  window is cached for a sliding window, the last aligned cached state for Mamba.
\<close>

section \<open>Grids of blocks\<close>

definition grid :: "nat \<Rightarrow> nat \<Rightarrow> (nat \<Rightarrow> nat \<Rightarrow> 'a) \<Rightarrow> 'a list list" where
  "grid k n f = map (\<lambda>g. map (f g) [0..<n]) [0..<k]"

lemma grid_cong: "(\<And>g j. g < k \<Longrightarrow> j < n \<Longrightarrow> f g j = f' g j) \<Longrightarrow> grid k n f = grid k n f'"
  by (auto simp: grid_def)

lemma grid_take: "l \<le> n \<Longrightarrow> map (take l) (grid k n f) = grid k l f"
  by (simp add: grid_def take_map)

lemma grid_replicate: "map (\<lambda>_. replicate n x) gids = grid (length gids) n (\<lambda>_ _. x)"
  by (rule nth_equalityI) (simp_all add: grid_def map_replicate_const)

lemma append_each_nth:
  "length cs = length xs \<Longrightarrow> append_each cs xs = map (\<lambda>g. cs ! g @ [xs ! g]) [0..<length cs]"
proof (induction cs xs rule: append_each.induct)
  case (1 c cs x xs)
  then show ?case by (simp add: upt_conv_Cons map_Suc_upt [symmetric] comp_def del: upt_Suc)
qed simp_all

lemma set_each_nth:
  "length cs = length xs \<Longrightarrow> set_each i cs xs = map (\<lambda>g. (cs ! g)[i := xs ! g]) [0..<length cs]"
proof (induction i cs xs rule: set_each.induct)
  case (1 i c cs x xs)
  then show ?case by (simp add: upt_conv_Cons map_Suc_upt [symmetric] comp_def del: upt_Suc)
qed simp_all

lemma grid_append:
  assumes "length cs = k"
  shows "append_each (grid k n f) cs = grid k (Suc n) (\<lambda>g j. if j = n then cs ! g else f g j)"
proof -
  have "append_each (grid k n f) cs = map (\<lambda>g. grid k n f ! g @ [cs ! g]) [0..<k]"
    using assms by (subst append_each_nth) (simp_all add: grid_def)
  then show ?thesis by (auto simp: grid_def)
qed

lemma grid_set:
  assumes "length cs = k"
  shows "set_each i (grid k n f) cs = grid k n (\<lambda>g j. if j = i then cs ! g else f g j)"
proof -
  have "set_each i (grid k n f) cs = map (\<lambda>g. (grid k n f ! g)[i := cs ! g]) [0..<k]"
    using assms by (subst set_each_nth) (simp_all add: grid_def)
  also have "\<dots> = grid k n (\<lambda>g j. if j = i then cs ! g else f g j)"
    unfolding grid_def
    by (rule map_cong [OF refl]) (auto intro!: nth_equalityI simp: nth_list_update)
  finally show ?thesis .
qed

lemma grid_pop: "pop_each (grid k (Suc n) f) = Inr (grid k n f)"
  by (auto simp: pop_each_Inr grid_def)

lemma grid_first: "0 < k \<Longrightarrow> \<exists>rest. grid k n f = map (f 0) [0..<n] # rest"
  by (cases k) (auto simp: grid_def upt_conv_Cons simp del: upt_Suc)

text \<open>The test whether the first row is empty.\<close>

lemma grid_case:
  "0 < k \<Longrightarrow> (case grid k n f of [] \<Rightarrow> Inl IndexError
      | c # _ \<Rightarrow> if c = [] then Inr (grid k n f) else F (grid k n f)) =
     (if n = 0 then Inr (grid k n f) else F (grid k n f))"
  using grid_first [of k n f] by (auto split: list.splits)

text \<open>The greatest length up to \<open>n\<close> that is a multiple of the alignment.\<close>

fun align_down :: "int \<Rightarrow> int \<Rightarrow> nat \<Rightarrow> nat" where
  "align_down bs al 0 = 0"
| "align_down bs al (Suc n) =
     (if bs = al \<or> (int (Suc n) * bs) mod al = 0 then Suc n else align_down bs al n)"

definition aligned :: "int \<Rightarrow> int \<Rightarrow> nat \<Rightarrow> bool" where
  "aligned bs al n \<longleftrightarrow> bs = al \<or> (int n * bs) mod al = 0"

lemma align_down_greatest:
  "align_down bs al n \<le> n \<and> aligned bs al (align_down bs al n) \<and>
   (\<forall>m \<le> n. aligned bs al m \<longrightarrow> m \<le> align_down bs al n)"
proof (induction n)
  case (Suc n)
  then show ?case by (auto simp: aligned_def le_Suc_eq)
qed (simp add: aligned_def)

lemma grid_align:
  assumes "0 < k" "al \<noteq> 0"
  shows "align_loop bs al (grid k n f) = Inr (grid k (align_down bs al n) f)"
proof (induction n)
  case 0
  obtain rest where r: "grid k 0 f = [] # rest" using grid_first [OF assms(1), of 0 f] by auto
  show ?case by (subst align_loop.simps) (simp add: r py_mod_def assms(2))
next
  case (Suc n)
  obtain rest where r: "grid k (Suc n) f = map (f 0) [0..<Suc n] # rest"
    using grid_first [OF assms(1)] by blast
  show ?case
  proof (cases "bs = al \<or> (int (Suc n) * bs) mod al = 0")
    case True
    then show ?thesis
      by (subst align_loop.simps) (auto simp: r py_mod_def assms(2) simp del: upt_Suc)
  next
    case False
    then have "align_loop bs al (grid k (Suc n) f) = rbind (pop_each (grid k (Suc n) f)) (align_loop bs al)"
      by (subst align_loop.simps) (simp add: r py_mod_def assms(2) del: upt_Suc)
    then show ?thesis using False Suc by (simp add: grid_pop)
  qed
qed

section \<open>Lookups\<close>

definition lookup_block :: "BlockPool \<Rightarrow> BlockHashList \<Rightarrow> int list \<Rightarrow> nat \<Rightarrow> bref list option" where
  "lookup_block p hashes gids i =
     (case rbind (bhl_get hashes (int i)) (\<lambda>h. get_cached_block h gids p) of
        Inr (Some (c # cs)) \<Rightarrow> Some (c # cs)
      | _ \<Rightarrow> None)"

definition found :: "BlockPool \<Rightarrow> BlockHashList \<Rightarrow> int list \<Rightarrow> nat \<Rightarrow> nat \<Rightarrow> bref" where
  "found p hashes gids g i = the (lookup_block p hashes gids i) ! g"

definition searchable :: "BlockPool \<Rightarrow> BlockHashList \<Rightarrow> int list \<Rightarrow> bool" where
  "searchable p hashes gids \<longleftrightarrow>
     (\<exists>xs. pool_inv p xs) \<and> 0 \<le> bhl_len hashes \<and> gids \<noteq> [] \<and> (\<forall>g \<in> set gids. 0 \<le> g \<and> g < 2 ^ 32)"

lemma bhl_get_iter:
  "0 \<le> bhl_len hashes \<Longrightarrow> int i < bhl_len hashes \<Longrightarrow> bhl_get hashes (int i) = Inr (bhl_iter hashes ! i)"
  by (cases hashes) (simp_all add: py_get_nonneg bl_iter_def)

lemma lookup_step:
  assumes "searchable p hashes gids" "int i < bhl_len hashes"
  shows "\<exists>h cb. bhl_get hashes (int i) = Inr h \<and> h = bhl_iter hashes ! i \<and>
    get_cached_block h gids p = Inr cb \<and>
    (falsy cb \<longleftrightarrow> lookup_block p hashes gids i = None) \<and>
    (\<forall>cs. lookup_block p hashes gids i = Some cs \<longrightarrow> cb = Some cs \<and> length cs = length gids \<and>
      (\<exists>bs. cs = map Blk bs \<and>
        list_all2 (\<lambda>b g. in_pool p b \<and> hash_of p b = Some (group_key h g)) bs gids))"
proof -
  let ?h = "bhl_iter hashes ! i"
  have h: "bhl_get hashes (int i) = Inr ?h"
    using assms by (intro bhl_get_iter) (auto simp: searchable_def)
  obtain xs where xs: "pool_inv p xs" using assms(1) by (auto simp: searchable_def)
  obtain r where r: "get_cached_block ?h gids p = Inr r"
    "case r of None \<Rightarrow> (\<exists>g \<in> set gids. \<forall>b. hash_of p b \<noteq> Some (group_key ?h g))
     | Some rs \<Rightarrow> \<exists>bs. rs = map Blk bs \<and>
         list_all2 (\<lambda>b g. in_pool p b \<and> hash_of p b = Some (group_key ?h g)) bs gids"
    using get_cached_block_ok [OF xs, of gids ?h] assms(1) by (auto simp: searchable_def)
  have l: "lookup_block p hashes gids i = (case r of Some (c # cs) \<Rightarrow> Some (c # cs) | _ \<Rightarrow> None)"
    by (simp add: lookup_block_def h r(1) split: option.split list.split)
  have A: "r = Some cs \<and> length cs = length gids \<and>
      (\<exists>bs. cs = map Blk bs \<and>
        list_all2 (\<lambda>b g. in_pool p b \<and> hash_of p b = Some (group_key ?h g)) bs gids)"
    if "lookup_block p hashes gids i = Some cs" for cs
  proof -
    have e: "r = Some cs" using that l by (auto split: option.splits list.splits)
    have "\<exists>bs. cs = map Blk bs \<and>
        list_all2 (\<lambda>b g. in_pool p b \<and> hash_of p b = Some (group_key ?h g)) bs gids"
      using r(2) unfolding e by simp
    moreover from this have "length cs = length gids" using list_all2_lengthD by fastforce
    ultimately show ?thesis using e by blast
  qed
  have B: "falsy r \<longleftrightarrow> lookup_block p hashes gids i = None"
    unfolding l falsy_def by (simp split: option.splits list.splits)
  show ?thesis
    by (intro exI [of _ ?h] exI [of _ r] conjI allI impI h r(1) refl B) (drule A, simp)+
qed

section \<open>Runs of hits\<close>

abbreviation hit :: "BlockPool \<Rightarrow> BlockHashList \<Rightarrow> int list \<Rightarrow> nat \<Rightarrow> bool" where
  "hit p hashes gids i \<equiv> lookup_block p hashes gids i \<noteq> None"

definition hit_run :: "BlockPool \<Rightarrow> BlockHashList \<Rightarrow> int list \<Rightarrow> nat \<Rightarrow> nat \<Rightarrow> nat" where
  "hit_run p hashes gids j n = length (takeWhile (hit p hashes gids) [j..<n])"

lemma hit_run_step:
  "j < n \<Longrightarrow> hit_run p hashes gids j n =
     (if hit p hashes gids j then Suc (hit_run p hashes gids (Suc j) n) else 0)"
  by (simp add: hit_run_def upt_conv_Cons)

lemma hit_run_end: "n \<le> j \<Longrightarrow> hit_run p hashes gids j n = 0"
  by (simp add: hit_run_def)

text \<open>The run is the longest: all its blocks hit, and the block after it, if any, does not.\<close>

lemma hit_run_spec:
  "j \<le> n \<Longrightarrow> j + hit_run p hashes gids j n \<le> n \<and>
   (\<forall>i. j \<le> i \<and> i < j + hit_run p hashes gids j n \<longrightarrow> hit p hashes gids i) \<and>
   (j + hit_run p hashes gids j n < n \<longrightarrow> \<not> hit p hashes gids (j + hit_run p hashes gids j n))"
proof (induction "n - j" arbitrary: j)
  case 0
  then show ?case by (auto simp: hit_run_end)
next
  case (Suc d)
  then have j: "j < n" by simp
  show ?case
  proof (cases "hit p hashes gids j")
    case True
    have ih: "Suc j + hit_run p hashes gids (Suc j) n \<le> n \<and>
        (\<forall>i. Suc j \<le> i \<and> i < Suc j + hit_run p hashes gids (Suc j) n \<longrightarrow> hit p hashes gids i) \<and>
        (Suc j + hit_run p hashes gids (Suc j) n < n \<longrightarrow>
          \<not> hit p hashes gids (Suc j + hit_run p hashes gids (Suc j) n))"
      using Suc.hyps(1) [of "Suc j"] Suc.hyps(2) j by simp
    have e: "j + hit_run p hashes gids j n = Suc j + hit_run p hashes gids (Suc j) n"
      using True j by (simp add: hit_run_step)
    have "hit p hashes gids i" if "j \<le> i" "i < Suc j + hit_run p hashes gids (Suc j) n" for i
      using that ih True by (cases "i = j") auto
    then show ?thesis unfolding e using ih by blast
  next
    case False
    then show ?thesis using j by (auto simp: hit_run_step)
  qed
qed

lemma full_scan_run:
  assumes "searchable p hashes gids" "int n \<le> bhl_len hashes" "j \<le> n"
    and "\<And>g. g < length gids \<Longrightarrow> \<forall>i. j \<le> i \<longrightarrow> f g i = found p hashes gids g i"
  shows "full_scan p gids (drop j (take n (bhl_iter hashes))) (grid (length gids) j f) =
    Inr (grid (length gids) (j + hit_run p hashes gids j n) f)"
  using assms(3,4)
proof (induction "n - j" arbitrary: j)
  case 0
  then show ?case by (simp add: hit_run_end)
next
  case (Suc d)
  then have j: "j < n" by simp
  have "len (bhl_iter hashes) = bhl_len hashes"
    using assms(1) by (intro bhl_len_iter) (simp add: searchable_def)
  then have l: "n \<le> length (bhl_iter hashes)" using assms(2) by simp
  have d: "drop j (take n (bhl_iter hashes)) = bhl_iter hashes ! j # drop (Suc j) (take n (bhl_iter hashes))"
    using j l by (simp add: Cons_nth_drop_Suc [symmetric])
  obtain cb where cb: "get_cached_block (bhl_iter hashes ! j) gids p = Inr cb"
    "falsy cb \<longleftrightarrow> \<not> hit p hashes gids j"
    "\<And>cs. lookup_block p hashes gids j = Some cs \<Longrightarrow> cb = Some cs \<and> length cs = length gids"
    using lookup_step [OF assms(1), of j] j assms(2) by auto
  show ?case
  proof (cases "lookup_block p hashes gids j")
    case None
    then have "case cb of Some (c # cs) \<Rightarrow> False | _ \<Rightarrow> True"
      using cb(2) by (auto simp: falsy_def split: option.splits list.splits)
    then show ?thesis
      using None cb(1) j unfolding d by (auto simp: hit_run_step split: option.splits list.splits)
  next
    case (Some cs)
    have cs: "cb = Some cs" "length cs = length gids" using cb(3) [OF Some] by auto
    have ne: "cs \<noteq> []" using cb(2) Some cs(1) by (simp add: falsy_def)
    have "grid (length gids) (Suc j) (\<lambda>g i. if i = j then cs ! g else f g i) = grid (length gids) (Suc j) f"
      using Suc.prems(2) Some by (intro grid_cong) (auto simp: found_def)
    then have "full_scan p gids (drop j (take n (bhl_iter hashes))) (grid (length gids) j f) =
        full_scan p gids (drop (Suc j) (take n (bhl_iter hashes))) (grid (length gids) (Suc j) f)"
      using cb(1) cs ne unfolding d
      by (cases cs) (simp_all add: grid_append [OF cs(2), symmetric])
    also have "\<dots> = Inr (grid (length gids) (Suc j + hit_run p hashes gids (Suc j) n) f)"
      using Suc.hyps(1) [of "Suc j"] Suc.hyps(2) Suc.prems(2) j by simp
    finally show ?thesis using Some j by (simp add: hit_run_step)
  qed
qed

section \<open>Sliding windows\<close>

text \<open>A length is valid when the blocks of the window before it are all cached, and, unless it
  is zero, it passes the alignment test \<open>ok\<close> of the search.\<close>

definition window_valid ::
    "BlockPool \<Rightarrow> BlockHashList \<Rightarrow> int list \<Rightarrow> nat \<Rightarrow> (nat \<Rightarrow> bool) \<Rightarrow> nat \<Rightarrow> bool" where
  "window_valid p hashes gids need ok l \<longleftrightarrow>
     (l = 0 \<or> ok l) \<and> (\<forall>i. l - need \<le> i \<and> i < l \<longrightarrow> hit p hashes gids i)"

definition start_ok :: "bool \<Rightarrow> int \<Rightarrow> int \<Rightarrow> nat \<Rightarrow> bool" where
  "start_ok use_eagle bs al l \<longleftrightarrow> aligned bs al (if use_eagle then l - 1 else l)"

text \<open>The columns of a window of length \<open>need\<close> that ends at \<open>l\<close>; null blocks before it.\<close>

definition window_cells ::
    "BlockPool \<Rightarrow> BlockHashList \<Rightarrow> int list \<Rightarrow> nat \<Rightarrow> nat \<Rightarrow> nat \<Rightarrow> nat \<Rightarrow> bref" where
  "window_cells p hashes gids need l g i =
     (if l - need \<le> i then found p hashes gids g i else null_block p)"

lemma sliding_window_loop_step:
  assumes "searchable p hashes gids" "int i < bhl_len hashes" "al \<noteq> 0"
  shows "sliding_window_loop p hashes gids e bs al needed (Suc i) (grid (length gids) n f) (int c) =
    (if \<not> hit p hashes gids i
     then sliding_window_loop p hashes gids e bs al needed i (grid (length gids) n f) 0
     else if c = 0 \<and> \<not> start_ok e bs al (Suc i)
     then sliding_window_loop p hashes gids e bs al needed i (grid (length gids) n f) 0
     else let f' = (\<lambda>g j. if j = i then found p hashes gids g i else f g j) in
       if int (Suc c) \<ge> needed
       then Inr (map (take (i + Suc c)) (grid (length gids) n f'), int (Suc c), True)
       else sliding_window_loop p hashes gids e bs al needed i (grid (length gids) n f') (int (Suc c)))"
proof -
  obtain h cb where cb: "bhl_get hashes (int i) = Inr h" "get_cached_block h gids p = Inr cb"
    "falsy cb \<longleftrightarrow> \<not> hit p hashes gids i"
    "\<And>cs. lookup_block p hashes gids i = Some cs \<Longrightarrow> cb = Some cs \<and> length cs = length gids"
    using lookup_step [OF assms(1,2)] by auto
  have e: "(if c = 0 \<and> bs \<noteq> al
      then rbind (py_mod ((if e then int i else int i + 1) * bs) al) (\<lambda>r. Inr (r \<noteq> 0))
      else Inr False) = (Inr (c = 0 \<and> \<not> start_ok e bs al (Suc i)) :: bool res)"
    using assms(3) by (simp add: py_mod_def start_ok_def aligned_def algebra_simps)
  show ?thesis
  proof (cases "lookup_block p hashes gids i")
    case None
    then show ?thesis using cb by simp
  next
    case (Some cs)
    have cs: "cb = Some cs" "length cs = length gids" using cb(4) [OF Some] by auto
    have g: "set_each i (grid (length gids) n f) cs =
        grid (length gids) n (\<lambda>g j. if j = i then found p hashes gids g i else f g j)"
      unfolding grid_set [OF cs(2)] using Some by (intro grid_cong) (simp add: found_def)
    have nf: "\<not> falsy cb" using cb(3) Some by simp
    have z: "int c = 0 \<longleftrightarrow> c = 0" by simp
    show ?thesis
      unfolding sliding_window_loop.simps cb(1,2) rbind_simps if_not_P [OF nf] z e
      using Some cs(1) by (simp add: g Let_def nat_add_distrib add.commute)
  qed
qed

text \<open>A length whose window contains a block that is not cached is not valid.\<close>

lemma window_invalid:
  "\<not> hit p hashes gids i \<Longrightarrow> i < l \<Longrightarrow> l \<le> i + need \<Longrightarrow> \<not> window_valid p hashes gids need ok l"
  by (auto simp: window_valid_def le_diff_conv intro!: exI [of _ i])

lemma sliding_window_loop_greatest:
  assumes "searchable p hashes gids" "int k \<le> bhl_len hashes" "al \<noteq> 0" "k + c \<le> n" "c < need"
    and "c = 0 \<or> start_ok e bs al (k + c)" "\<And>i. k \<le> i \<Longrightarrow> i < k + c \<Longrightarrow> hit p hashes gids i"
    and "\<And>g i. g < length gids \<Longrightarrow> k \<le> i \<Longrightarrow> i < k + c \<Longrightarrow> f g i = found p hashes gids g i"
    and "\<And>g i. g < length gids \<Longrightarrow> i < k \<Longrightarrow> f g i = null_block p"
  shows "\<exists>l r ncont matched.
    sliding_window_loop p hashes gids e bs al (int need) k (grid (length gids) n f) (int c) =
      Inr (r, ncont, matched) \<and>
    window_valid p hashes gids need (start_ok e bs al) l \<and> l \<le> k + c \<and>
    (\<forall>l' \<le> k + c. window_valid p hashes gids need (start_ok e bs al) l' \<longrightarrow> l' \<le> l) \<and>
    (if matched then need \<le> l \<and> r = grid (length gids) l (window_cells p hashes gids need l)
     else ncont = int l \<and> l < need \<and>
       map (take l) r = grid (length gids) l (window_cells p hashes gids need l))"
  using assms(2,4-)
proof (induction k arbitrary: c f)
  case 0
  have "map (take c) (grid (length gids) n f) = grid (length gids) c (window_cells p hashes gids need c)"
    using 0 by (subst grid_take) (auto intro!: grid_cong simp: window_cells_def)
  moreover have "window_valid p hashes gids need (start_ok e bs al) c"
    using 0 by (auto simp: window_valid_def)
  ultimately show ?case using 0 by (intro exI [of _ c]) auto
next
  case (Suc i)
  let ?V = "window_valid p hashes gids need (start_ok e bs al)"
  have i: "int i < bhl_len hashes" using Suc.prems(1) by simp
  note step = sliding_window_loop_step [OF assms(1) i assms(3), of e bs "int need" n f c]
  have restart: ?case if r: "sliding_window_loop p hashes gids e bs al (int need) (Suc i) (grid (length gids) n f) (int c) =
        sliding_window_loop p hashes gids e bs al (int need) i (grid (length gids) n f) (int 0)"
    and inv: "\<And>l'. i < l' \<Longrightarrow> l' \<le> Suc i + c \<Longrightarrow> \<not> ?V l'"
  proof -
    obtain l r ncont matched where ih: "sliding_window_loop p hashes gids e bs al (int need) i
          (grid (length gids) n f) (int 0) = Inr (r, ncont, matched)"
      "?V l" "l \<le> i + 0" "\<forall>l' \<le> i + 0. ?V l' \<longrightarrow> l' \<le> l"
      "if matched then need \<le> l \<and> r = grid (length gids) l (window_cells p hashes gids need l)
       else ncont = int l \<and> l < need \<and>
         map (take l) r = grid (length gids) l (window_cells p hashes gids need l)"
      using Suc.IH [of 0 f] Suc.prems by auto
    have "\<forall>l' \<le> Suc i + c. ?V l' \<longrightarrow> l' \<le> l" using ih(4) inv by (metis add.right_neutral not_le)
    then show ?thesis using r ih by (intro exI [of _ l] exI [of _ r] exI [of _ ncont] exI [of _ matched]) auto
  qed
  show ?case
  proof (cases "hit p hashes gids i")
    case False
    then show ?thesis
      using step window_invalid [OF False] Suc.prems(3) by (intro restart) auto
  next
    case True
    show ?thesis
    proof (cases "c = 0 \<and> \<not> start_ok e bs al (Suc i)")
      case unal: True
      have "\<not> ?V l'" if "i < l'" "l' \<le> Suc i + c" for l'
        using that unal by (auto simp: window_valid_def le_Suc_eq)
      then show ?thesis using True unal step by (intro restart) auto
    next
      case False
      define f' where "f' = (\<lambda>g j. if j = i then found p hashes gids g i else f g j)"
      have st: "start_ok e bs al (i + Suc c)" using False Suc.prems(4) by auto
      have hits: "hit p hashes gids j" if "i \<le> j" "j < i + Suc c" for j
        using that True Suc.prems(5) [of j] by (cases "j = i") auto
      have fs: "f' g j = found p hashes gids g j" if "g < length gids" "i \<le> j" "j < i + Suc c" for g j
        using that Suc.prems(6) [of g j] by (cases "j = i") (auto simp: f'_def)
      have nulls: "f' g j = null_block p" if "g < length gids" "j < i" for g j
        using that Suc.prems(7) [of g j] by (simp add: f'_def)
      show ?thesis
      proof (cases "Suc c \<ge> need")
        case enough: True
        let ?l = "i + Suc c"
        have need: "need = Suc c" using enough Suc.prems(3) by simp
        have loop: "sliding_window_loop p hashes gids e bs al (int need) (Suc i) (grid (length gids) n f) (int c) =
            Inr (map (take ?l) (grid (length gids) n f'), int (Suc c), True)"
          using step True False enough by (simp add: f'_def Let_def)
        have "map (take ?l) (grid (length gids) n f') =
            grid (length gids) ?l (window_cells p hashes gids need ?l)"
          using Suc.prems(2) fs nulls need
          by (subst grid_take) (auto intro!: grid_cong simp: window_cells_def)
        moreover have "?V ?l" using st hits need by (auto simp: window_valid_def)
        ultimately show ?thesis
          unfolding loop using need
          by (intro exI [of _ ?l]) auto
      next
        case more: False
        have loop: "sliding_window_loop p hashes gids e bs al (int need) (Suc i) (grid (length gids) n f) (int c) =
            sliding_window_loop p hashes gids e bs al (int need) i (grid (length gids) n f') (int (Suc c))"
          using step True False more by (simp add: f'_def Let_def)
        show ?thesis
          using Suc.IH [of "Suc c" f'] Suc.prems(1,2) more st hits fs nulls
          unfolding loop by simp
      qed
    qed
  qed
qed

lemma align_down_id: "aligned bs al n \<Longrightarrow> align_down bs al n = n"
  using align_down_greatest [of bs al n] by (metis le_antisym order_refl)

lemma py_repeat_grid:
  "map (\<lambda>_. py_repeat x n) gids = grid (length gids) (nat n) (\<lambda>_ _. x)"
  by (simp add: py_repeat_def grid_replicate)

section \<open>Mamba\<close>

lemma mamba_scan_last:
  assumes "searchable p hashes gids" "int n \<le> bhl_len hashes" "al \<noteq> 0"
  shows "\<exists>l. mamba_scan p hashes gids bs al n = Inr (grid (length gids) l
      (\<lambda>g i. if Suc i = l then found p hashes gids g i else null_block p)) \<and> l \<le> n \<and>
    (l = 0 \<or> aligned bs al l \<and> hit p hashes gids (l - 1)) \<and>
    (\<forall>l' \<le> n. 0 < l' \<and> aligned bs al l' \<and> hit p hashes gids (l' - 1) \<longrightarrow> l' \<le> l)"
  using assms(2)
proof (induction n)
  case 0
  then show ?case by (auto simp: grid_def intro!: nth_equalityI)
next
  case (Suc i)
  obtain h cb where cb: "bhl_get hashes (int i) = Inr h" "get_cached_block h gids p = Inr cb"
    "falsy cb \<longleftrightarrow> \<not> hit p hashes gids i"
    "\<And>cs. lookup_block p hashes gids i = Some cs \<Longrightarrow> cb = Some cs \<and> length cs = length gids"
    using lookup_step [OF assms(1), of i] Suc.prems by auto
  have m: "(if bs = al then Inr 0 else py_mod ((int i + 1) * bs) al) =
      Inr (if bs = al then 0 else (int (Suc i) * bs) mod al)"
    using assms(3) by (simp add: py_mod_def algebra_simps)
  show ?case
  proof (cases "hit p hashes gids i \<and> aligned bs al (Suc i)")
    case True
    then obtain cs where cs: "lookup_block p hashes gids i = Some cs" "cb = Some cs" "length cs = length gids"
      using cb(4) by auto
    have "append_each (map (\<lambda>_. py_repeat (null_block p) (int i)) gids) cs =
        grid (length gids) (Suc i) (\<lambda>g j. if Suc j = Suc i then found p hashes gids g j else null_block p)"
      unfolding py_repeat_grid using cs(1) by (subst grid_append [OF cs(3)])
        (auto intro!: grid_cong simp: found_def)
    then have "mamba_scan p hashes gids bs al (Suc i) = Inr (grid (length gids) (Suc i)
        (\<lambda>g j. if Suc j = Suc i then found p hashes gids g j else null_block p))"
      using True cb(1-3) cs(2) unfolding mamba_scan.simps m by (auto simp: aligned_def)
    then show ?thesis using True by (intro exI [of _ "Suc i"]) auto
  next
    case False
    then have "mamba_scan p hashes gids bs al (Suc i) = mamba_scan p hashes gids bs al i"
      using cb(1-3) unfolding mamba_scan.simps m by (auto simp: aligned_def)
    moreover obtain l where "mamba_scan p hashes gids bs al i = Inr (grid (length gids) l
        (\<lambda>g i. if Suc i = l then found p hashes gids g i else null_block p))" "l \<le> i"
      "l = 0 \<or> aligned bs al l \<and> hit p hashes gids (l - 1)"
      "\<forall>l' \<le> i. 0 < l' \<and> aligned bs al l' \<and> hit p hashes gids (l' - 1) \<longrightarrow> l' \<le> l"
      using Suc.IH Suc.prems by auto
    ultimately show ?thesis using False by (intro exI [of _ l]) (auto simp: le_Suc_eq)
  qed
qed

section \<open>Chunks\<close>

lemma chunked_scan_run:
  assumes "searchable p hashes gids" "int n \<le> bhl_len hashes" "j \<le> n"
    and "\<And>g i. g < length gids \<Longrightarrow> j \<le> i \<Longrightarrow> f g i = found p hashes gids g i"
  shows "chunked_scan p hashes gids [int j .. int n - 1] (grid (length gids) j f) =
    Inr (grid (length gids) (j + hit_run p hashes gids j n) f)"
  using assms(3,4)
proof (induction "n - j" arbitrary: j)
  case 0
  then show ?case by (simp add: hit_run_end)
next
  case (Suc d)
  then have j: "j < n" by simp
  have u: "[int j .. int n - 1] = int j # [int (Suc j) .. int n - 1]"
    using j by (subst upto_rec1) (simp_all add: add.commute)
  obtain h cb where cb: "bhl_get hashes (int j) = Inr h" "get_cached_block h gids p = Inr cb"
    "falsy cb \<longleftrightarrow> \<not> hit p hashes gids j"
    "\<And>cs. lookup_block p hashes gids j = Some cs \<Longrightarrow> cb = Some cs \<and> length cs = length gids"
    using lookup_step [OF assms(1), of j] j assms(2) by auto
  show ?case
  proof (cases "lookup_block p hashes gids j")
    case None
    then have "case cb of Some (c # cs) \<Rightarrow> False | _ \<Rightarrow> True"
      using cb(3) by (auto simp: falsy_def split: option.splits list.splits)
    then show ?thesis
      using None cb(1,2) j unfolding u by (auto simp: hit_run_step split: option.splits list.splits)
  next
    case (Some cs)
    have cs: "cb = Some cs" "length cs = length gids" using cb(4) [OF Some] by auto
    have ne: "cs \<noteq> []" using cb(3) Some cs(1) by (simp add: falsy_def)
    have "grid (length gids) (Suc j) (\<lambda>g i. if i = j then cs ! g else f g i) = grid (length gids) (Suc j) f"
      using Suc.prems(2) Some by (intro grid_cong) (auto simp: found_def)
    then have "chunked_scan p hashes gids [int j .. int n - 1] (grid (length gids) j f) =
        chunked_scan p hashes gids [int (Suc j) .. int n - 1] (grid (length gids) (Suc j) f)"
      using cb(1,2) cs ne unfolding u
      by (cases cs) (simp_all add: grid_append [OF cs(2), symmetric])
    also have "\<dots> = Inr (grid (length gids) (Suc j + hit_run p hashes gids (Suc j) n) f)"
      using Suc.hyps(1) [of "Suc j"] Suc.hyps(2) Suc.prems(2) j by simp
    finally show ?thesis using Some j by (simp add: hit_run_step)
  qed
qed

section \<open>A pool with two cached blocks\<close>

lemma demo_cached:
  "\<exists>p. pool_inv p [3] \<and> num_gpu_blocks p = 4 \<and> null_block p = Blk 0 \<and>
    hash_of p 1 = Some (group_key [1] 0) \<and> hash_of p 2 = Some (group_key [2] 0)"
proof -
  let ?r = "(text_request ''a'' [5, 6, 7, 8])\<lparr>block_hashes := [[1], [2]]\<rparr>"
  have "b \<in> set [1, 2] \<Longrightarrow> b = 0 \<or> in_pool demo_pool b" for b by (auto simp: demo_pool_inv)
  from touch_ok [OF demo_pool_inv(2) this, of "[1, 2]"]
  obtain p1 where p1: "pool_inv p1 [3]" "same_setup demo_pool p1" "\<And>c. hash_of p1 c = None"
    by (auto simp: demo_pool_inv)
  have s: "num_gpu_blocks p1 = 4" "hash_block_size p1 = 2"
    using p1(2) by (simp_all add: same_setup_def demo_pool_inv)
  have c: "cacheable p1 (take (nat 2 - nat 0) (drop (nat 0) [1, 2]))"
    using p1(3) s by (simp add: cacheable_def)
  have q: "cache_request_ok demo_cfg ?r 2 (hash_block_size p1) 2"
    by (simp add: cache_request_ok_def s group_hashes_def text_request_def memo_ok_def)
  obtain p' where p': "pool_inv p' [3]" "same_setup p1 p'"
    "\<And>j. j < nat 2 - nat 0 \<Longrightarrow> 0 < [1, 2::nat] ! (nat 0 + j) \<Longrightarrow> hash_of p' ([1, 2] ! (nat 0 + j)) =
       Some (group_key (bhl_iter (group_hashes 2 (hash_block_size p1) (block_hashes ?r)) ! (nat 0 + j)) 0)"
    using cache_full_blocks_ok [OF p1(1) _ _ _ c q, of 0] by auto
  have "hash_of p' 1 = Some (group_key [1] 0)" "hash_of p' 2 = Some (group_key [2] 0)"
    using p'(3) [of 0] p'(3) [of 1] by (simp_all add: s group_hashes_def)
  moreover have "null_block p' = Blk 0" using p'(1) by (simp add: pool_inv_def pool_ok_def)
  ultimately show ?thesis using p'(1,2) s by (auto simp: same_setup_def)
qed

lemma demo_lookup:
  assumes "pool_inv p xs" "hash_of p 1 = Some (group_key [1] 0)" "hash_of p 2 = Some (group_key [2] 0)"
  shows "searchable p (PlainHashes [[1], [2]]) [0]" "hit p (PlainHashes [[1], [2]]) [0] 0"
    "hit p (PlainHashes [[1], [2]]) [0] 1"
proof -
  show "searchable p (PlainHashes [[1], [2]]) [0]" using assms(1) by (auto simp: searchable_def)
  obtain a where "get_cached_block [1] [0] p = Inr (Some [Blk a])"
    using get_cached_block_hit [OF assms(1) _ _ assms(2)] by auto
  then show "hit p (PlainHashes [[1], [2]]) [0] 0"
    by (simp add: lookup_block_def py_get_nonneg del: get_cached_block.simps)
  obtain b where "get_cached_block [2] [0] p = Inr (Some [Blk b])"
    using get_cached_block_hit [OF assms(1) _ _ assms(3)] by auto
  then show "hit p (PlainHashes [[1], [2]]) [0] 1"
    by (simp add: lookup_block_def py_get_nonneg del: get_cached_block.simps)
qed

section \<open>The searches\<close>

lemma full_attention_hit:
  assumes "searchable p hashes gids" "is_FullAttentionSpec spec" "0 < bs" "al \<noteq> 0"
    and "bs = (if dcp * pcp > 1 then block_size spec * (dcp * pcp) else block_size spec)"
    and "0 \<le> max_length" "max_length div bs \<le> bhl_len hashes"
  shows "\<exists>l. full_find_longest_cache_hit hashes max_length gids p spec use_eagle al dcp pcp =
      Inr (grid (length gids) l (found p hashes gids)) \<and>
    int l \<le> max_length div bs \<and> aligned bs al l \<and> (\<forall>i < l. hit p hashes gids i) \<and>
    (let e = if use_eagle then 1 else 0 in
     \<forall>l'. int (l' + e) \<le> max_length div bs \<and> aligned bs al l' \<and>
       (\<forall>i < l' + e. hit p hashes gids i) \<longrightarrow> l' \<le> l)"
proof -
  define n where "n = nat (max_length div bs)"
  define run where "run = hit_run p hashes gids 0 n"
  define r where "r = (if use_eagle then run - 1 else run)"
  have n: "int n = max_length div bs" using assms(3,6) by (simp add: n_def pos_imp_zdiv_nonneg_iff)
  have k: "0 < length gids" using assms(1) by (simp add: searchable_def)
  have rs: "run \<le> n" "\<And>i. i < run \<Longrightarrow> hit p hashes gids i" "run < n \<Longrightarrow> \<not> hit p hashes gids run"
    using hit_run_spec [of 0 n p hashes gids] by (auto simp: run_def)
  have z: "replicate (length gids) [] = grid (length gids) 0 (found p hashes gids)"
    by (rule nth_equalityI) (simp_all add: grid_def)
  have scan: "full_scan p gids (take (nat (max_length div bs)) (bhl_iter hashes)) (replicate (length gids) []) =
      Inr (grid (length gids) run (found p hashes gids))"
    using full_scan_run [OF assms(1), of n 0 "found p hashes gids"] n assms(7)
    unfolding z by (simp add: n_def run_def)
  have pop: "(if use_eagle
       then case grid (length gids) run (found p hashes gids) of
              [] \<Rightarrow> Inl IndexError
            | c # _ \<Rightarrow> if c = [] then Inr (grid (length gids) run (found p hashes gids))
                       else pop_each (grid (length gids) run (found p hashes gids))
       else Inr (grid (length gids) run (found p hashes gids))) =
      Inr (grid (length gids) r (found p hashes gids))"
    unfolding grid_case [OF k, where F = pop_each] by (cases run) (simp_all add: r_def grid_pop)
  have "full_find_longest_cache_hit hashes max_length gids p spec use_eagle al dcp pcp =
      Inr (grid (length gids) (align_down bs al r) (found p hashes gids))"
    unfolding full_find_longest_cache_hit_def Let_def assms(5) [symmetric] scan rbind_simps pop
    using assms(2,3,6) n grid_align [OF k assms(4)] by simp
  moreover note ad = align_down_greatest [of bs al r]
  moreover have "r \<le> n" "\<forall>i < align_down bs al r. hit p hashes gids i"
    using rs ad by (auto simp: r_def)
  moreover have "l' \<le> align_down bs al r" if l': "int (l' + e) \<le> max_length div bs" "aligned bs al l'"
      "\<forall>i < l' + e. hit p hashes gids i" "e = (if use_eagle then 1 else 0)" for l' e
  proof -
    have "l' + e \<le> run"
    proof (rule ccontr)
      assume "\<not> l' + e \<le> run"
      then have "run < l' + e" "run < n" using l'(1) n by auto
      then show False using l'(3) rs(3) by blast
    qed
    then have "l' \<le> r" using l'(4) by (auto simp: r_def)
    then show ?thesis using ad l'(2) by blast
  qed
  ultimately show ?thesis
    using n by (intro exI [of _ "align_down bs al r"]) (auto simp: Let_def)
qed

text \<open>C32: for full attention the search returns, for every group, the cached blocks of a prefix
  of the request: as long as the blocks hit, no longer than asked, a multiple of the
  alignment, one block shorter when the last block is to be recomputed for EAGLE, and no
  longer prefix would do.\<close>

theorem full_attention_longest_hit:
  assumes "searchable p hashes gids" "is_FullAttentionSpec spec" "0 < bs" "al \<noteq> 0"
    and "bs = (if dcp * pcp > 1 then block_size spec * (dcp * pcp) else block_size spec)"
    and "0 \<le> max_length" "max_length div bs \<le> bhl_len hashes"
  shows "\<exists>l. full_find_longest_cache_hit hashes max_length gids p spec use_eagle al dcp pcp =
      Inr (grid (length gids) l (found p hashes gids)) \<and>
    int l \<le> max_length div bs \<and> aligned bs al l \<and> (\<forall>i < l. hit p hashes gids i) \<and>
    (let e = if use_eagle then 1 else 0 in
     \<forall>l'. int (l' + e) \<le> max_length div bs \<and> aligned bs al l' \<and>
       (\<forall>i < l' + e. hit p hashes gids i) \<longrightarrow> l' \<le> l)"
  by (rule full_attention_hit [OF assms])

theorem full_attention_longest_hit_witness:
  "\<exists>p b c. full_find_longest_cache_hit (PlainHashes [[1], [2]]) 5 [0] p
      (new_FullAttentionSpec \<lparr>attn_block_size = 2, num_kv_heads = 1, head_size = 8,
        attn_dtype = ''bfloat16'', kv_quant_mode = NONE, page_size_padded = None\<rparr> None None None)
      False 2 1 1 = Inr [[b, c]]"
proof -
  let ?s = "new_FullAttentionSpec \<lparr>attn_block_size = 2, num_kv_heads = 1, head_size = 8,
        attn_dtype = ''bfloat16'', kv_quant_mode = NONE, page_size_padded = None\<rparr> None None None"
  let ?H = "PlainHashes [[1], [2]]"
  obtain p where p: "pool_inv p [3]" "hash_of p 1 = Some (group_key [1] 0)" "hash_of p 2 = Some (group_key [2] 0)"
    using demo_cached by blast
  note d = demo_lookup [OF p]
  obtain l where l: "full_find_longest_cache_hit ?H 5 [0] p ?s False 2 1 1 = Inr (grid (length [0::int]) l (found p ?H [0]))"
    "int l \<le> 5 div 2" "let e = if False then 1 else 0 in
     \<forall>l'. int (l' + e) \<le> 5 div 2 \<and> aligned 2 2 l' \<and> (\<forall>i < l' + e. hit p ?H [0] i) \<longrightarrow> l' \<le> l"
    using full_attention_longest_hit [OF d(1), of ?s 2 2 1 1 5 False] by (auto simp: new_FullAttentionSpec_def)
  have "\<forall>i < 2. hit p ?H [0] i" using d(2,3) by (auto simp: less_2_cases_iff)
  then have "2 \<le> l" using l(3) by (auto simp: aligned_def)
  then have "l = 2" using l(2) by simp
  then show ?thesis using l(1) by (auto simp: grid_def upt_rec)
qed

lemma sliding_window_hit:
  assumes "searchable p hashes gids" "sliding_window_of spec = Some w" "1 < w"
    and "0 < block_size spec" "al \<noteq> 0" "0 \<le> max_length"
    and "max_length div block_size spec \<le> bhl_len hashes"
    and "need = nat (cdiv (w - 1) (block_size spec))"
  shows "\<exists>l. sliding_window_find_longest_cache_hit hashes max_length gids p spec False al 1 1 =
      Inr (grid (length gids) l (window_cells p hashes gids need l)) \<and>
    int l \<le> max_length div block_size spec \<and>
    window_valid p hashes gids need (aligned (block_size spec) al) l \<and>
    (\<forall>l'. int l' \<le> max_length div block_size spec \<and>
      window_valid p hashes gids need (aligned (block_size spec) al) l' \<longrightarrow> l' \<le> l)"
proof -
  let ?bs = "block_size spec"
  define n where "n = nat (max_length div ?bs)"
  have n: "int n = max_length div ?bs" using assms(4,6) by (simp add: n_def pos_imp_zdiv_nonneg_iff)
  have k: "0 < length gids" using assms(1) by (simp add: searchable_def)
  have "\<not> cdiv (w - 1) ?bs \<le> 0" using assms(3,4) by (simp add: cdiv_le_iff)
  then have need: "int need = cdiv (w - 1) ?bs" "0 < need" using assms(8) by simp_all
  have so: "start_ok False ?bs al = aligned ?bs al" by (simp add: start_ok_def fun_eq_iff)
  obtain l r ncont matched where l:
    "sliding_window_loop p hashes gids False ?bs al (int need) n
       (grid (length gids) n (\<lambda>_ _. null_block p)) (int 0) = Inr (r, ncont, matched)"
    "window_valid p hashes gids need (aligned ?bs al) l" "l \<le> n"
    "\<forall>l' \<le> n. window_valid p hashes gids need (aligned ?bs al) l' \<longrightarrow> l' \<le> l"
    "if matched then need \<le> l \<and> r = grid (length gids) l (window_cells p hashes gids need l)
     else ncont = int l \<and> l < need \<and> map (take l) r = grid (length gids) l (window_cells p hashes gids need l)"
    using sliding_window_loop_greatest [OF assms(1), of n al 0 n need False ?bs "\<lambda>_ _. null_block p"]
      n assms(5,7) need(2) unfolding so by auto
  have "aligned ?bs al l" using l(2) by (auto simp: window_valid_def aligned_def)
  then have al: "align_loop ?bs al (grid (length gids) l (window_cells p hashes gids need l)) =
      Inr (grid (length gids) l (window_cells p hashes gids need l))"
    using grid_align [OF k assms(5), of ?bs l] align_down_id by metis
  have r: "(if matched then Inr r else align_loop ?bs al (map (take (nat ncont)) r)) =
      Inr (grid (length gids) l (window_cells p hashes gids need l))"
    using l(5) al by (auto split: if_splits)
  have c: "py_cdiv (w - 1) ?bs = Inr (int need)" using need(1) assms(4) by (simp add: py_cdiv_def)
  have "sliding_window_find_longest_cache_hit hashes max_length gids p spec False al 1 1 =
      Inr (grid (length gids) l (window_cells p hashes gids need l))"
    using l(1) r by (simp add: sliding_window_find_longest_cache_hit_def assms(2) c py_repeat_grid
        n_def [symmetric] Let_def)
  then show ?thesis using l(2-4) n by (intro exI [of _ l]) auto
qed



text \<open>A block a search returns carries the hash of the request's block in its group.\<close>

lemma found_block:
  assumes "searchable p hashes gids" "int i < bhl_len hashes" "hit p hashes gids i" "g < length gids"
  shows "\<exists>b. found p hashes gids g i = Blk b \<and> in_pool p b \<and>
    hash_of p b = Some (group_key (bhl_iter hashes ! i) (gids ! g))"
proof -
  obtain cs where cs: "lookup_block p hashes gids i = Some cs" using assms(3) by auto
  obtain bs where bs: "cs = map Blk bs"
    "list_all2 (\<lambda>b g. in_pool p b \<and> hash_of p b = Some (group_key (bhl_iter hashes ! i) g)) bs gids"
    using lookup_step [OF assms(1,2)] cs by auto
  have l: "g < length bs" using list_all2_lengthD [OF bs(2)] assms(4) by simp
  have "found p hashes gids g i = Blk (bs ! g)" using cs bs(1) l by (simp add: found_def)
  moreover have "in_pool p (bs ! g) \<and> hash_of p (bs ! g) = Some (group_key (bhl_iter hashes ! i) (gids ! g))"
    using list_all2_nthD [OF bs(2) l] .
  ultimately show ?thesis by blast
qed

lemma mamba_longest_hit:
  assumes "searchable p hashes gids" "is_MambaSpec spec" "0 < block_size spec" "al \<noteq> 0" "0 \<le> max_length"
    and "max_length div block_size spec \<le> bhl_len hashes"
  shows "\<exists>l. mamba_find_longest_cache_hit hashes max_length gids p spec use_eagle al 1 1 =
      Inr (grid (length gids) l (\<lambda>g i. if Suc i = l then found p hashes gids g i else null_block p)) \<and>
    int l \<le> max_length div block_size spec \<and>
    (l = 0 \<or> aligned (block_size spec) al l \<and> hit p hashes gids (l - 1)) \<and>
    (\<forall>l'. int l' \<le> max_length div block_size spec \<and> 0 < l' \<and> aligned (block_size spec) al l' \<and>
       hit p hashes gids (l' - 1) \<longrightarrow> l' \<le> l)"
proof -
  define n where "n = nat (max_length div block_size spec)"
  have n: "int n = max_length div block_size spec"
    using assms(3,5) by (simp add: n_def pos_imp_zdiv_nonneg_iff)
  obtain l where l: "mamba_scan p hashes gids (block_size spec) al n = Inr (grid (length gids) l
      (\<lambda>g i. if Suc i = l then found p hashes gids g i else null_block p))" "l \<le> n"
    "l = 0 \<or> aligned (block_size spec) al l \<and> hit p hashes gids (l - 1)"
    "\<forall>l' \<le> n. 0 < l' \<and> aligned (block_size spec) al l' \<and> hit p hashes gids (l' - 1) \<longrightarrow> l' \<le> l"
    using mamba_scan_last [OF assms(1), of n al "block_size spec"] n assms(4,6) by auto
  have "mamba_find_longest_cache_hit hashes max_length gids p spec use_eagle al 1 1 =
      mamba_scan p hashes gids (block_size spec) al n"
    using assms(2,3) by (simp add: mamba_find_longest_cache_hit_def n_def)
  then show ?thesis using l n by (intro exI [of _ l]) auto
qed

text \<open>Chunked local attention: the blocks before the chunk of the next token count as computed,
  and the cached blocks that follow are returned up to the first miss.\<close>

lemma chunked_longest_hit:
  assumes "searchable p hashes gids" "chunk_size_of spec = Some chunk" "0 < chunk"
    and "0 < block_size spec" "0 \<le> max_length"
    and "max_length div block_size spec \<le> bhl_len hashes"
    and "start = nat (max_length div chunk * chunk div block_size spec)"
    and "n = nat (max_length div block_size spec)"
  shows "chunked_find_longest_cache_hit hashes max_length gids p spec False (block_size spec) 1 1 =
      Inr (grid (length gids) (start + hit_run p hashes gids start n)
        (\<lambda>g i. if i < start then null_block p else found p hashes gids g i)) \<and> start \<le> n"
proof -
  let ?bs = "block_size spec"
  have n: "int n = max_length div ?bs" using assms(4,5,8) by (simp add: pos_imp_zdiv_nonneg_iff)
  have c0: "0 \<le> max_length div chunk * chunk" using assms(3,5) by (simp add: pos_imp_zdiv_nonneg_iff)
  have c1: "max_length div chunk * chunk \<le> max_length"
    using le_div_iff_int [OF assms(3), of "max_length div chunk" max_length] by simp
  have st: "int start = max_length div chunk * chunk div ?bs"
    using assms(4,7) c0 by (simp add: pos_imp_zdiv_nonneg_iff)
  have le: "start \<le> n" using zdiv_mono1 [OF c1 assms(4)] st n by simp
  let ?f = "\<lambda>g i. if i < start then null_block p else found p hashes gids g i"
  have g: "map (\<lambda>_. py_repeat (null_block p) (int start)) gids = grid (length gids) start ?f"
    unfolding py_repeat_grid by (auto intro!: grid_cong)
  have "chunked_scan p hashes gids [int start .. int n - 1] (grid (length gids) start ?f) =
      Inr (grid (length gids) (start + hit_run p hashes gids start n) ?f)"
    using chunked_scan_run [OF assms(1) _ le, of ?f] n assms(6) by auto
  moreover have "(if max_length > 0 then max_length div chunk * chunk else 0) div ?bs = int start"
    using st assms(5) by auto
  moreover have "\<not> (?bs = 0 \<or> (max_length > 0 \<and> chunk = 0))" using assms(3,4) by simp
  ultimately show ?thesis
    using le n g unfolding chunked_find_longest_cache_hit_def Let_def
    by (simp add: assms(2) py_raise_if_def)
qed

end
