(* ===== verification/HybridHit.thy ===== *)
theory HybridHit
  imports Coordinator CacheHitSpec
begin

text \<open>
  The search of the hybrid coordinator: attention groups with different rules for what a usable
  hit is shrink a candidate length in turn until none objects.  It always ends, and it returns the
  greatest length all groups accept, with the blocks each group needs for it.
\<close>

section \<open>What a group accepts\<close>

type_synonym attn_group = "KVCacheSpec \<times> int list \<times> manager_class"

definition group_hashes_of :: "KVCacheCoordinator \<Rightarrow> bytes list \<Rightarrow> KVCacheSpec \<Rightarrow> BlockHashList" where
  "group_hashes_of c hs spec = projr (spec_hashes (coord_hash_block_size c) hs spec)"

definition window_need :: "KVCacheSpec \<Rightarrow> nat" where
  "window_need spec = nat (cdiv (the (sliding_window_of spec) - 1) (block_size spec))"

text \<open>\<open>group_valid c hs grp l\<close>: a hit of \<open>l\<close> blocks is usable for the group.\<close>

definition group_valid :: "KVCacheCoordinator \<Rightarrow> bytes list \<Rightarrow> attn_group \<Rightarrow> nat \<Rightarrow> bool" where
  "group_valid c hs grp l \<longleftrightarrow>
     (case grp of (spec, gids, cls) \<Rightarrow>
      let p = block_pool c; hashes = group_hashes_of c hs spec; ok = aligned (block_size spec) (lcm_block_size c) in
      if is_FullAttentionSpec spec then ok l \<and> (\<forall>i < l. hit p hashes gids i)
      else if is_MambaSpec spec then l = 0 \<or> ok l \<and> hit p hashes gids (l - 1)
      else window_valid p hashes gids (window_need spec) ok l)"

text \<open>The block of a hit of \<open>l\<close> blocks, for the \<open>g\<close>-th KV cache group of the attention group.\<close>

definition group_cell :: "KVCacheCoordinator \<Rightarrow> bytes list \<Rightarrow> attn_group \<Rightarrow> nat \<Rightarrow> nat \<Rightarrow> nat \<Rightarrow> bref" where
  "group_cell c hs grp l g i =
     (case grp of (spec, gids, cls) \<Rightarrow>
      let p = block_pool c; hashes = group_hashes_of c hs spec in
      if is_FullAttentionSpec spec then found p hashes gids g i
      else if is_MambaSpec spec then (if Suc i = l then found p hashes gids g i else null_block p)
      else window_cells p hashes gids (window_need spec) l g i)"

abbreviation grp_size :: "attn_group \<Rightarrow> int" where
  "grp_size grp \<equiv> block_size (fst grp)"

abbreviation grp_ids :: "attn_group \<Rightarrow> int list" where
  "grp_ids grp \<equiv> fst (snd grp)"

definition group_ok :: "KVCacheCoordinator \<Rightarrow> bytes list \<Rightarrow> int \<Rightarrow> attn_group \<Rightarrow> bool" where
  "group_ok c hs max_len grp \<longleftrightarrow>
     (case grp of (spec, gids, cls) \<Rightarrow>
      (\<exists>hashes. spec_hashes (coord_hash_block_size c) hs spec = Inr hashes \<and>
         searchable (block_pool c) hashes gids \<and> max_len div block_size spec \<le> bhl_len hashes) \<and>
      0 < block_size spec \<and> block_size spec dvd lcm_block_size c \<and>
      (is_FullAttentionSpec spec \<and> cls = FullAttentionManager \<or>
       is_MambaSpec spec \<and> cls = MambaManager \<or>
       cls = SlidingWindowManager \<and> \<not> is_FullAttentionSpec spec \<and> (\<exists>w. sliding_window_of spec = Some w \<and> 1 < w)))"

lemma group_search:
  assumes "group_ok c hs max_len grp" "0 < lcm_block_size c" "0 \<le> cur" "cur \<le> max_len"
  shows "\<exists>l. find_longest_cache_hit (snd (snd grp)) (group_hashes_of c hs (fst grp)) cur (grp_ids grp) (block_pool c)
      (fst grp) False (lcm_block_size c) 1 1 = Inr (grid (length (grp_ids grp)) l (group_cell c hs grp l)) \<and>
    int l * grp_size grp \<le> cur \<and> group_valid c hs grp l \<and>
    (\<forall>l'. int l' * grp_size grp \<le> cur \<and> group_valid c hs grp l' \<longrightarrow> l' \<le> l)"
proof -
  obtain spec gids cls where g: "grp = (spec, gids, cls)" by (cases grp) auto
  let ?h = "group_hashes_of c hs spec" and ?p = "block_pool c" and ?al = "lcm_block_size c" and ?bs = "block_size spec"
  have b: "0 < ?bs" and s: "searchable ?p ?h gids" and len: "max_len div ?bs \<le> bhl_len ?h"
    using assms(1) g by (auto simp: group_ok_def group_hashes_of_def)
  have len': "cur div ?bs \<le> bhl_len ?h" using zdiv_mono1 [OF assms(4) b] len by simp
  have al: "?al \<noteq> 0" using assms(2) by simp
  have iff: "int l \<le> cur div ?bs \<longleftrightarrow> int l * ?bs \<le> cur" for l using le_div_iff_int [OF b] by simp
  consider (full) "is_FullAttentionSpec spec" "cls = FullAttentionManager"
    | (mamba) "is_MambaSpec spec" "cls = MambaManager"
    | (win) w where "cls = SlidingWindowManager" "\<not> is_FullAttentionSpec spec" "sliding_window_of spec = Some w" "1 < w"
    using assms(1) g by (auto simp: group_ok_def)
  then show ?thesis
  proof cases
    case full
    have e: "?bs = (if (1::int) * 1 > 1 then block_size spec * (1 * 1) else block_size spec)" by simp
    have cell: "group_cell c hs (spec, gids, FullAttentionManager) l = found ?p ?h gids" for l
      using full by (intro ext) (simp add: group_cell_def Let_def)
    show ?thesis
      using full_attention_hit [OF s full(1) b al e assms(3) len', of False] full
      by (simp add: g find_longest_cache_hit_def group_valid_def cell iff Let_def)
  next
    case mamba
    have nf: "\<not> is_FullAttentionSpec spec" using mamba(1) by (cases spec) auto
    obtain l where l: "mamba_find_longest_cache_hit ?h cur gids ?p spec False ?al 1 1 =
        Inr (grid (length gids) l (\<lambda>g i. if Suc i = l then found ?p ?h gids g i else null_block ?p))"
      "int l \<le> cur div ?bs" "l = 0 \<or> aligned ?bs ?al l \<and> hit ?p ?h gids (l - 1)"
      "\<forall>l'. int l' \<le> cur div ?bs \<and> 0 < l' \<and> aligned ?bs ?al l' \<and> hit ?p ?h gids (l' - 1) \<longrightarrow> l' \<le> l"
      using mamba_longest_hit [OF s mamba(1) b al assms(3) len', of False] by blast
    have "l' \<le> l" if "int l' \<le> cur div ?bs" "l' = 0 \<or> aligned ?bs ?al l' \<and> hit ?p ?h gids (l' - 1)" for l'
      using l(4) that by (cases "l' = 0") auto
    moreover have "group_cell c hs (spec, gids, MambaManager) l =
        (\<lambda>g i. if Suc i = l then found ?p ?h gids g i else null_block ?p)" for l
      using mamba nf by (intro ext) (simp add: group_cell_def Let_def)
    ultimately show ?thesis using l(1-3) mamba nf
      by (intro exI [of _ l]) (simp add: g find_longest_cache_hit_def group_valid_def iff Let_def)
  next
    case win
    have nm: "\<not> is_MambaSpec spec" using win(3) by (cases spec) auto
    have n: "window_need spec = nat (cdiv (w - 1) ?bs)" using win(3) by (simp add: window_need_def)
    have cell: "group_cell c hs (spec, gids, SlidingWindowManager) l =
        window_cells ?p ?h gids (window_need spec) l" for l
      using win nm by (intro ext) (simp add: group_cell_def Let_def)
    show ?thesis
      using sliding_window_hit [OF s win(3,4) b al assms(3) len' n] win nm
      by (simp add: g find_longest_cache_hit_def group_valid_def cell iff Let_def)
  qed
qed

section \<open>One attention group\<close>

definition holds :: "KVCacheCoordinator \<Rightarrow> bytes list \<Rightarrow> bref list option list \<Rightarrow> attn_group \<Rightarrow> nat \<Rightarrow> bool" where
  "holds c hs hb grp l \<longleftrightarrow> (\<forall>j < length (grp_ids grp).
     hb ! nat (grp_ids grp ! j) = Some (map (group_cell c hs grp l j) [0..<l]))"

definition ids_fit :: "'a list \<Rightarrow> int list \<Rightarrow> bool" where
  "ids_fit hb gids \<longleftrightarrow> distinct gids \<and> (\<forall>g \<in> set gids. 0 \<le> g \<and> g < len hb)"

lemma set_group_blocks_ok:
  assumes "ids_fit hb gids" "length hits = length gids"
  shows "\<exists>hb'. set_group_blocks gids hits hb = Inr hb' \<and> length hb' = length hb \<and>
    (\<forall>j < length gids. hb' ! nat (gids ! j) = Some (hits ! j)) \<and>
    (\<forall>i. int i \<notin> set gids \<longrightarrow> hb' ! i = hb ! i)"
  using assms unfolding set_group_blocks_def
proof (induction gids arbitrary: hits hb)
  case (Cons g gs)
  obtain h hs where h: "hits = h # hs" using Cons.prems(2) by (cases hits) auto
  have g: "0 \<le> g" "g < len hb" "g \<notin> set gs" using Cons.prems(1) by (auto simp: ids_fit_def)
  let ?hb = "hb[nat g := Some h]"
  have set1: "py_set hb g (Some h) = Inr ?hb" using g by (simp add: py_set_def py_pos_def)
  have "ids_fit ?hb gs" using Cons.prems(1) by (simp add: ids_fit_def)
  then obtain hb' where hb': "rfold (\<lambda>(g, b) hb'. py_set hb' g (Some b)) (zip gs hs) ?hb = Inr hb'"
    "length hb' = length ?hb" "\<forall>j < length gs. hb' ! nat (gs ! j) = Some (hs ! j)"
    "\<forall>i. int i \<notin> set gs \<longrightarrow> hb' ! i = ?hb ! i"
    using Cons.IH [of ?hb hs] Cons.prems(2) h by auto
  have "hb' ! nat g = Some h" using hb'(4) g by simp
  moreover have "hb' ! i = hb ! i" if "int i \<notin> set (g # gs)" for i
  proof -
    have "nat g \<noteq> i" using that g(1) by auto
    then show ?thesis using hb'(4) that by simp
  qed
  ultimately show ?case
    using hb'(1-3) h set1 by (auto simp: nth_Cons split: nat.splits)
qed simp

lemma grid_rows: "j < k \<Longrightarrow> grid k l f ! j = map (f j) [0..<l]"
  by (simp add: grid_def)

lemma group_valid_dvd: "group_valid c hs grp l \<Longrightarrow> lcm_block_size c dvd int l * grp_size grp"
  by (auto simp: group_valid_def Let_def aligned_def window_valid_def mod_eq_0_iff_dvd split: prod.splits if_splits)

lemma group_step_find:
  assumes ok: "group_ok c hs max_len grp" "0 < lcm_block_size c" and cur: "0 \<le> cur" "cur \<le> max_len"
    and ids: "ids_fit hb (grp_ids grp)" and eagle: "eagle_attn_group_indices c = []"
    and fresh: "is_FullAttentionSpec (fst grp) \<longrightarrow> hb ! nat (hd (grp_ids grp)) = None"
  shows "\<exists>l hb'. hybrid_group_step c hs max_len (idx, grp) (cur, hb, []) = Inr (int l * grp_size grp, hb', []) \<and>
    length hb' = length hb \<and> holds c hs hb' grp l \<and> (\<forall>i. int i \<notin> set (grp_ids grp) \<longrightarrow> hb' ! i = hb ! i) \<and>
    group_valid c hs grp l \<and> int l * grp_size grp \<le> cur \<and>
    (\<forall>l'. int l' * grp_size grp \<le> cur \<and> group_valid c hs grp l' \<longrightarrow> l' \<le> l)"
proof -
  obtain spec gids cls where g: "grp = (spec, gids, cls)" by (cases grp) auto
  obtain hashes where h: "spec_hashes (coord_hash_block_size c) hs spec = Inr hashes" "gids \<noteq> []"
    using ok(1) g by (auto simp: group_ok_def searchable_def)
  have h': "group_hashes_of c hs spec = hashes" by (simp add: group_hashes_of_def h(1))
  obtain l where l: "find_longest_cache_hit cls hashes cur gids (block_pool c) spec False (lcm_block_size c) 1 1 =
      Inr (grid (length gids) l (group_cell c hs grp l))" "int l * block_size spec \<le> cur" "group_valid c hs grp l"
    "\<forall>l'. int l' * block_size spec \<le> cur \<and> group_valid c hs grp l' \<longrightarrow> l' \<le> l"
    using group_search [OF ok cur] g h' by auto
  let ?hits = "grid (length gids) l (group_cell c hs grp l)"
  obtain hb' where hb': "set_group_blocks gids ?hits hb = Inr hb'" "length hb' = length hb"
    "\<forall>j < length gids. hb' ! nat (gids ! j) = Some (?hits ! j)" "\<forall>i. int i \<notin> set gids \<longrightarrow> hb' ! i = hb ! i"
    using set_group_blocks_ok [of hb gids ?hits] ids g by (auto simp: grid_def)
  have first: "0 \<le> gids ! 0" "gids ! 0 < len hb" "0 < length gids"
    using ids g h(2) by (auto simp: ids_fit_def)
  have rows: "?hits ! 0 = map (group_cell c hs grp l 0) [0..<l]" "length ?hits = length gids"
    using grid_rows [of 0 "length gids"] first(3) by (simp_all add: grid_def)
  have nf: "\<not> (is_FullAttentionSpec spec \<and> hb ! nat (gids ! 0) \<noteq> None)"
    using fresh g h(2) by (simp add: hd_conv_nth)
  have "hybrid_group_step c hs max_len (idx, grp) (cur, hb, []) = Inr (int l * block_size spec, hb', [])"
    using first rows nf h(1) l(1) hb'(1) eagle
    by (auto simp: hybrid_group_step_def g py_get_def py_pos_def Let_def)
  moreover have "holds c hs hb' grp l" using hb'(3) by (simp add: holds_def g grid_rows)
  ultimately show ?thesis using hb'(2,4) l(2-4) g by auto
qed

lemma group_step_cached:
  assumes "is_FullAttentionSpec (fst grp)" "ids_fit hb (grp_ids grp)" "grp_ids grp \<noteq> []"
    and "hb ! nat (hd (grp_ids grp)) \<noteq> None"
  shows "hybrid_group_step c hs max_len (idx, grp) (cur, hb, v) =
    Inr (cur div grp_size grp * grp_size grp, hb, v)"
proof -
  obtain spec gids cls where g: "grp = (spec, gids, cls)" by (cases grp) auto
  have "0 \<le> gids ! 0" "gids ! 0 < len hb" "0 < length gids" "hb ! nat (gids ! 0) \<noteq> None"
    using assms g by (auto simp: ids_fit_def hd_conv_nth)
  then show ?thesis using assms(1) by (auto simp: hybrid_group_step_def g py_get_def py_pos_def)
qed

section \<open>One pass\<close>

definition accepts :: "KVCacheCoordinator \<Rightarrow> bytes list \<Rightarrow> bref list option list \<Rightarrow> attn_group \<Rightarrow> int \<Rightarrow> bool" where
  "accepts c hs hb grp L \<longleftrightarrow> grp_size grp dvd L \<and> group_valid c hs grp (nat (L div grp_size grp)) \<and>
     holds c hs hb grp (nat (L div grp_size grp))"

definition common_hit :: "KVCacheCoordinator \<Rightarrow> bytes list \<Rightarrow> attn_group list \<Rightarrow> int \<Rightarrow> bool" where
  "common_hit c hs grps L \<longleftrightarrow> 0 \<le> L \<and>
     (\<forall>grp \<in> set grps. grp_size grp dvd L \<and> group_valid c hs grp (nat (L div grp_size grp)))"

abbreviation all_ids :: "attn_group list \<Rightarrow> int list" where
  "all_ids grps \<equiv> concat (map grp_ids grps)"

lemma accepts_frame:
  assumes "accepts c hs hb grp L" "\<forall>i. int i \<notin> I \<longrightarrow> hb' ! i = hb ! i" "set (grp_ids grp) \<inter> I = {}"
    and "\<forall>g \<in> set (grp_ids grp). 0 \<le> g"
  shows "accepts c hs hb' grp L"
proof -
  have "hb' ! nat (grp_ids grp ! j) = hb ! nat (grp_ids grp ! j)" if "j < length (grp_ids grp)" for j
  proof -
    have "grp_ids grp ! j \<in> set (grp_ids grp)" using that by simp
    then have "grp_ids grp ! j \<notin> I" "0 \<le> grp_ids grp ! j" using assms(3,4) by auto
    then show ?thesis using assms(2) by simp
  qed
  then show ?thesis using assms(1) by (simp add: accepts_def holds_def)
qed

lemma found_accepts:
  assumes "0 < grp_size grp" "group_valid c hs grp l" "holds c hs hb grp l" "L = int l * grp_size grp"
  shows "accepts c hs hb grp L"
  using assms by (simp add: accepts_def)

lemma common_le:
  assumes "common_hit c hs grps L" "grp \<in> set grps" "0 < grp_size grp" "L \<le> cur"
    and "\<forall>l'. int l' * grp_size grp \<le> cur \<and> group_valid c hs grp l' \<longrightarrow> l' \<le> l"
  shows "L \<le> int l * grp_size grp"
proof -
  have d: "grp_size grp dvd L" "group_valid c hs grp (nat (L div grp_size grp))" "0 \<le> L"
    using assms(1,2) by (auto simp: common_hit_def)
  have q: "int (nat (L div grp_size grp)) * grp_size grp = L"
    using d(1,3) assms(3) by (simp add: pos_imp_zdiv_nonneg_iff)
  then have "nat (L div grp_size grp) \<le> l" using assms(4,5) d(2) by simp
  then have "int (nat (L div grp_size grp)) \<le> int l" by (simp only: of_nat_le_iff)
  then have "int (nat (L div grp_size grp)) * grp_size grp \<le> int l * grp_size grp"
    using assms(3) by (intro mult_right_mono) auto
  then show ?thesis using q by simp
qed

lemma pass_others:
  assumes "0 < lcm_block_size c" "eagle_attn_group_indices c = []"
    and "\<forall>grp \<in> set N. group_ok c hs max_len grp \<and> \<not> is_FullAttentionSpec (fst grp)"
    and "0 \<le> cur" "cur \<le> max_len" "ids_fit hb (all_ids N)"
  shows "\<exists>cur' hb'. rfold (hybrid_group_step c hs max_len) (enumerate k N) (cur, hb, []) = Inr (cur', hb', []) \<and>
    0 \<le> cur' \<and> cur' \<le> cur \<and> length hb' = length hb \<and> (\<forall>i. int i \<notin> set (all_ids N) \<longrightarrow> hb' ! i = hb ! i) \<and>
    (\<forall>L. common_hit c hs N L \<and> L \<le> cur \<longrightarrow> L \<le> cur') \<and>
    (cur' = cur \<longrightarrow> (\<forall>grp \<in> set N. accepts c hs hb' grp cur)) \<and>
    (N \<noteq> [] \<longrightarrow> lcm_block_size c dvd cur') \<and> (\<forall>n. N = [n] \<longrightarrow> accepts c hs hb' n cur')"
  using assms(3-)
proof (induction N arbitrary: k cur hb)
  case (Cons n N)
  have ok: "group_ok c hs max_len n" "\<not> is_FullAttentionSpec (fst n)" using Cons.prems(1) by auto
  have b: "0 < grp_size n" using ok(1) by (auto simp: group_ok_def)
  have fit: "ids_fit hb (grp_ids n)" "ids_fit hb (all_ids N)" "set (grp_ids n) \<inter> set (all_ids N) = {}"
    "\<forall>g \<in> set (grp_ids n). 0 \<le> g"
    using Cons.prems(4) by (auto simp: ids_fit_def)
  obtain l hb1 where s: "hybrid_group_step c hs max_len (k, n) (cur, hb, []) = Inr (int l * grp_size n, hb1, [])"
    "length hb1 = length hb" "holds c hs hb1 n l" "\<forall>i. int i \<notin> set (grp_ids n) \<longrightarrow> hb1 ! i = hb ! i"
    "group_valid c hs n l" "int l * grp_size n \<le> cur"
    "\<forall>l'. int l' * grp_size n \<le> cur \<and> group_valid c hs n l' \<longrightarrow> l' \<le> l"
    using group_step_find [OF ok(1) assms(1) Cons.prems(2,3) fit(1) assms(2), of k] ok(2) by metis
  let ?c1 = "int l * grp_size n"
  have c1: "0 \<le> ?c1" "?c1 \<le> max_len" using b s(6) Cons.prems(3) by auto
  have fit1: "ids_fit hb1 (all_ids N)" using fit(2) s(2) by (simp add: ids_fit_def)
  obtain cur' hb' where r: "rfold (hybrid_group_step c hs max_len) (enumerate (Suc k) N) (?c1, hb1, []) = Inr (cur', hb', [])"
    "0 \<le> cur'" "cur' \<le> ?c1" "length hb' = length hb1" "\<forall>i. int i \<notin> set (all_ids N) \<longrightarrow> hb' ! i = hb1 ! i"
    "\<forall>L. common_hit c hs N L \<and> L \<le> ?c1 \<longrightarrow> L \<le> cur'"
    "cur' = ?c1 \<longrightarrow> (\<forall>grp \<in> set N. accepts c hs hb' grp ?c1)"
    "N \<noteq> [] \<longrightarrow> lcm_block_size c dvd cur'"
    using Cons.IH [OF _ c1 fit1, of "Suc k"] Cons.prems(1) by (metis list.set_intros(2))
  have acc1: "accepts c hs hb1 n ?c1" by (rule found_accepts [OF b s(5,3) refl])
  then have acc: "accepts c hs hb' n ?c1" by (rule accepts_frame [OF _ r(5) fit(3,4)])
  have "L \<le> cur'" if "common_hit c hs (n # N) L" "L \<le> cur" for L
  proof -
    have "L \<le> ?c1" by (rule common_le [OF that(1) _ b that(2) s(7)]) simp
    then show ?thesis using r(6) that(1) by (simp add: common_hit_def)
  qed
  moreover have "\<forall>grp \<in> set (n # N). accepts c hs hb' grp cur" if "cur' = cur"
  proof -
    have "?c1 = cur" using that r(3) s(6) by simp
    then show ?thesis using acc r(7) that by auto
  qed
  moreover have "lcm_block_size c dvd cur'"
  proof (cases "N = []")
    case True
    then show ?thesis using r(1) group_valid_dvd [OF s(5)] by simp
  qed (use r(8) in simp)
  moreover have "accepts c hs hb' n' cur'" if "n # N = [n']" for n'
    using that r(1) acc by simp
  moreover have "rfold (hybrid_group_step c hs max_len) (enumerate k (n # N)) (cur, hb, []) = Inr (cur', hb', [])"
    using s(1) r(1) by simp
  ultimately show ?case
    using r(2-5) s(2,4,6) by (intro exI [of _ cur'] exI [of _ hb'] conjI) auto
qed auto

text \<open>The full-attention group keeps the run it found first; later candidates lie within it.\<close>

definition full_held :: "KVCacheCoordinator \<Rightarrow> bytes list \<Rightarrow> bref list option list \<Rightarrow> attn_group \<Rightarrow> int \<Rightarrow> bool" where
  "full_held c hs hb f cur \<longleftrightarrow>
     (\<exists>l. holds c hs hb f l \<and> group_valid c hs f l \<and> cur \<le> int l * grp_size f)"

lemma full_step:
  assumes ok: "group_ok c hs max_len f" "is_FullAttentionSpec (fst f)" "0 < lcm_block_size c"
    and cur: "0 \<le> cur" "cur \<le> max_len" and ids: "ids_fit hb (grp_ids f)" and eagle: "eagle_attn_group_indices c = []"
    and st: "hb ! nat (hd (grp_ids f)) = None \<or> full_held c hs hb f cur"
  shows "\<exists>cur' hb'. hybrid_group_step c hs max_len (idx, f) (cur, hb, []) = Inr (cur', hb', []) \<and>
    0 \<le> cur' \<and> cur' \<le> cur \<and> length hb' = length hb \<and> full_held c hs hb' f cur' \<and>
    (\<forall>i. int i \<notin> set (grp_ids f) \<longrightarrow> hb' ! i = hb ! i) \<and>
    (\<forall>grps L. common_hit c hs grps L \<and> f \<in> set grps \<and> L \<le> cur \<longrightarrow> L \<le> cur')"
proof (cases "hb ! nat (hd (grp_ids f)) = None")
  case True
  have b: "0 < grp_size f" using ok(1) by (auto simp: group_ok_def)
  obtain l hb1 where s: "hybrid_group_step c hs max_len (idx, f) (cur, hb, []) = Inr (int l * grp_size f, hb1, [])"
    "length hb1 = length hb" "holds c hs hb1 f l" "\<forall>i. int i \<notin> set (grp_ids f) \<longrightarrow> hb1 ! i = hb ! i"
    "group_valid c hs f l" "int l * grp_size f \<le> cur"
    "\<forall>l'. int l' * grp_size f \<le> cur \<and> group_valid c hs f l' \<longrightarrow> l' \<le> l"
    using group_step_find [OF ok(1,3) cur ids eagle, of idx] True by metis
  have "\<forall>grps L. common_hit c hs grps L \<and> f \<in> set grps \<and> L \<le> cur \<longrightarrow> L \<le> int l * grp_size f"
    using common_le [OF _ _ b _ s(7)] by blast
  then show ?thesis using s b by (auto simp: full_held_def)
next
  case False
  have b: "0 < grp_size f" and ne: "grp_ids f \<noteq> []" using ok(1) by (auto simp: group_ok_def searchable_def)
  let ?c = "cur div grp_size f * grp_size f"
  have c: "0 \<le> ?c" "?c \<le> cur"
    using b cur(1) le_div_iff_int [OF b, of "cur div grp_size f" cur] by (simp_all add: pos_imp_zdiv_nonneg_iff)
  have "L \<le> ?c" if "common_hit c hs grps L" "f \<in> set grps" "L \<le> cur" for grps L
  proof -
    have "grp_size f dvd L" using that(1,2) by (simp add: common_hit_def)
    then have q: "L = L div grp_size f * grp_size f" by simp
    have "L div grp_size f * grp_size f \<le> ?c" using zdiv_mono1 [OF that(3) b] b by (simp add: mult_right_mono)
    then show ?thesis using q by simp
  qed
  moreover have "full_held c hs hb f ?c" using st False c(2) by (auto simp: full_held_def)
  ultimately show ?thesis
    using group_step_cached [OF ok(2) ids ne False] c
    by (intro exI [of _ ?c] exI [of _ hb]) blast
qed

definition pass_done ::
    "KVCacheCoordinator \<Rightarrow> bytes list \<Rightarrow> attn_group list \<Rightarrow> attn_group list \<Rightarrow> int \<Rightarrow> bref list option list \<Rightarrow>
     int \<Rightarrow> bref list option list \<Rightarrow> bool" where
  "pass_done c hs F N cur hb cur' hb' \<longleftrightarrow>
     0 \<le> cur' \<and> cur' \<le> cur \<and> length hb' = length hb \<and> lcm_block_size c dvd cur' \<and>
     (\<forall>L. common_hit c hs (F @ N) L \<and> L \<le> cur \<longrightarrow> L \<le> cur') \<and>
     (cur' = cur \<longrightarrow> (\<forall>grp \<in> set N. accepts c hs hb' grp cur)) \<and>
     (\<forall>n. N = [n] \<longrightarrow> accepts c hs hb' n cur') \<and> (\<forall>f \<in> set F. full_held c hs hb' f cur')"

definition groups_fit :: "KVCacheCoordinator \<Rightarrow> bytes list \<Rightarrow> int \<Rightarrow> attn_group list \<Rightarrow> attn_group list \<Rightarrow> bool" where
  "groups_fit c hs max_len F N \<longleftrightarrow> length F \<le> 1 \<and> N \<noteq> [] \<and> 0 < lcm_block_size c \<and> eagle_attn_group_indices c = [] \<and>
     (\<forall>grp \<in> set F. group_ok c hs max_len grp \<and> is_FullAttentionSpec (fst grp)) \<and>
     (\<forall>grp \<in> set N. group_ok c hs max_len grp \<and> \<not> is_FullAttentionSpec (fst grp))"

lemma full_held_frame:
  assumes "full_held c hs hb f cur" "cur' \<le> cur" "\<forall>i. int i \<notin> I \<longrightarrow> hb' ! i = hb ! i" "set (grp_ids f) \<inter> I = {}"
    and "\<forall>g \<in> set (grp_ids f). 0 \<le> g"
  shows "full_held c hs hb' f cur'"
proof -
  obtain l where l: "holds c hs hb f l" "group_valid c hs f l" "cur \<le> int l * grp_size f"
    using assms(1) by (auto simp: full_held_def)
  have "hb' ! nat (grp_ids f ! j) = hb ! nat (grp_ids f ! j)" if "j < length (grp_ids f)" for j
  proof -
    have "grp_ids f ! j \<in> set (grp_ids f)" using that by simp
    then have "grp_ids f ! j \<notin> I" "0 \<le> grp_ids f ! j" using assms(4,5) by auto
    then show ?thesis using assms(3) by simp
  qed
  then have "holds c hs hb' f l" using l(1) by (simp add: holds_def)
  then show ?thesis using l(2,3) assms(2) by (auto simp: full_held_def)
qed

lemma pass_ok:
  assumes gf: "groups_fit c hs max_len F N" and cur: "0 \<le> cur" "cur \<le> max_len" and ids: "ids_fit hb (all_ids (F @ N))"
    and st: "\<forall>f \<in> set F. hb ! nat (hd (grp_ids f)) = None \<or> full_held c hs hb f cur"
  shows "\<exists>cur' hb'. rfold (hybrid_group_step c hs max_len) (enumerate 0 (F @ N)) (cur, hb, []) = Inr (cur', hb', []) \<and>
    pass_done c hs F N cur hb cur' hb'"
proof -
  have al: "0 < lcm_block_size c" "eagle_attn_group_indices c = []" "N \<noteq> []"
    and okN: "\<forall>grp \<in> set N. group_ok c hs max_len grp \<and> \<not> is_FullAttentionSpec (fst grp)"
    using gf by (auto simp: groups_fit_def)
  show ?thesis
  proof (cases F)
    case Nil
    have fitN: "ids_fit hb (all_ids N)" using ids Nil by simp
    obtain cur' hb' where "rfold (hybrid_group_step c hs max_len) (enumerate 0 N) (cur, hb, []) = Inr (cur', hb', [])"
      "0 \<le> cur'" "cur' \<le> cur" "length hb' = length hb" "\<forall>i. int i \<notin> set (all_ids N) \<longrightarrow> hb' ! i = hb ! i"
      "\<forall>L. common_hit c hs N L \<and> L \<le> cur \<longrightarrow> L \<le> cur'"
      "cur' = cur \<longrightarrow> (\<forall>grp \<in> set N. accepts c hs hb' grp cur)"
      "N \<noteq> [] \<longrightarrow> lcm_block_size c dvd cur'" "\<forall>n. N = [n] \<longrightarrow> accepts c hs hb' n cur'"
      using pass_others [OF al(1,2) okN cur fitN, of 0] by blast
    then show ?thesis using Nil al(3) by (intro exI [of _ cur'] exI [of _ hb']) (simp add: pass_done_def)
  next
    case (Cons f F')
    then have F: "F = [f]" using gf by (simp add: groups_fit_def)
    have okf: "group_ok c hs max_len f" "is_FullAttentionSpec (fst f)" using gf F by (auto simp: groups_fit_def)
    have fit: "ids_fit hb (grp_ids f)" "ids_fit hb (all_ids N)" "set (grp_ids f) \<inter> set (all_ids N) = {}"
      "\<forall>g \<in> set (grp_ids f). 0 \<le> g"
      using ids F by (auto simp: ids_fit_def)
    have stf: "hb ! nat (hd (grp_ids f)) = None \<or> full_held c hs hb f cur" using st F by simp
    obtain cur1 hb1 where s: "hybrid_group_step c hs max_len (0, f) (cur, hb, []) = Inr (cur1, hb1, [])"
      "0 \<le> cur1" "cur1 \<le> cur" "length hb1 = length hb" "full_held c hs hb1 f cur1"
      "\<forall>i. int i \<notin> set (grp_ids f) \<longrightarrow> hb1 ! i = hb ! i"
      "\<forall>grps L. common_hit c hs grps L \<and> f \<in> set grps \<and> L \<le> cur \<longrightarrow> L \<le> cur1"
      using full_step [OF okf al(1) cur fit(1) al(2) stf, of 0] by blast
    have fit1: "ids_fit hb1 (all_ids N)" using fit(2) s(4) by (simp add: ids_fit_def)
    have c1: "cur1 \<le> max_len" using s(3) cur(2) by simp
    obtain cur' hb' where r: "rfold (hybrid_group_step c hs max_len) (enumerate 1 N) (cur1, hb1, []) = Inr (cur', hb', [])"
      "0 \<le> cur'" "cur' \<le> cur1" "length hb' = length hb1" "\<forall>i. int i \<notin> set (all_ids N) \<longrightarrow> hb' ! i = hb1 ! i"
      "\<forall>L. common_hit c hs N L \<and> L \<le> cur1 \<longrightarrow> L \<le> cur'"
      "cur' = cur1 \<longrightarrow> (\<forall>grp \<in> set N. accepts c hs hb' grp cur1)"
      "N \<noteq> [] \<longrightarrow> lcm_block_size c dvd cur'" "\<forall>n. N = [n] \<longrightarrow> accepts c hs hb' n cur'"
      using pass_others [OF al(1,2) okN s(2) c1 fit1, of 1] by blast
    have held: "full_held c hs hb' f cur'" by (rule full_held_frame [OF s(5) r(3,5) fit(3,4)])
    have "L \<le> cur'" if "common_hit c hs (F @ N) L" "L \<le> cur" for L
    proof -
      have "f \<in> set (F @ N)" using F by simp
      then have "L \<le> cur1" using s(7) that by blast
      moreover have "common_hit c hs N L" using that(1) by (simp add: common_hit_def)
      ultimately show ?thesis using r(6) by blast
    qed
    moreover have "\<forall>grp \<in> set N. accepts c hs hb' grp cur" if "cur' = cur"
    proof -
      have "cur' = cur1" "cur1 = cur" using that r(3) s(3) by linarith+
      then show ?thesis using r(7) by simp
    qed
    moreover have "rfold (hybrid_group_step c hs max_len) (enumerate 0 (F @ N)) (cur, hb, []) = Inr (cur', hb', [])"
      using s(1) r(1) F by simp
    ultimately show ?thesis
      using r(2-4,8,9) s(3,4) al(3) held F
      by (intro exI [of _ cur'] exI [of _ hb']) (simp add: pass_done_def)
  qed
qed

section \<open>The fixed point\<close>

text \<open>Every pass but the last shrinks the candidate, so \<open>nat hit_length + 1\<close> passes are enough.\<close>

lemma hybrid_loop_ok:
  assumes gf: "groups_fit c hs max_len F N" "attention_groups c = F @ N" "simple \<longrightarrow> length N = 1"
  shows "0 \<le> cur \<Longrightarrow> cur \<le> max_len \<Longrightarrow> ids_fit hb (all_ids (F @ N)) \<Longrightarrow>
    \<forall>f \<in> set F. hb ! nat (hd (grp_ids f)) = None \<or> full_held c hs hb f cur \<Longrightarrow> nat cur < fuel \<Longrightarrow>
    \<exists>L hb'. hybrid_loop fuel c hs max_len simple cur hb [] = Inr (L, hb') \<and>
      0 \<le> L \<and> L \<le> cur \<and> length hb' = length hb \<and> lcm_block_size c dvd L \<and>
      (\<forall>L'. common_hit c hs (F @ N) L' \<and> L' \<le> cur \<longrightarrow> L' \<le> L) \<and>
      (\<forall>grp \<in> set N. accepts c hs hb' grp L) \<and> (\<forall>f \<in> set F. full_held c hs hb' f L)"
proof (induction fuel arbitrary: cur hb)
  case (Suc fuel)
  obtain cur1 hb1 where s: "rfold (hybrid_group_step c hs max_len) (enumerate 0 (F @ N)) (cur, hb, []) = Inr (cur1, hb1, [])"
    "pass_done c hs F N cur hb cur1 hb1"
    using pass_ok [OF gf(1) Suc.prems(1-4)] by blast
  have d: "0 \<le> cur1" "cur1 \<le> cur" "length hb1 = length hb" "lcm_block_size c dvd cur1"
    "\<forall>L. common_hit c hs (F @ N) L \<and> L \<le> cur \<longrightarrow> L \<le> cur1"
    "cur1 = cur \<longrightarrow> (\<forall>grp \<in> set N. accepts c hs hb1 grp cur)"
    "\<forall>n. N = [n] \<longrightarrow> accepts c hs hb1 n cur1" "\<forall>f \<in> set F. full_held c hs hb1 f cur1"
    using s(2) unfolding pass_done_def by blast+
  have run: "hybrid_loop (Suc fuel) c hs max_len simple cur hb [] =
      (if cur1 \<ge> cur then Inr (cur, hb1) else if simple then Inr (cur1, hb1)
       else hybrid_loop fuel c hs max_len simple cur1 hb1 [])"
    using s(1) gf(2) by simp
  show ?case
  proof (cases "cur1 = cur \<or> simple")
    case True
    have "\<forall>grp \<in> set N. accepts c hs hb1 grp cur1"
    proof (cases "cur1 = cur")
      case False
      then obtain n where "N = [n]" using True gf(3) by (auto simp: length_Suc_conv)
      then show ?thesis using d(7) by simp
    qed (use d(6) in simp)
    moreover have "hybrid_loop (Suc fuel) c hs max_len simple cur hb [] = Inr (cur1, hb1)"
      using run True d(2) by auto
    ultimately show ?thesis using d(1-5,8) by blast
  next
    case False
    then have lt: "cur1 < cur" using d(2) by simp
    then have "cur1 \<le> max_len" "nat cur1 < fuel" using Suc.prems(1,2,5) d(1) by simp_all
    moreover have "ids_fit hb1 (all_ids (F @ N))" using Suc.prems(3) d(3) by (simp add: ids_fit_def)
    moreover have "\<forall>f \<in> set F. hb1 ! nat (hd (grp_ids f)) = None \<or> full_held c hs hb1 f cur1" using d(8) by blast
    ultimately obtain L hb' where r: "hybrid_loop fuel c hs max_len simple cur1 hb1 [] = Inr (L, hb')"
      "0 \<le> L" "L \<le> cur1" "length hb' = length hb1" "lcm_block_size c dvd L"
      "\<forall>L'. common_hit c hs (F @ N) L' \<and> L' \<le> cur1 \<longrightarrow> L' \<le> L"
      "\<forall>grp \<in> set N. accepts c hs hb' grp L" "\<forall>f \<in> set F. full_held c hs hb' f L"
      using Suc.IH [OF d(1)] by blast
    have "L' \<le> L" if "common_hit c hs (F @ N) L'" "L' \<le> cur" for L'
      using d(5) r(6) that by blast
    moreover have "hybrid_loop (Suc fuel) c hs max_len simple cur hb [] = Inr (L, hb')"
      using False lt r(1) by (simp only: run) simp
    ultimately show ?thesis using r(2-5,7,8) d(2,3) by (intro exI [of _ L] exI [of _ hb']) simp
  qed
qed simp

lemma trim_rows:
  assumes "ids_fit hb gids"
  shows "\<exists>hb'. rfold (\<lambda>g hb'. rbind (py_get hb' g) (\<lambda>b. py_set hb' g (map_option f b))) gids hb = Inr hb' \<and>
    length hb' = length hb \<and> (\<forall>g \<in> set gids. hb' ! nat g = map_option f (hb ! nat g)) \<and>
    (\<forall>i. int i \<notin> set gids \<longrightarrow> hb' ! i = hb ! i)"
  using assms
proof (induction gids arbitrary: hb)
  case (Cons g gs)
  have g: "0 \<le> g" "g < len hb" "g \<notin> set gs" using Cons.prems by (auto simp: ids_fit_def)
  let ?hb = "hb[nat g := map_option f (hb ! nat g)]"
  have "ids_fit ?hb gs" using Cons.prems by (simp add: ids_fit_def)
  then obtain hb' where r: "rfold (\<lambda>g hb'. rbind (py_get hb' g) (\<lambda>b. py_set hb' g (map_option f b))) gs ?hb = Inr hb'"
    "length hb' = length ?hb" "\<forall>g \<in> set gs. hb' ! nat g = map_option f (?hb ! nat g)"
    "\<forall>i. int i \<notin> set gs \<longrightarrow> hb' ! i = ?hb ! i"
    using Cons.IH by blast
  have other: "nat g' \<noteq> nat g" if "g' \<in> set gs" for g'
    using that g Cons.prems by (auto simp: ids_fit_def nat_eq_iff)
  have "hb' ! nat g = map_option f (hb ! nat g)" using r(4) g by simp
  moreover have "\<forall>g' \<in> set gs. hb' ! nat g' = map_option f (hb ! nat g')"
    using r(3) other by (metis nth_list_update_neq)
  moreover have "hb' ! i = hb ! i" if "int i \<notin> set (g # gs)" for i
  proof -
    have "nat g \<noteq> i" using that g(1) by auto
    then show ?thesis using r(4) that by simp
  qed
  moreover have "py_get hb g = Inr (hb ! nat g)" "py_set hb g x = Inr (hb[nat g := x])" for x
    using g by (simp_all add: py_get_def py_set_def py_pos_def)
  ultimately show ?case using r(1,2) by auto
qed simp

lemma trim_full_ok:
  assumes f: "is_FullAttentionSpec (fst f)" "0 < grp_size f" "ids_fit hb (grp_ids f)"
    and held: "full_held c hs hb f L" and L: "0 \<le> L" "grp_size f dvd L" "lcm_block_size c dvd L"
  shows "\<exists>hb'. trim_full (f # rest) L hb = Inr hb' \<and> length hb' = length hb \<and> accepts c hs hb' f L \<and>
    (\<forall>i. int i \<notin> set (grp_ids f) \<longrightarrow> hb' ! i = hb ! i)"
proof -
  obtain spec gids cls where g: "f = (spec, gids, cls)" by (cases f) auto
  obtain l where l: "holds c hs hb f l" "group_valid c hs f l" "L \<le> int l * grp_size f"
    using held by (auto simp: full_held_def)
  let ?n = "nat (L div grp_size f)"
  have n: "int ?n = L div grp_size f" using L(1) f(2) by (simp add: pos_imp_zdiv_nonneg_iff)
  have nl: "?n \<le> l"
  proof -
    have "L div grp_size f \<le> int l * grp_size f div grp_size f" using l(3) f(2) by (rule zdiv_mono1)
    then show ?thesis using f(2) by simp
  qed
  let ?tr = "\<lambda>bs. py_upto bs (L div block_size spec)"
  obtain hb' where hb': "rfold (\<lambda>g hb'. rbind (py_get hb' g) (\<lambda>b. py_set hb' g (map_option ?tr b))) gids hb = Inr hb'"
    "length hb' = length hb" "\<forall>g \<in> set gids. hb' ! nat g = map_option ?tr (hb ! nat g)"
    "\<forall>i. int i \<notin> set gids \<longrightarrow> hb' ! i = hb ! i"
    using trim_rows [of hb gids ?tr] f(3) g by auto
  have tr: "?tr bs = take ?n bs" for bs :: "bref list"
    using n g by (auto simp: py_upto_def slice_bound_def min_def)
  have cell: "group_cell c hs f l j = group_cell c hs f ?n j" for j
    using f(1) g by (intro ext) (simp add: group_cell_def Let_def)
  have "hb' ! nat (gids ! j) = Some (map (group_cell c hs f ?n j) [0..<?n])" if j: "j < length gids" for j
  proof -
    have "hb ! nat (gids ! j) = Some (map (group_cell c hs f l j) [0..<l])" using l(1) j g by (simp add: holds_def)
    then have "hb' ! nat (gids ! j) = Some (take ?n (map (group_cell c hs f l j) [0..<l]))"
      using hb'(3) j tr by simp
    then show ?thesis using nl cell by (simp add: take_map)
  qed
  then have "holds c hs hb' f ?n" using g by (simp add: holds_def)
  moreover have "group_valid c hs f ?n"
  proof -
    have "aligned (grp_size f) (lcm_block_size c) ?n"
      using L(2,3) n by (auto simp: aligned_def dvd_eq_mod_eq_0)
    then show ?thesis using l(2) f(1) nl g by (auto simp: group_valid_def Let_def)
  qed
  ultimately have "accepts c hs hb' f L" using L(2) by (simp add: accepts_def)
  then show ?thesis using hb'(1,2,4) f(1) g by (auto simp: trim_full_def py_get_def py_pos_def)
qed

text \<open>A coordinator and a request for which the search is set up: at most one full-attention group,
  which comes first, no EAGLE groups, and hashes for the length asked for.\<close>

definition hybrid_ready :: "KVCacheCoordinator \<Rightarrow> bytes list \<Rightarrow> int \<Rightarrow> bool" where
  "hybrid_ready c hs max_len \<longleftrightarrow> 0 \<le> max_len \<and>
     (\<exists>F N. attention_groups c = F @ N \<and> groups_fit c hs max_len F N) \<and>
     ids_fit (kv_cache_groups (coord_config c)) (all_ids (attention_groups c))"


section \<open>A full-attention and a sliding-window group\<close>

definition hybrid_fields :: AttentionSpec where
  "hybrid_fields = \<lparr>attn_block_size = 2, num_kv_heads = 1, head_size = 8,
     attn_dtype = ''bfloat16'', kv_quant_mode = NONE, page_size_padded = None\<rparr>"

definition demo_full_spec :: KVCacheSpec where
  "demo_full_spec = new_FullAttentionSpec hybrid_fields None None None"

definition demo_window_spec :: KVCacheSpec where
  "demo_window_spec = new_SlidingWindowSpec hybrid_fields 3 None"

definition demo_hybrid :: "BlockPool \<Rightarrow> KVCacheCoordinator" where
  "demo_hybrid p = \<lparr>coord_class = HybridKVCacheCoordinator,
     coord_config = \<lparr>num_blocks = 4, kv_cache_tensors = [],
       kv_cache_groups = [\<lparr>layer_names = [''l0''], group_spec = demo_full_spec, is_eagle_group = False\<rparr>,
                          \<lparr>layer_names = [''l1''], group_spec = demo_window_spec, is_eagle_group = False\<rparr>]\<rparr>,
     coord_max_model_len = 64, coord_enable_caching = True, eagle_group_ids = [], single_type_managers = [],
     block_pool = p, coord_block_size = 0, coord_dcp = 1, coord_pcp = 1, coord_hash_block_size = 2,
     attention_groups = [(demo_full_spec, [0], FullAttentionManager), (demo_window_spec, [1], SlidingWindowManager)],
     lcm_block_size = 2, eagle_attn_group_indices = []\<rparr>"

text \<open>The first block of a prompt is cached in both groups.\<close>

lemma demo_cached_both:
  "\<exists>p. pool_inv p [3] \<and> hash_of p 1 = Some (group_key [1] 0) \<and> hash_of p 2 = Some (group_key [1] 1)"
proof -
  let ?r = "(text_request ''a'' [5, 6, 7, 8])\<lparr>block_hashes := [[1], [2]]\<rparr>"
  have "b \<in> set [1, 2] \<Longrightarrow> b = 0 \<or> in_pool demo_pool b" for b by (auto simp: demo_pool_inv)
  from touch_ok [OF demo_pool_inv(2) this, of "[1, 2]"]
  obtain p1 where p1: "pool_inv p1 [3]" "same_setup demo_pool p1" "\<And>c. hash_of p1 c = None"
    by (auto simp: demo_pool_inv)
  have s: "num_gpu_blocks p1 = 4" "hash_block_size p1 = 2"
    using p1(2) by (simp_all add: same_setup_def demo_pool_inv)
  have q: "cache_request_ok demo_cfg ?r 2 2 1"
    by (simp add: cache_request_ok_def group_hashes_def text_request_def memo_ok_def)
  have cache: "\<exists>p'. pool_inv p' [3] \<and> same_setup p p' \<and> hash_of p' b = Some (group_key [1] g) \<and>
      (\<forall>c. c \<noteq> b \<longrightarrow> hash_of p' c = hash_of p c)"
    if h: "pool_inv p [3]" "hash_block_size p = 2" "in_pool p b" "0 < b" "hash_of p b = None" "0 \<le> g" "g < 2 ^ 32"
    for p b g
  proof -
    have "cacheable p (take (nat 1 - nat 0) (drop (nat 0) [b]))" using h by (simp add: cacheable_def)
    from cache_full_blocks_ok [OF h(1) _ _ _ this, of demo_cfg ?r 2 g] show ?thesis
      using h(2,4,6,7) q by (auto simp: group_hashes_def)
  qed
  obtain p2 where p2: "pool_inv p2 [3]" "same_setup p1 p2" "hash_of p2 1 = Some (group_key [1] 0)"
    "\<forall>c. c \<noteq> 1 \<longrightarrow> hash_of p2 c = hash_of p1 c"
    using cache [of p1 1 0] p1(1,3) s by auto
  have "hash_block_size p2 = 2" "in_pool p2 2" "hash_of p2 2 = None"
    using p2(2,4) p1(3) s by (simp_all add: same_setup_def)
  then obtain p3 where "pool_inv p3 [3]" "hash_of p3 2 = Some (group_key [1] 1)"
    "\<forall>c. c \<noteq> 2 \<longrightarrow> hash_of p3 c = hash_of p2 c"
    using cache [of p2 2 1] p2(1) by auto
  then show ?thesis using p2(3) by auto
qed

lemma demo_hybrid_simps:
  "block_size demo_full_spec = 2" "block_size demo_window_spec = 2" "is_FullAttentionSpec demo_full_spec"
  "\<not> is_FullAttentionSpec demo_window_spec" "\<not> is_MambaSpec demo_window_spec" "window_need demo_window_spec = 1"
  "sliding_window_of demo_window_spec = Some 3"
  by (simp_all add: demo_full_spec_def demo_window_spec_def hybrid_fields_def new_FullAttentionSpec_def
      new_SlidingWindowSpec_def window_need_def cdiv_def)


end
